(* ===== verification/Xv6_Prelude.thy ===== *)
theory Xv6_Prelude
  imports Main "HOL-Library.Word"
begin

text \<open>
  The prelude of the xv6 development: the machine integers of \<^verbatim>\<open>kernel/types.h\<close>, the outcome
  type that every kernel operation returns, byte memories with little-endian words, and the generic
  lemmas that the component theories share.

  An operation of the kernel returns, calls \<^verbatim>\<open>panic\<close>, gives up the CPU in \<^verbatim>\<open>sleep\<close> because what it
  waits for has not happened, or does not return within the recursion depth that the model gives it.
  The four are the constructors of \<open>res\<close>; \<open>bindR\<close> is the sequencing of C statements, and
  \<open>okR m Q\<close> says that \<open>m\<close> returns with a value that satisfies \<open>Q\<close>.
\<close>

unbundle bit_operations_syntax

named_theorems unat_simps \<open>unat of the address arithmetic of the kernel\<close>
named_theorems frame_simps \<open>what an operation leaves alone\<close>

type_synonym u8 = "8 word"
type_synonym u16 = "16 word"
type_synonym u32 = "32 word"
type_synonym u64 = "64 word"

type_synonym bytemem = "u64 \<Rightarrow> u8"

section \<open>Outcomes of kernel operations\<close>

datatype 'a res = Ok 'a | Panic string | Sleeps string | Diverges

fun bindR :: "'a res \<Rightarrow> ('a \<Rightarrow> 'b res) \<Rightarrow> 'b res" where
  "bindR (Ok x) f = f x"
| "bindR (Panic msg) f = Panic msg"
| "bindR (Sleeps chan) f = Sleeps chan"
| "bindR Diverges f = Diverges"

fun okR :: "'a res \<Rightarrow> ('a \<Rightarrow> bool) \<Rightarrow> bool" where
  "okR (Ok x) Q = Q x"
| "okR (Panic msg) Q = False"
| "okR (Sleeps chan) Q = False"
| "okR Diverges Q = False"

lemma okR_bindR [simp]: "okR (bindR m f) Q = okR m (\<lambda>x. okR (f x) Q)"
  by (cases m) auto

lemma bindR_assoc [simp]: "bindR (bindR m f) g = bindR m (\<lambda>x. bindR (f x) g)"
  by (cases m) auto

lemma bindR_cong [fundef_cong]:
  "m = m' \<Longrightarrow> (\<And>x. m' = Ok x \<Longrightarrow> f x = g x) \<Longrightarrow> bindR m f = bindR m' g"
  by (cases m') auto

lemma okR_mono: "okR m Q \<Longrightarrow> (\<And>x. Q x \<Longrightarrow> Q' x) \<Longrightarrow> okR m Q'"
  by (cases m) auto

lemma okR_bindI: "okR m P \<Longrightarrow> (\<And>x. P x \<Longrightarrow> okR (f x) Q) \<Longrightarrow> okR (bindR m f) Q"
  by (cases m) auto

lemma okR_bindI2:
  "okR m (\<lambda>(a, b). P a b) \<Longrightarrow> (\<And>a b. P a b \<Longrightarrow> okR (f (a, b)) Q) \<Longrightarrow> okR (bindR m f) Q"
  by (cases m) auto

lemma okR_if [simp]: "okR (if c then m else m') Q = (if c then okR m Q else okR m' Q)"
  by simp

lemma okR_Ex: "okR m Q \<longleftrightarrow> (\<exists>x. m = Ok x \<and> Q x)"
  by (cases m) auto

lemma okR_OkD: "okR m Q \<Longrightarrow> m = Ok x \<Longrightarrow> Q x"
  by auto

lemma bindR_eq_Ok: "bindR m f = Ok y \<longleftrightarrow> (\<exists>x. m = Ok x \<and> f x = Ok y)"
  by (cases m) auto

lemma bindR_OkE:
  assumes "bindR m f = Ok y"
  obtains x where "m = Ok x" "f x = Ok y"
  using assms by (auto simp: bindR_eq_Ok)

lemma okR_conj: "okR m P \<Longrightarrow> okR m Q \<Longrightarrow> okR m (\<lambda>x. P x \<and> Q x)"
  by (cases m) auto

section \<open>Little-endian words and byte memories\<close>

definition le_bytes :: "nat \<Rightarrow> 'a::len word \<Rightarrow> u8 list" where
  "le_bytes n v = map (\<lambda>i. ucast (drop_bit (8 * i) v)) [0..<n]"

fun le_word :: "u8 list \<Rightarrow> 'a::len word" where
  "le_word [] = 0"
| "le_word (b # bs) = ucast b OR push_bit 8 (le_word bs)"

lemma length_le_bytes [simp]: "length (le_bytes n v) = n"
  by (simp add: le_bytes_def)

lemma nth_le_bytes: "i < n \<Longrightarrow> le_bytes n v ! i = ucast (drop_bit (8 * i) v)"
  by (simp add: le_bytes_def)

lemma bit_le_word:
  "bit (le_word bs :: 'a::len word) k \<longleftrightarrow>
     k < LENGTH('a) \<and> k div 8 < length bs \<and> bit (bs ! (k div 8)) (k mod 8)"
proof (induction bs arbitrary: k)
  case Nil
  then show ?case by simp
next
  case (Cons b bs)
  show ?case
  proof (cases "k < 8")
    case True
    then show ?thesis
      by (auto simp: bit_simps)
  next
    case False
    then obtain j where j: "k = j + 8" by (metis add.commute le_Suc_ex not_less)
    have "\<not> bit b k" using False by (auto dest: bit_imp_le_length)
    moreover have "k div 8 = Suc (j div 8)" "k mod 8 = j mod 8" using j by simp_all
    ultimately show ?thesis
      using Cons.IH [of j] by (auto simp: bit_simps j)
  qed
qed

lemma le_word_le_bytes [simp]:
  fixes v :: "'a::len word"
  assumes "LENGTH('a) \<le> 8 * n"
  shows "le_word (le_bytes n v) = v"
proof (rule bit_eqI)
  fix k
  assume "possible_bit TYPE('a word) k"
  then have k: "k < LENGTH('a)" by simp
  then have "k div 8 < n" using assms by auto
  then show "bit (le_word (le_bytes n v) :: 'a word) k \<longleftrightarrow> bit v k"
    using k by (simp add: bit_le_word nth_le_bytes bit_simps)
qed

lemma le_bytes_le_word [simp]:
  assumes "length bs = n" and "8 * n \<le> LENGTH('a::len)"
  shows "le_bytes n (le_word bs :: 'a word) = bs"
proof (rule nth_equalityI)
  show "length (le_bytes n (le_word bs :: 'a word)) = length bs"
    using assms by simp
next
  fix i
  assume "i < length (le_bytes n (le_word bs :: 'a word))"
  then have i: "i < n" by simp
  show "le_bytes n (le_word bs :: 'a word) ! i = bs ! i"
  proof (rule bit_eqI)
    fix k
    assume "possible_bit TYPE(8 word) k"
    then have k: "k < 8" by simp
    then have "(k + 8 * i) div 8 = i" "(k + 8 * i) mod 8 = k" "k + 8 * i < LENGTH('a)"
      using i assms by auto
    then show "bit (le_bytes n (le_word bs :: 'a word) ! i) k \<longleftrightarrow> bit (bs ! i) k"
      using i k assms by (simp add: nth_le_bytes bit_simps bit_le_word add.commute)
  qed
qed

definition read_bytes :: "bytemem \<Rightarrow> u64 \<Rightarrow> nat \<Rightarrow> u8 list" where
  "read_bytes m a n = map (\<lambda>i. m (a + of_nat i)) [0..<n]"

definition write_bytes :: "bytemem \<Rightarrow> u64 \<Rightarrow> u8 list \<Rightarrow> bytemem" where
  "write_bytes m a bs = (\<lambda>x. if unat (x - a) < length bs then bs ! unat (x - a) else m x)"

lemma length_read_bytes [simp]: "length (read_bytes m a n) = n"
  by (simp add: read_bytes_def)

lemma nth_read_bytes [simp]: "i < n \<Longrightarrow> read_bytes m a n ! i = m (a + of_nat i)"
  by (simp add: read_bytes_def)

lemma unat_of_nat64 [simp]: "n < 2 ^ 64 \<Longrightarrow> unat (of_nat n :: u64) = n"
  by (simp add: unat_of_nat take_bit_eq_mod)

lemma write_bytes_nth:
  "i < length bs \<Longrightarrow> length bs \<le> 2 ^ 64 \<Longrightarrow> write_bytes m a bs (a + of_nat i) = bs ! i"
  by (simp add: write_bytes_def)

lemma write_bytes_Nil [simp]: "write_bytes m a [] = m"
  by (simp add: write_bytes_def)

lemma read_write_bytes:
  "length bs \<le> 2 ^ 64 \<Longrightarrow> n = length bs \<Longrightarrow> read_bytes (write_bytes m a bs) a n = bs"
  by (rule nth_equalityI) (auto simp: write_bytes_nth)

text \<open>
  Two address ranges of a 64-bit address space do not meet when each starts at or after the end of
  the other, going round the space.
\<close>

definition disj :: "u64 \<Rightarrow> nat \<Rightarrow> u64 \<Rightarrow> nat \<Rightarrow> bool" where
  "disj a la b lb \<longleftrightarrow> la \<le> unat (b - a) \<and> lb \<le> unat (a - b)"

lemma disj_sym: "disj a la b lb \<Longrightarrow> disj b lb a la"
  by (simp add: disj_def)

lemma unat_lt64: "unat (a::u64) < 2 ^ 64"
proof -
  have "(unat a :: nat) < 2 ^ LENGTH(64)" by (rule unsigned_less)
  then show ?thesis by simp
qed

lemma unat_minus_swap: "(a::u64) \<noteq> b \<Longrightarrow> unat (a - b) + unat (b - a) = 2 ^ 64"
  using unat_sub_if' [of a b] unat_sub_if' [of b a] unat_lt64 [of a] unat_lt64 [of b]
  by (auto simp: not_le word_unat_eq_iff)

lemma disj_outside:
  assumes "disj a la b lb" and "i < lb"
  shows "la \<le> unat (b + of_nat i - a)"
proof -
  have "a \<noteq> b" using assms by (auto simp: disj_def)
  then have sum: "unat (a - b) + unat (b - a) = 2 ^ 64" by (rule unat_minus_swap)
  have lt: "unat (b - a) + i < 2 ^ 64"
    using assms sum by (simp add: disj_def)
  have "b + of_nat i - a = (b - a) + of_nat i" by simp
  also have "unat \<dots> = unat (b - a) + i"
    using lt by (simp add: unat_word_ariths)
  finally show ?thesis using assms by (simp add: disj_def)
qed

lemma read_write_disj [simp]:
  "disj a (length bs) b n \<Longrightarrow> read_bytes (write_bytes m a bs) b n = read_bytes m b n"
  by (rule nth_equalityI) (auto simp: write_bytes_def dest: disj_outside)

lemma read_bytes_cong:
  "(\<And>i. i < n \<Longrightarrow> m (a + of_nat i) = m' (a + of_nat i)) \<Longrightarrow> read_bytes m a n = read_bytes m' a n"
  by (rule nth_equalityI) auto

definition load64 :: "bytemem \<Rightarrow> u64 \<Rightarrow> u64" where
  "load64 m a = le_word (read_bytes m a 8)"

definition store64 :: "bytemem \<Rightarrow> u64 \<Rightarrow> u64 \<Rightarrow> bytemem" where
  "store64 m a v = write_bytes m a (le_bytes 8 v)"

lemma load_store_same [simp]: "load64 (store64 m a v) a = v"
  by (simp add: load64_def store64_def read_write_bytes)

lemma load_store_disj: "disj a 8 b 8 \<Longrightarrow> load64 (store64 m a v) b = load64 m b"
  by (simp add: load64_def store64_def)

lemma read_store_disj: "disj a 8 b n \<Longrightarrow> read_bytes (store64 m a v) b n = read_bytes m b n"
  by (simp add: store64_def)

lemma load_write_disj: "disj a (length bs) b 8 \<Longrightarrow> load64 (write_bytes m a bs) b = load64 m b"
  by (simp add: load64_def)

lemma store64_outside: "8 \<le> unat (x - a) \<Longrightarrow> store64 m a v x = m x"
  by (simp add: store64_def write_bytes_def)

section \<open>Lists updated by index\<close>

lemma list_update_map_eq:
  "i < length xs \<Longrightarrow> f y = f (xs ! i) \<Longrightarrow> map f (xs[i := y]) = map f xs"
  by (metis list_update_id map_update)

section \<open>Bytes inside a block\<close>

text \<open>A field of a structure that lies in a block of bytes is read by \<open>slice\<close> and stored by \<open>splice\<close>.\<close>

definition slice :: "nat \<Rightarrow> nat \<Rightarrow> 'a list \<Rightarrow> 'a list" where
  "slice off n bs = take n (drop off bs)"

definition splice :: "nat \<Rightarrow> 'a list \<Rightarrow> 'a list \<Rightarrow> 'a list" where
  "splice off new bs = take off bs @ new @ drop (off + length new) bs"

definition get16 :: "nat \<Rightarrow> u8 list \<Rightarrow> u16" where
  "get16 off bs = le_word (slice off 2 bs)"

definition get32 :: "nat \<Rightarrow> u8 list \<Rightarrow> u32" where
  "get32 off bs = le_word (slice off 4 bs)"

definition put16 :: "nat \<Rightarrow> u16 \<Rightarrow> u8 list \<Rightarrow> u8 list" where
  "put16 off v bs = splice off (le_bytes 2 v) bs"

definition put32 :: "nat \<Rightarrow> u32 \<Rightarrow> u8 list \<Rightarrow> u8 list" where
  "put32 off v bs = splice off (le_bytes 4 v) bs"

lemma length_slice [simp]: "length (slice off n bs) = min n (length bs - off)"
  by (simp add: slice_def)

lemma length_splice [simp]: "off + length new \<le> length bs \<Longrightarrow> length (splice off new bs) = length bs"
  by (simp add: splice_def)

lemma nth_splice:
  "off + length new \<le> length bs \<Longrightarrow> i < length bs \<Longrightarrow>
   splice off new bs ! i = (if off \<le> i \<and> i < off + length new then new ! (i - off) else bs ! i)"
  by (auto simp: splice_def nth_append)

lemma nth_slice: "off + n \<le> length bs \<Longrightarrow> i < n \<Longrightarrow> slice off n bs ! i = bs ! (off + i)"
  by (simp add: slice_def)

lemma slice_splice_same [simp]:
  "off + length new \<le> length bs \<Longrightarrow> n = length new \<Longrightarrow> slice off n (splice off new bs) = new"
  by (simp add: slice_def splice_def)

lemma slice_splice_disj:
  assumes "off + length new \<le> length bs" and "o' + n \<le> length bs" and "o' + n \<le> off \<or> off + length new \<le> o'"
  shows "slice o' n (splice off new bs) = slice o' n bs"
  by (rule nth_equalityI) (use assms in \<open>auto simp: nth_slice nth_splice\<close>)

lemma splice_slice [simp]: "off + n \<le> length bs \<Longrightarrow> splice off (slice off n bs) bs = bs"
  by (simp add: splice_def slice_def min_def flip: append_assoc take_add)

lemma length_put [simp]:
  "off + 2 \<le> length bs \<Longrightarrow> length (put16 off w bs) = length bs"
  "off + 4 \<le> length bs \<Longrightarrow> length (put32 off v bs) = length bs"
  by (simp_all add: put16_def put32_def)

lemma get_put_same [simp]:
  "off + 2 \<le> length bs \<Longrightarrow> get16 off (put16 off w bs) = w"
  "off + 4 \<le> length bs \<Longrightarrow> get32 off (put32 off v bs) = v"
  by (simp_all add: get16_def get32_def put16_def put32_def)

lemma get_put_disj:
  "off + 4 \<le> length bs \<Longrightarrow> o' + 4 \<le> length bs \<Longrightarrow> o' + 4 \<le> off \<or> off + 4 \<le> o' \<Longrightarrow>
   get32 o' (put32 off v bs) = get32 o' bs"
  by (simp add: get32_def put32_def slice_splice_disj)

section \<open>Counted loops\<close>

text \<open>\<open>forR xs f\<close> is a \<^verbatim>\<open>for\<close> loop over the values \<open>xs\<close> whose body \<open>f\<close> may panic or sleep.\<close>

fun forR :: "'i list \<Rightarrow> ('i \<Rightarrow> 's \<Rightarrow> 's res) \<Rightarrow> 's \<Rightarrow> 's res" where
  "forR [] f s = Ok s"
| "forR (i # is) f s = bindR (f i s) (forR is f)"

lemma forR_append: "forR (xs @ ys) f s = bindR (forR xs f s) (forR ys f)"
proof (induction xs arbitrary: s)
  case (Cons x xs)
  then show ?case by (cases "f x s") auto
qed simp

lemma okR_forR_upto:
  assumes "P 0 s" and "\<And>i s. i < n \<Longrightarrow> P i s \<Longrightarrow> okR (f i s) (P (Suc i))"
  shows "okR (forR [0..<n] f s) (P n)"
  using assms
proof (induction n)
  case (Suc n)
  then have "okR (forR [0..<n] f s) (P n)" by simp
  moreover have "okR (forR [n] f s') (P (Suc n))" if "P n s'" for s'
    using Suc.prems(2) [of n s'] that by (auto simp: okR_Ex)
  ultimately show ?case by (auto simp: forR_append intro: okR_mono)
qed simp

end
