(* ===== verification/Xv6_Riscv.thy ===== *)
theory Xv6_Riscv
  imports Xv6_Prelude
begin

text \<open>
  The machine constants and the address macros: \<^verbatim>\<open>kernel/riscv.h\<close> (pages, page table entries,
  the Sv39 index fields), \<^verbatim>\<open>kernel/memlayout.h\<close> (physical and virtual memory layout) and
  \<^verbatim>\<open>kernel/param.h\<close>.  The build is the one that \<^verbatim>\<open>conf/lab.mk\<close> selects (\<^verbatim>\<open>LAB=syscall\<close>, which makes
  the Makefile define \<^verbatim>\<open>LAB_SYSCALL\<close>); the lemmas about the allocator do not use its value, so they
  hold with and without the junk fills that it switches off.
\<close>

definition LAB_SYSCALL :: bool where
  "LAB_SYSCALL \<longleftrightarrow> True"

section \<open>Pages\<close>

abbreviation (input) PGSIZE :: u64 where
  "PGSIZE \<equiv> 4096"

abbreviation (input) PGSHIFT :: nat where
  "PGSHIFT \<equiv> 12"

definition PGROUNDUP :: "u64 \<Rightarrow> u64" where
  "PGROUNDUP sz = (sz + PGSIZE - 1) AND NOT (PGSIZE - 1)"

definition PGROUNDDOWN :: "u64 \<Rightarrow> u64" where
  "PGROUNDDOWN a = a AND NOT (PGSIZE - 1)"

section \<open>Page table entries\<close>

abbreviation (input) PTE_V :: u64 where
  "PTE_V \<equiv> 1"

abbreviation (input) PTE_R :: u64 where
  "PTE_R \<equiv> 2"

abbreviation (input) PTE_W :: u64 where
  "PTE_W \<equiv> 4"

abbreviation (input) PTE_X :: u64 where
  "PTE_X \<equiv> 8"

abbreviation (input) PTE_U :: u64 where
  "PTE_U \<equiv> 16"

definition PA2PTE :: "u64 \<Rightarrow> u64" where
  "PA2PTE pa = push_bit 10 (drop_bit 12 pa)"

definition PTE2PA :: "u64 \<Rightarrow> u64" where
  "PTE2PA pte = push_bit 12 (drop_bit 10 pte)"

definition PTE_FLAGS :: "u64 \<Rightarrow> u64" where
  "PTE_FLAGS pte = pte AND 0x3FF"

abbreviation (input) PXMASK :: u64 where
  "PXMASK \<equiv> 0x1FF"

definition PXSHIFT :: "nat \<Rightarrow> nat" where
  "PXSHIFT level = PGSHIFT + 9 * level"

definition PX :: "nat \<Rightarrow> u64 \<Rightarrow> u64" where
  "PX level va = drop_bit (PXSHIFT level) va AND PXMASK"

abbreviation (input) MAXVA :: u64 where
  "MAXVA \<equiv> 0x4000000000"

section \<open>Memory layout\<close>

abbreviation (input) KERNBASE :: u64 where
  "KERNBASE \<equiv> 0x80000000"

abbreviation (input) PHYSTOP :: u64 where
  "PHYSTOP \<equiv> 0x88000000"

abbreviation (input) TRAMPOLINE :: u64 where
  "TRAMPOLINE \<equiv> MAXVA - PGSIZE"

abbreviation (input) TRAPFRAME :: u64 where
  "TRAPFRAME \<equiv> TRAMPOLINE - PGSIZE"

definition KSTACK :: "u64 \<Rightarrow> u64" where
  "KSTACK p = TRAMPOLINE - (p + 1) * 2 * PGSIZE"

section \<open>Parameters\<close>

abbreviation (input) NPROC :: nat where
  "NPROC \<equiv> 64"

abbreviation (input) NCPU :: nat where
  "NCPU \<equiv> 8"

abbreviation (input) NOFILE :: nat where
  "NOFILE \<equiv> 16"

abbreviation (input) NFILE :: nat where
  "NFILE \<equiv> 100"

abbreviation (input) NINODE :: nat where
  "NINODE \<equiv> 50"

abbreviation (input) NDEV :: nat where
  "NDEV \<equiv> 10"

abbreviation (input) ROOTDEV :: u32 where
  "ROOTDEV \<equiv> 1"

abbreviation (input) MAXARG :: nat where
  "MAXARG \<equiv> 32"

abbreviation (input) MAXOPBLOCKS :: nat where
  "MAXOPBLOCKS \<equiv> 10"

abbreviation (input) LOGSIZE :: nat where
  "LOGSIZE \<equiv> 30"

abbreviation (input) NBUF :: nat where
  "NBUF \<equiv> 30"

abbreviation (input) FSSIZE :: nat where
  "FSSIZE \<equiv> 2000"

abbreviation (input) MAXPATH :: nat where
  "MAXPATH \<equiv> 128"

abbreviation (input) USERSTACK :: u64 where
  "USERSTACK \<equiv> 1"

section \<open>Rounding to pages\<close>

lemma and_not_low_bits:
  fixes a :: "'a::len word"
  shows "a AND NOT (mask n) = push_bit n (drop_bit n a)"
  by (rule bit_eqI) (auto simp: bit_simps)

lemma word_4095_mask: "(4095::u64) = mask 12"
  by (simp add: mask_eq_exp_minus_1)

lemma unat_push_drop: "unat (push_bit n (drop_bit n (a::u64))) = (unat a div 2 ^ n) * 2 ^ n"
proof (cases "n < 64")
  case True
  have "unat a div 2 ^ n * 2 ^ n \<le> unat a" by simp
  then have "unat a div 2 ^ n * 2 ^ n < 2 ^ 64"
    using unat_lt64 [of a] by linarith
  moreover have "unat (push_bit n (drop_bit n a)) = take_bit 64 (push_bit n (drop_bit n (unat a)))"
    by (simp add: unsigned_push_bit_eq unat_drop_bit_eq)
  ultimately show ?thesis
    by (simp add: push_bit_eq_mult drop_bit_eq_div take_bit_eq_mod)
next
  case False
  then have "unat a < 2 ^ n"
    by (meson unat_lt64 less_le_trans one_le_numeral power_increasing not_less)
  moreover have "push_bit n (drop_bit n a) = 0"
    using False by (intro bit_eqI) (auto simp: bit_simps)
  ultimately show ?thesis by simp
qed

lemma unat_PGROUNDDOWN [unat_simps]: "unat (PGROUNDDOWN a) = unat a div 4096 * 4096"
  using unat_push_drop [of 12 a]
  by (simp add: PGROUNDDOWN_def word_4095_mask and_not_low_bits)

lemma PGROUNDUP_down: "PGROUNDUP sz = PGROUNDDOWN (sz + 4095)"
proof -
  have "sz + 4096 - 1 = sz + 4095" by simp
  then show ?thesis by (simp only: PGROUNDUP_def PGROUNDDOWN_def)
qed

lemma unat_PGROUNDUP [unat_simps]:
  "unat sz + 4095 < 2 ^ 64 \<Longrightarrow> unat (PGROUNDUP sz) = (unat sz + 4095) div 4096 * 4096"
proof -
  assume small: "unat sz + 4095 < 2 ^ 64"
  then have "unat (sz + 4095) = unat sz + 4095"
    by (simp add: unat_word_ariths)
  then show ?thesis by (simp add: PGROUNDUP_down unat_PGROUNDDOWN)
qed

lemma nat_page_step:
  fixes x y :: nat
  assumes "x mod 4096 = 0" and "y mod 4096 = 0" and "x < y"
  shows "x + 4096 \<le> y"
proof -
  obtain i j where "x = 4096 * i" "y = 4096 * j" using assms by (auto simp: mod_eq_0_iff_dvd elim!: dvdE)
  then show ?thesis using assms(3) by simp
qed

lemma nat_roundup_least:
  fixes k q :: nat
  assumes "k \<le> q" and "q mod 4096 = 0"
  shows "(k + 4095) div 4096 * 4096 \<le> q"
proof -
  obtain j where j: "q = 4096 * j" using assms by (auto simp: mod_eq_0_iff_dvd elim!: dvdE)
  have "(k + 4095) div 4096 < Suc j"
    using assms(1) j by (intro less_mult_imp_div_less) simp
  then show ?thesis using j by simp
qed

lemma nat_roundup_ge: "k \<le> (k + 4095) div 4096 * 4096" for k :: nat
proof -
  have "(k + 4095) div 4096 * 4096 = k + 4095 - (k + 4095) mod 4096"
    by (simp add: minus_mod_eq_div_mult)
  moreover have "(k + 4095) mod 4096 < 4096" by simp
  ultimately show ?thesis by linarith
qed

definition page_aligned :: "u64 \<Rightarrow> bool" where
  "page_aligned a \<longleftrightarrow> unat a mod 4096 = 0"

lemma mod_PGSIZE: "a mod PGSIZE = 0 \<longleftrightarrow> page_aligned a"
  by (simp add: page_aligned_def word_unat_eq_iff unat_mod)

lemma page_aligned_PGROUNDDOWN [simp]: "page_aligned (PGROUNDDOWN a)"
  by (simp add: page_aligned_def unat_PGROUNDDOWN)

lemma page_aligned_PGROUNDUP [simp]: "page_aligned (PGROUNDUP a)"
  by (simp add: PGROUNDUP_down)

lemma unat_mod_4096_diff:
  assumes "page_aligned a" and "page_aligned b"
  shows "unat (b - a) mod 4096 = 0"
  using assms unat_lt64 [of a]
  by (auto simp: page_aligned_def unat_sub_if' mod_eq_0_iff_dvd)

lemma page_aligned_add:
  "page_aligned a \<Longrightarrow> page_aligned b \<Longrightarrow> page_aligned (a + b)"
  by (auto simp: page_aligned_def unat_plus_if' mod_eq_0_iff_dvd)

lemma page_aligned_diff:
  "page_aligned a \<Longrightarrow> page_aligned b \<Longrightarrow> page_aligned (b - a)"
  by (simp add: page_aligned_def [of "b - a"] unat_mod_4096_diff)

lemma page_aligned_PGSIZE [simp]: "page_aligned 4096" "page_aligned 0"
  by (simp_all add: page_aligned_def)

text \<open>Two different pages do not overlap, wherever one looks inside them.\<close>

lemma pages_apart:
  assumes "page_aligned a" and "page_aligned b" and "a \<noteq> b"
  shows "4096 \<le> unat (b - a)"
proof -
  have "unat (b - a) mod 4096 = 0" using assms by (simp add: unat_mod_4096_diff)
  moreover have "unat (b - a) \<noteq> 0" using assms by (simp add: unat_eq_0)
  ultimately show ?thesis by (metis mod_less not_le)
qed

lemma unat_page_offset_diff:
  assumes "4096 \<le> unat (y - x)" and "unat (y - x) + 4096 \<le> 2 ^ 64"
    and "i + la \<le> 4096" and "j < 4096"
  shows "la \<le> unat ((y + of_nat j) - (x + of_nat i :: u64))"
proof -
  have "unat (y - x + of_nat j) = unat (y - x) + j"
    using assms by (simp add: unat_word_ariths)
  then have "unat (y - x + of_nat j - of_nat i) = unat (y - x) + j - i"
    using assms by (simp add: unat_sub_if')
  moreover have eq: "y + of_nat j - (x + of_nat i) = y - x + of_nat j - of_nat i"
    by simp
  ultimately show ?thesis
    unfolding eq using assms by simp
qed

lemma disj_in_pages:
  assumes "page_aligned a" and "page_aligned b" and "a \<noteq> b"
    and "i + la \<le> 4096" and "j + lb \<le> 4096" and "0 < la" and "0 < lb"
  shows "disj (a + of_nat i) la (b + of_nat j) lb"
proof -
  have ab: "4096 \<le> unat (b - a)" and ba: "4096 \<le> unat (a - b)"
    using assms by (auto simp: pages_apart)
  have sum: "unat (a - b) + unat (b - a) = 2 ^ 64"
    using assms by (intro unat_minus_swap) simp
  have "la \<le> unat ((b + of_nat j) - (a + of_nat i))"
    using ab ba sum assms by (intro unat_page_offset_diff) auto
  moreover have "lb \<le> unat ((a + of_nat i) - (b + of_nat j))"
    using ab ba sum assms by (intro unat_page_offset_diff) auto
  ultimately show ?thesis by (simp add: disj_def)
qed

end
