(* ===== verification/Xv6_String.thy ===== *)
theory Xv6_String
  imports Xv6_Riscv
begin

text \<open>
  \<^verbatim>\<open>kernel/string.c\<close>: the byte and string routines, over the byte memory.  Every loop of the source
  is a recursive function on the number of iterations left; pointers are 64-bit addresses and
  pointer arithmetic wraps.  \<^verbatim>\<open>char\<close> is the machine byte; the result of a comparison is the
  mathematical difference of two unsigned bytes, which always fits the C \<^verbatim>\<open>int\<close>.
\<close>

section \<open>Definitions\<close>

primrec memset_from :: "bytemem \<Rightarrow> u64 \<Rightarrow> u8 \<Rightarrow> nat \<Rightarrow> nat \<Rightarrow> bytemem" where
  "memset_from m cdst c i 0 = m"
| "memset_from m cdst c i (Suc k) = memset_from (m(cdst + of_nat i := c)) cdst c (Suc i) k"

definition memset :: "bytemem \<Rightarrow> u64 \<Rightarrow> u32 \<Rightarrow> u32 \<Rightarrow> bytemem" where
  "memset m dst c n = memset_from m dst (ucast c) 0 (unat n)"

primrec memcmp_loop :: "bytemem \<Rightarrow> u64 \<Rightarrow> u64 \<Rightarrow> nat \<Rightarrow> int" where
  "memcmp_loop m s1 s2 0 = 0"
| "memcmp_loop m s1 s2 (Suc n) =
     (if m s1 \<noteq> m s2 then uint (m s1) - uint (m s2) else memcmp_loop m (s1 + 1) (s2 + 1) n)"

definition memcmp :: "bytemem \<Rightarrow> u64 \<Rightarrow> u64 \<Rightarrow> u32 \<Rightarrow> int" where
  "memcmp m v1 v2 n = memcmp_loop m v1 v2 (unat n)"

primrec copy_up :: "bytemem \<Rightarrow> u64 \<Rightarrow> u64 \<Rightarrow> nat \<Rightarrow> bytemem" where
  "copy_up m d s 0 = m"
| "copy_up m d s (Suc n) = copy_up (m(d := m s)) (d + 1) (s + 1) n"

primrec copy_down :: "bytemem \<Rightarrow> u64 \<Rightarrow> u64 \<Rightarrow> nat \<Rightarrow> bytemem" where
  "copy_down m d s 0 = m"
| "copy_down m d s (Suc n) = copy_down (m(d - 1 := m (s - 1))) (d - 1) (s - 1) n"

definition memmove :: "bytemem \<Rightarrow> u64 \<Rightarrow> u64 \<Rightarrow> u32 \<Rightarrow> bytemem" where
  "memmove m dst src n =
     (if n = 0 then m
      else if src < dst \<and> src + ucast n > dst
      then copy_down m (dst + ucast n) (src + ucast n) (unat n)
      else copy_up m dst src (unat n))"

definition memcpy :: "bytemem \<Rightarrow> u64 \<Rightarrow> u64 \<Rightarrow> u32 \<Rightarrow> bytemem" where
  "memcpy m dst src n = memmove m dst src n"

primrec strncmp_loop :: "bytemem \<Rightarrow> u64 \<Rightarrow> u64 \<Rightarrow> nat \<Rightarrow> int" where
  "strncmp_loop m p q 0 = 0"
| "strncmp_loop m p q (Suc n) =
     (if m p \<noteq> 0 \<and> m p = m q then strncmp_loop m (p + 1) (q + 1) n
      else uint (m p) - uint (m q))"

definition strncmp :: "bytemem \<Rightarrow> u64 \<Rightarrow> u64 \<Rightarrow> u32 \<Rightarrow> int" where
  "strncmp m p q n = strncmp_loop m p q (unat n)"

primrec strncpy_pad :: "bytemem \<Rightarrow> u64 \<Rightarrow> nat \<Rightarrow> bytemem" where
  "strncpy_pad m s 0 = m"
| "strncpy_pad m s (Suc n) = strncpy_pad (m(s := 0)) (s + 1) n"

primrec strncpy_copy :: "bytemem \<Rightarrow> u64 \<Rightarrow> u64 \<Rightarrow> nat \<Rightarrow> bytemem" where
  "strncpy_copy m s t 0 = m"
| "strncpy_copy m s t (Suc n) =
     (if m t \<noteq> 0 then strncpy_copy (m(s := m t)) (s + 1) (t + 1) n
      else strncpy_pad (m(s := m t)) (s + 1) n)"

definition strncpy :: "bytemem \<Rightarrow> u64 \<Rightarrow> u64 \<Rightarrow> int \<Rightarrow> bytemem" where
  "strncpy m s t n = strncpy_copy m s t (nat n)"

text \<open>The loop of \<^verbatim>\<open>safestrcpy\<close> runs at most \<open>n - 1\<close> times; \<^verbatim>\<open>*s = 0\<close> follows it.\<close>

primrec safestrcpy_loop :: "bytemem \<Rightarrow> u64 \<Rightarrow> u64 \<Rightarrow> nat \<Rightarrow> bytemem \<times> u64" where
  "safestrcpy_loop m s t 0 = (m, s)"
| "safestrcpy_loop m s t (Suc n) =
     (if m t \<noteq> 0 then safestrcpy_loop (m(s := m t)) (s + 1) (t + 1) n
      else (m(s := m t), s + 1))"

definition safestrcpy :: "bytemem \<Rightarrow> u64 \<Rightarrow> u64 \<Rightarrow> int \<Rightarrow> bytemem" where
  "safestrcpy m s t n =
     (if n \<le> 0 then m
      else let (m', s') = safestrcpy_loop m s t (nat (n - 1)) in m'(s' := 0))"

text \<open>\<^verbatim>\<open>strlen\<close> runs off the end of a string without a NUL: then it does not return.\<close>

partial_function (option) strlen_from :: "bytemem \<Rightarrow> u64 \<Rightarrow> nat \<Rightarrow> nat option" where
  "strlen_from m s n = (if m (s + of_nat n) \<noteq> 0 then strlen_from m s (Suc n) else Some n)"

definition strlen :: "bytemem \<Rightarrow> u64 \<Rightarrow> nat option" where
  "strlen m s = strlen_from m s 0"

section \<open>Writing a run of bytes one by one\<close>

lemma unat_diff_succ:
  assumes "x \<noteq> (a::u64)"
  shows "unat (x - a) = Suc (unat (x - (a + 1)))"
proof -
  have nz: "x - a \<noteq> 0" using assms by simp
  have "x - (a + 1) = x - a - 1" by simp
  then have "unat (x - (a + 1)) = unat (x - a) - 1"
    using unat_minus_one [OF nz] by (simp only:)
  moreover have "unat (x - a) \<noteq> 0" using nz by (simp add: unat_eq_0)
  ultimately show ?thesis by simp
qed

lemma write_bytes_Cons:
  assumes "length bs < 2 ^ 64"
  shows "write_bytes m a (b # bs) = write_bytes (m(a := b)) (a + 1) bs"
proof
  fix x
  show "write_bytes m a (b # bs) x = write_bytes (m(a := b)) (a + 1) bs x"
  proof (cases "x = a")
    case True
    have "unat (- 1 :: u64) = 2 ^ 64 - 1"
      by (simp add: unsigned_minus_1_eq_mask mask_eq_exp_minus_1)
    then show ?thesis using True assms by (simp add: write_bytes_def)
  next
    case False
    then have "unat (x - a) = Suc (unat (x - (a + 1)))" by (rule unat_diff_succ)
    then show ?thesis using False by (simp add: write_bytes_def)
  qed
qed

lemma write_bytes_snoc:
  assumes "length bs < 2 ^ 64"
  shows "write_bytes m a (bs @ [b]) = write_bytes (m(a + of_nat (length bs) := b)) a bs"
proof
  fix x
  have "unat (x - a) = length bs \<longleftrightarrow> x - a = of_nat (length bs)"
    using assms by (simp add: word_unat_eq_iff)
  also have "\<dots> \<longleftrightarrow> x = a + of_nat (length bs)"
    by (simp add: diff_eq_eq add.commute)
  finally show "write_bytes m a (bs @ [b]) x = write_bytes (m(a + of_nat (length bs) := b)) a bs x"
    by (auto simp: write_bytes_def nth_append)
qed

lemma read_bytes_Suc: "read_bytes m a (Suc n) = m a # read_bytes m (a + 1) n"
  by (simp add: read_bytes_def upt_conv_Cons comp_def add.assoc del: upt_Suc flip: map_Suc_upt)

lemma read_bytes_snoc: "read_bytes m a (Suc n) = read_bytes m a n @ [m (a + of_nat n)]"
  by (simp add: read_bytes_def)

lemma read_bytes_upd_outside:
  "n \<le> unat (x - a) \<Longrightarrow> read_bytes (m(x := b)) a n = read_bytes m a n"
proof (rule read_bytes_cong)
  fix i
  assume "n \<le> unat (x - a)" and "i < n"
  moreover have "unat (of_nat i :: u64) \<le> i" by (simp add: unat_of_nat take_bit_eq_mod)
  ultimately have "x \<noteq> a + of_nat i" by auto
  then show "(m(x := b)) (a + of_nat i) = m (a + of_nat i)" by simp
qed

section \<open>Correctness\<close>

lemma memset_from_eq:
  "k < 2 ^ 64 \<Longrightarrow> memset_from m d c i k = write_bytes m (d + of_nat i) (replicate k c)"
  by (induction k arbitrary: m i) (auto simp: write_bytes_Cons ac_simps)

lemma unat32_lt64: "unat (n::u32) < 2 ^ 64"
  by (rule less_trans [OF unsigned_less]) simp

lemma memset_eq: "memset m d c n = write_bytes m d (replicate (unat n) (ucast c))"
  using unat32_lt64 [of n] by (simp add: memset_def memset_from_eq)

lemma copy_up_eq:
  assumes "n < 2 ^ 64" and "d = s \<or> n \<le> unat (d - s)"
  shows "copy_up m d s n = write_bytes m d (read_bytes m s n)"
  using assms
proof (induction n arbitrary: m d s)
  case 0
  then show ?case by (simp add: read_bytes_def)
next
  case (Suc n)
  have rest: "read_bytes (m(d := m s)) (s + 1) n = read_bytes m (s + 1) n"
  proof (cases "d = s")
    case True
    then show ?thesis by simp
  next
    case False
    then have "unat (d - (s + 1)) = unat (d - s) - 1" by (simp add: unat_diff_succ [of d s])
    then show ?thesis using Suc.prems False by (intro read_bytes_upd_outside) auto
  qed
  have "copy_up (m(d := m s)) (d + 1) (s + 1) n =
      write_bytes (m(d := m s)) (d + 1) (read_bytes (m(d := m s)) (s + 1) n)"
    using Suc.prems by (intro Suc.IH) auto
  then show ?case
    using Suc.prems rest by (simp add: read_bytes_Suc write_bytes_Cons)
qed

lemma copy_down_eq:
  assumes "n < 2 ^ 64" and "d = s \<or> n \<le> unat (s - d)"
  shows "copy_down m (d + of_nat n) (s + of_nat n) n = write_bytes m d (read_bytes m s n)"
  using assms
proof (induction n arbitrary: m)
  case 0
  then show ?case by (simp add: read_bytes_def)
next
  case (Suc n)
  let ?m = "m(d + of_nat n := m (s + of_nat n))"
  have rest: "read_bytes ?m s n = read_bytes m s n"
  proof (cases "d = s")
    case True
    then show ?thesis by simp
  next
    case False
    then have "unat (d - s) + unat (s - d) = 2 ^ 64" by (simp add: unat_minus_swap)
    then have "unat (d - s) + n < 2 ^ 64" using Suc.prems False by auto
    then have "unat (d - s + of_nat n) = unat (d - s) + n"
      by (simp add: unat_word_ariths)
    moreover have "d + of_nat n - s = d - s + of_nat n" by simp
    ultimately have "unat (d + of_nat n - s) = unat (d - s) + n" by (simp only:)
    then show ?thesis by (intro read_bytes_upd_outside) simp
  qed
  have "copy_down ?m (d + of_nat n) (s + of_nat n) n = write_bytes ?m d (read_bytes ?m s n)"
    using Suc.prems by (intro Suc.IH) auto
  moreover have "x + of_nat (Suc n) - 1 = x + of_nat n" for x :: u64 by simp
  ultimately show ?case
    using Suc.prems rest by (simp only: copy_down.simps read_bytes_snoc write_bytes_snoc
        length_read_bytes Suc_lessD)
qed

lemma unat_ucast_u32 [simp]: "unat (ucast (n::u32) :: u64) = unat n"
  using unat32_lt64 [of n] by (simp add: unsigned_ucast_eq take_bit_nat_eq_self)

lemma of_nat_unat_u32: "(of_nat (unat (n::u32)) :: u64) = ucast n"
  by (simp add: word_unat_eq_iff unat32_lt64 del: unsigned_of_nat)

text \<open>
  C37: \<^verbatim>\<open>memmove\<close> copies the \<open>n\<close> source bytes as they were before the call, whether the two ranges
  overlap or not and whichever comes first, and changes no other byte, for ranges that do not run
  past the end of the address space.
\<close>

theorem memmove_correct:
  assumes "unat dst + unat n \<le> 2 ^ 64" and "unat src + unat n < 2 ^ 64"
  shows "memmove m dst src n = write_bytes m dst (read_bytes m src (unat n))"
proof (cases "src < dst \<and> src + ucast n > dst")
  case True
  have "unat (src + ucast n) = unat src + unat n"
    using assms by (simp add: unat_word_ariths)
  then have "unat dst - unat src < unat n" "unat src < unat dst"
    using True by (auto simp: word_less_nat_alt)
  then have "unat n \<le> unat (src - dst)"
    using assms by (simp add: unat_sub_if')
  then show ?thesis
    using True copy_down_eq [of "unat n" dst src m] unat32_lt64 [of n]
    by (auto simp: memmove_def of_nat_unat_u32)
next
  case False
  have "unat (src + ucast n) = unat src + unat n"
    using assms by (simp add: unat_word_ariths)
  then have "unat dst \<le> unat src \<or> unat src + unat n \<le> unat dst"
    using False by (auto simp: word_less_nat_alt)
  then have "dst = src \<or> unat n \<le> unat (dst - src)"
    using assms by (auto simp: unat_sub_if' word_unat_eq_iff)
  then show ?thesis
    using False copy_up_eq [of "unat n" dst src m] unat32_lt64 [of n]
    by (auto simp: memmove_def read_bytes_def)
qed

theorem memmove_correct_witness:
  "memmove ((\<lambda>_. 0)(1 := 10, 2 := 20, 3 := 30)) 2 1 3 =
     write_bytes ((\<lambda>_. 0)(1 := 10, 2 := 20, 3 := 30)) 2 [10, 20, 30]"
  using memmove_correct [of 2 3 1 "(\<lambda>_. 0)(1 := 10, 2 := 20, 3 := 30)"]
  by (simp add: read_bytes_def upt_rec numeral_2_eq_2 [symmetric])

lemma strncmp_loop_zero:
  "strncmp_loop m p q n = 0 \<longleftrightarrow>
     takeWhile (\<lambda>b. b \<noteq> 0) (read_bytes m p n) = takeWhile (\<lambda>b. b \<noteq> 0) (read_bytes m q n)"
proof (induction n arbitrary: p q)
  case 0
  then show ?case by (simp add: read_bytes_def)
next
  case (Suc n)
  have "uint (m p) = uint (m q) \<longleftrightarrow> m p = m q" by (simp add: word_uint_eq_iff)
  then show ?case using Suc.IH by (auto simp: read_bytes_Suc)
qed

text \<open>
  C38: \<^verbatim>\<open>strncmp\<close> answers 0 exactly when the two strings agree up to their NUL or up to \<open>n\<close> bytes.
\<close>

theorem strncmp_zero_iff:
  "strncmp m p q n = 0 \<longleftrightarrow>
     takeWhile (\<lambda>b. b \<noteq> 0) (read_bytes m p (unat n)) =
     takeWhile (\<lambda>b. b \<noteq> 0) (read_bytes m q (unat n))"
  by (simp add: strncmp_def strncmp_loop_zero)

lemma strncpy_pad_eq:
  "n < 2 ^ 64 \<Longrightarrow> strncpy_pad m s n = write_bytes m s (replicate n 0)"
  by (induction n arbitrary: m s) (auto simp: write_bytes_Cons)

definition cstr :: "u8 list \<Rightarrow> u8 list" where
  "cstr bs = takeWhile (\<lambda>b. b \<noteq> 0) bs"

lemma cstr_Cons: "cstr (b # bs) = (if b = 0 then [] else b # cstr bs)"
  by (simp add: cstr_def)

lemma length_cstr: "length (cstr bs) \<le> length bs"
  by (simp add: cstr_def length_takeWhile_le)

lemma source_stays:
  assumes "disj t (Suc n) s (Suc n)" and "n < 2 ^ 64"
  shows "read_bytes (m(s := b)) (t + 1) n = read_bytes m (t + 1) n"
    and "n = 0 \<or> disj (t + 1) n (s + 1) n"
proof -
  have ne: "s \<noteq> t" using assms by (auto simp: disj_def)
  have "unat (s - (t + 1)) = unat (s - t) - 1"
    using unat_diff_succ [OF ne] by simp
  then show "read_bytes (m(s := b)) (t + 1) n = read_bytes m (t + 1) n"
    using assms by (intro read_bytes_upd_outside) (auto simp: disj_def)
  show "n = 0 \<or> disj (t + 1) n (s + 1) n"
    using assms by (auto simp: disj_def)
qed

lemma strncpy_copy_eq:
  assumes "n < 2 ^ 64" and "n = 0 \<or> disj t n s n"
  shows "strncpy_copy m s t n =
    write_bytes m s (cstr (read_bytes m t n) @ replicate (n - length (cstr (read_bytes m t n))) 0)"
  using assms
proof (induction n arbitrary: m s t)
  case 0
  then show ?case by (simp add: read_bytes_def cstr_def)
next
  case (Suc n)
  let ?rest = "read_bytes m (t + 1) n"
  have d: "disj t (Suc n) s (Suc n)" and n: "n < 2 ^ 64" using Suc.prems by auto
  note st = source_stays [OF d n]
  have len: "length (cstr ?rest) \<le> n" using length_cstr [of ?rest] by simp
  show ?case
  proof (cases "m t = 0")
    case True
    then show ?thesis
      using n by (simp add: read_bytes_Suc cstr_Cons strncpy_pad_eq write_bytes_Cons)
  next
    case False
    have "strncpy_copy (m(s := m t)) (s + 1) (t + 1) n =
       write_bytes (m(s := m t)) (s + 1) (cstr ?rest @ replicate (n - length (cstr ?rest)) 0)"
      using Suc.IH [OF n st(2), of "m(s := m t)"] unfolding st(1) .
    then show ?thesis
      using False len n by (simp add: read_bytes_Suc cstr_Cons write_bytes_Cons)
  qed
qed

text \<open>
  \<^verbatim>\<open>strncpy\<close> fills exactly \<open>n\<close> bytes: the source string up to its NUL or \<open>n\<close> bytes, then
  zeros (so no NUL when the source has \<open>n\<close> bytes or more).
\<close>

theorem strncpy_correct:
  assumes "0 < n" and "n < 2 ^ 31" and "disj t (nat n) s (nat n)"
  shows "strncpy m s t n =
    write_bytes m s (cstr (read_bytes m t (nat n)) @
      replicate (nat n - length (cstr (read_bytes m t (nat n)))) 0)"
proof -
  have "nat n < 2 ^ 64" using assms by simp
  then show ?thesis using assms by (simp add: strncpy_def strncpy_copy_eq)
qed

theorem strncpy_correct_witness:
  "strncpy ((\<lambda>_. 7)(100 := 65, 101 := 0)) 0 100 4 =
     write_bytes ((\<lambda>_. 7)(100 := 65, 101 := 0)) 0 [65, 0, 0, 0]"
  using strncpy_correct [of 4 100 0 "(\<lambda>_. 7)(100 := 65, 101 := 0)"]
  by (simp add: disj_def read_bytes_def upt_rec cstr_def numeral_3_eq_3)

lemma safestrcpy_loop_eq:
  assumes "n < 2 ^ 64" and "n = 0 \<or> disj t n s n"
  shows "(case safestrcpy_loop m s t n of (m', s') \<Rightarrow> m'(s' := 0)) =
    write_bytes m s (cstr (read_bytes m t n) @
      (if length (cstr (read_bytes m t n)) < n then [0, 0] else [0]))"
  using assms
proof (induction n arbitrary: m s t)
  case 0
  then show ?case by (simp add: read_bytes_def cstr_def write_bytes_Cons)
next
  case (Suc n)
  let ?rest = "read_bytes m (t + 1) n"
  have d: "disj t (Suc n) s (Suc n)" and n: "n < 2 ^ 64" using Suc.prems by auto
  note st = source_stays [OF d n]
  have len: "length (cstr ?rest) \<le> n" using length_cstr [of ?rest] by simp
  show ?case
  proof (cases "m t = 0")
    case True
    then show ?thesis
      using n by (simp add: read_bytes_Suc cstr_Cons write_bytes_Cons)
  next
    case False
    have "(case safestrcpy_loop (m(s := m t)) (s + 1) (t + 1) n of (m', s') \<Rightarrow> m'(s' := 0)) =
       write_bytes (m(s := m t)) (s + 1)
         (cstr ?rest @ (if length (cstr ?rest) < n then [0, 0] else [0]))"
      using Suc.IH [OF n st(2), of "m(s := m t)"] unfolding st(1) .
    then show ?thesis
      using False len n Suc.prems
      by (simp add: read_bytes_Suc cstr_Cons write_bytes_Cons del: fun_upd_apply)
  qed
qed

text \<open>
  C40: \<^verbatim>\<open>safestrcpy\<close> leaves a NUL-terminated string: the source cut to \<open>n - 1\<close> bytes, one NUL after
  it, and nothing outside the \<open>n\<close> bytes of the destination is written.
\<close>

theorem safestrcpy_correct:
  assumes "0 < n" and "n < 2 ^ 31" and "n = 1 \<or> disj t (nat (n - 1)) s (nat (n - 1))"
  shows "\<exists>tail. safestrcpy m s t n =
             write_bytes m s (cstr (read_bytes m t (nat (n - 1))) @ [0] @ tail) \<and>
           length (cstr (read_bytes m t (nat (n - 1))) @ [0] @ tail) \<le> nat n"
proof -
  define str where "str = cstr (read_bytes m t (nat (n - 1)))"
  have "nat (n - 1) < 2 ^ 64" using assms by simp
  moreover have "nat (n - 1) = 0 \<or> disj t (nat (n - 1)) s (nat (n - 1))"
    using assms by auto
  ultimately have eq: "safestrcpy m s t n =
      write_bytes m s (str @ (if length str < nat (n - 1) then [0, 0] else [0]))"
    using assms(1) safestrcpy_loop_eq [of "nat (n - 1)" t s m]
    by (simp add: safestrcpy_def str_def case_prod_unfold Let_def)
  have len: "length str \<le> nat (n - 1)"
    unfolding str_def using length_cstr [of "read_bytes m t (nat (n - 1))"] by simp
  have "\<exists>tail. safestrcpy m s t n = write_bytes m s (str @ [0] @ tail) \<and>
      length (str @ [0] @ tail) \<le> nat n"
  proof (cases "length str < nat (n - 1)")
    case True
    then show ?thesis using eq assms(1) by (intro exI [of _ "[0]"]) auto
  next
    case False
    then show ?thesis using eq len assms(1) by (intro exI [of _ "[]"]) auto
  qed
  then show ?thesis by (simp only: str_def)
qed

theorem safestrcpy_correct_witness:
  "\<exists>tail. safestrcpy ((\<lambda>_. 7)(100 := 65, 101 := 66)) 0 100 3 =
     write_bytes ((\<lambda>_. 7)(100 := 65, 101 := 66)) 0 ([65, 66] @ [0] @ tail) \<and>
     length ([65, 66 :: u8] @ [0] @ tail) \<le> nat 3"
  using safestrcpy_correct [of 3 100 0 "(\<lambda>_. 7)(100 := 65, 101 := 66)"]
  by (simp add: disj_def read_bytes_def upt_rec cstr_def)

lemma strlen_from_eq:
  assumes "\<And>i. i < k \<Longrightarrow> m (s + of_nat (n + i)) \<noteq> 0" and "m (s + of_nat (n + k)) = 0"
  shows "strlen_from m s n = Some (n + k)"
  using assms
proof (induction k arbitrary: n)
  case 0
  then show ?case by (subst strlen_from.simps) simp
next
  case (Suc k)
  have "m (s + of_nat n) \<noteq> 0" using Suc.prems(1) [of 0] by simp
  moreover have "strlen_from m s (Suc n) = Some (Suc n + k)"
    using Suc.prems(1) [of "Suc i" for i] Suc.prems(2) by (intro Suc.IH) auto
  ultimately show ?case by (subst strlen_from.simps) simp
qed

lemma strlen_eq:
  assumes "\<And>i. i < k \<Longrightarrow> m (s + of_nat i) \<noteq> 0" and "m (s + of_nat k) = 0"
  shows "strlen m s = Some k"
  using strlen_from_eq [of k m s 0] assms by (simp add: strlen_def)

end
