(* ===== verification/Xv6_Kalloc.thy ===== *)
theory Xv6_Kalloc
  imports Xv6_String
begin

text \<open>
  \<^verbatim>\<open>kernel/kalloc.c\<close>: the physical page allocator.  The state holds physical memory and the head of
  the free list; \<^verbatim>\<open>struct run\<close> lives in the free pages themselves, so \<^verbatim>\<open>r->next\<close> is the 64-bit word at
  the start of page \<open>r\<close>.  \<open>kend\<close> is the address of the linker symbol \<^verbatim>\<open>end\<close>.  Each operation is
  one critical section of \<^verbatim>\<open>kmem.lock\<close>.

  The contract of the allocator is the locale \<open>page_allocator\<close>: over a representation of the free
  pages as a list, \<^verbatim>\<open>kalloc\<close> pops and \<^verbatim>\<open>kfree\<close> pushes.  The interpretation at the end discharges it
  for the linked list in memory.
\<close>

record kmem =
  mem :: bytemem
  freelist :: u64
  kend :: u64

section \<open>Operations\<close>

definition kfree :: "kmem \<Rightarrow> u64 \<Rightarrow> kmem res" where
  "kfree s pa =
     (if pa mod PGSIZE \<noteq> 0 \<or> pa < kend s \<or> pa \<ge> PHYSTOP then Panic ''kfree''
      else
        let m = (if LAB_SYSCALL then mem s else memset (mem s) pa 1 4096)
        in Ok (s\<lparr>mem := store64 m pa (freelist s), freelist := pa\<rparr>))"

definition kalloc :: "kmem \<Rightarrow> u64 \<times> kmem" where
  "kalloc s =
     (let r = freelist s;
          s1 = (if r \<noteq> 0 then s\<lparr>freelist := load64 (mem s) r\<rparr> else s);
          s2 = (if \<not> LAB_SYSCALL \<and> r \<noteq> 0 then s1\<lparr>mem := memset (mem s1) r 5 4096\<rparr> else s1)
      in (r, s2))"

text \<open>
  The loop of \<^verbatim>\<open>freerange\<close> ends because \<^verbatim>\<open>kfree\<close> panics on an address at or above \<^verbatim>\<open>PHYSTOP\<close>.
\<close>

function freerange_from :: "kmem \<Rightarrow> u64 \<Rightarrow> u64 \<Rightarrow> kmem res" where
  "freerange_from s p pa_end =
     (if p + PGSIZE \<le> pa_end
      then bindR (kfree s p) (\<lambda>s'. freerange_from s' (p + PGSIZE) pa_end)
      else Ok s)"
  by pat_completeness auto
termination
proof (relation "measure (\<lambda>(s, p, e). unat PHYSTOP - unat p)", goal_cases)
  case 1
  show ?case by simp
next
  case (2 s p pa_end s')
  then have "p < PHYSTOP" by (auto simp: kfree_def Let_def split: if_splits)
  then have lt: "unat p < 0x88000000" by (simp add: word_less_nat_alt)
  then have "unat (p + PGSIZE) = unat p + 4096" by (simp add: unat_word_ariths)
  then show ?case using lt by simp
qed

declare freerange_from.simps [simp del]

definition freerange :: "kmem \<Rightarrow> u64 \<Rightarrow> u64 \<Rightarrow> kmem res" where
  "freerange s pa_start pa_end = freerange_from s (PGROUNDUP pa_start) pa_end"

definition kinit :: "kmem \<Rightarrow> kmem res" where
  "kinit s = freerange s (kend s) PHYSTOP"

text \<open>
  \<^verbatim>\<open>kcollect_free\<close> walks the free list; on a list that is not NULL-terminated it does not return.
\<close>

partial_function (option) count_runs :: "bytemem \<Rightarrow> u64 \<Rightarrow> u64 \<Rightarrow> u64 option" where
  "count_runs m r count = (if r \<noteq> 0 then count_runs m (load64 m r) (count + 1) else Some count)"

definition kcollect_free :: "kmem \<Rightarrow> u64 option" where
  "kcollect_free s = map_option (\<lambda>count. count * PGSIZE) (count_runs (mem s) (freelist s) 0)"

section \<open>The free list as a list of pages\<close>

primrec run_list :: "bytemem \<Rightarrow> u64 \<Rightarrow> u64 list \<Rightarrow> bool" where
  "run_list m r [] \<longleftrightarrow> r = 0"
| "run_list m r (x # xs) \<longleftrightarrow> r = x \<and> x \<noteq> 0 \<and> run_list m (load64 m x) xs"

definition page_ok :: "kmem \<Rightarrow> u64 \<Rightarrow> bool" where
  "page_ok s p \<longleftrightarrow> page_aligned p \<and> kend s \<le> p \<and> p < PHYSTOP"

definition free_pages :: "kmem \<Rightarrow> u64 list \<Rightarrow> bool" where
  "free_pages s xs \<longleftrightarrow>
     0 < kend s \<and> run_list (mem s) (freelist s) xs \<and> distinct xs \<and> (\<forall>x \<in> set xs. page_ok s x)"

lemma run_list_cong:
  "(\<And>x. x \<in> set xs \<Longrightarrow> load64 m x = load64 m' x) \<Longrightarrow> run_list m r xs = run_list m' r xs"
  by (induction xs arbitrary: r) auto

lemma run_list_unique: "run_list m r xs \<Longrightarrow> run_list m r ys \<Longrightarrow> xs = ys"
proof (induction xs arbitrary: r ys)
  case Nil
  then show ?case by (cases ys) auto
next
  case (Cons x xs)
  then show ?case by (cases ys) auto
qed

lemma disj_pages8:
  assumes "page_aligned a" and "page_aligned b" and "a \<noteq> b" and "0 < n" and "n \<le> 4096"
  shows "disj a n b 8"
  using disj_in_pages [of a b 0 n 0 8] assms by simp

lemma kfree_Ok_iff: "(\<exists>s'. kfree s pa = Ok s') \<longleftrightarrow> page_ok s pa"
  by (auto simp: kfree_def page_ok_def mod_PGSIZE Let_def)

lemma kfree_panics: "\<not> page_ok s pa \<Longrightarrow> kfree s pa = Panic ''kfree''"
  by (auto simp: kfree_def page_ok_def mod_PGSIZE Let_def)

lemma kfree_fields:
  "kfree s pa = Ok s' \<Longrightarrow> kend s' = kend s \<and> freelist s' = pa \<and> load64 (mem s') pa = freelist s"
  by (auto simp: kfree_def Let_def split: if_splits)

lemma kfree_frame:
  "kfree s pa = Ok s' \<Longrightarrow> 4096 \<le> unat (x - pa) \<Longrightarrow> mem s' x = mem s x"
  by (auto simp: kfree_def Let_def store64_outside memset_eq write_bytes_def split: if_splits)

lemma kalloc_fields:
  "kalloc s = (r, s') \<Longrightarrow> r = freelist s \<and> kend s' = kend s \<and>
     freelist s' = (if r = 0 then 0 else load64 (mem s) r)"
  by (auto simp: kalloc_def Let_def split: if_splits)

lemma kalloc_frame:
  "kalloc s = (r, s') \<Longrightarrow> r = 0 \<or> 4096 \<le> unat (x - r) \<Longrightarrow> mem s' x = mem s x"
  by (auto simp: kalloc_def Let_def memset_eq write_bytes_def split: if_splits)

lemma page_ok_kend: "kend s' = kend s \<Longrightarrow> page_ok s' = page_ok s"
  by (rule ext) (simp add: page_ok_def)

lemma page_frame_load:
  assumes "\<And>y. 4096 \<le> unat (y - p) \<Longrightarrow> m' y = m y"
    and "page_aligned p" and "page_aligned x" and "x \<noteq> p" and "j + 8 \<le> 4096"
  shows "load64 m' (x + of_nat j) = load64 m (x + of_nat j)"
proof -
  have "disj (p + of_nat 0) 4096 (x + of_nat j) 8"
    using assms by (intro disj_in_pages) auto
  then have "disj p 4096 (x + of_nat j) 8" by simp
  then have "read_bytes m' (x + of_nat j) 8 = read_bytes m (x + of_nat j) 8"
    using assms(1) by (intro read_bytes_cong) (auto dest: disj_outside)
  then show ?thesis by (simp add: load64_def)
qed

lemma kfree_pages:
  assumes "free_pages s xs" and "page_ok s p" and "p \<notin> set xs"
  shows "okR (kfree s p) (\<lambda>s'. free_pages s' (p # xs))"
proof -
  obtain s' where s': "kfree s p = Ok s'" using assms(2) kfree_Ok_iff by blast
  note f = kfree_fields [OF s']
  have "load64 (mem s') x = load64 (mem s) x" if "x \<in> set xs" for x
    using page_frame_load [of p "mem s'" "mem s" x 0] kfree_frame [OF s'] assms that
    by (auto simp: free_pages_def page_ok_def)
  then have "run_list (mem s') (freelist s) xs"
    using assms(1) run_list_cong [of xs "mem s'" "mem s"] by (simp add: free_pages_def)
  moreover have "p \<noteq> 0" using assms by (auto simp: free_pages_def page_ok_def word_less_nat_alt word_le_nat_alt)
  moreover have "page_ok s' = page_ok s" using f by (intro page_ok_kend) simp
  ultimately show ?thesis
    using s' f assms by (auto simp: free_pages_def)
qed

lemma kalloc_pages:
  assumes "free_pages s (x # xs)" and "kalloc s = (r, s')"
  shows "r = x \<and> free_pages s' xs"
proof -
  note f = kalloc_fields [OF assms(2)]
  have r: "r = x" using f assms by (simp add: free_pages_def)
  have "load64 (mem s') y = load64 (mem s) y" if "y \<in> set xs" for y
    using page_frame_load [of x "mem s'" "mem s" y 0] kalloc_frame [OF assms(2)] assms(1) that r
    by (auto simp: free_pages_def page_ok_def)
  then have "run_list (mem s') (load64 (mem s) x) xs"
    using assms(1) run_list_cong [of xs "mem s'" "mem s"] by (simp add: free_pages_def)
  moreover have "page_ok s' = page_ok s" using f by (intro page_ok_kend) simp
  ultimately show ?thesis
    using r f assms(1) by (auto simp: free_pages_def)
qed

lemma kalloc_none:
  assumes "free_pages s []"
  shows "kalloc s = (0, s)"
  using assms by (simp add: kalloc_def free_pages_def Let_def)

lemma free_pages_nonzero: "free_pages s xs \<Longrightarrow> x \<in> set xs \<Longrightarrow> x \<noteq> 0"
  by (auto simp: free_pages_def page_ok_def word_less_nat_alt word_le_nat_alt)

section \<open>The contract of a page allocator\<close>

locale page_allocator =
  fixes alloc :: "'s \<Rightarrow> u64 \<times> 's"
    and free :: "'s \<Rightarrow> u64 \<Rightarrow> 's res"
    and pages :: "'s \<Rightarrow> u64 list \<Rightarrow> bool"
    and valid :: "'s \<Rightarrow> u64 \<Rightarrow> bool"
  assumes alloc_pop: "pages s (x # xs) \<Longrightarrow> alloc s = (r, s') \<Longrightarrow> r = x \<and> pages s' xs"
    and alloc_empty: "pages s [] \<Longrightarrow> alloc s = (0, s)"
    and free_push: "pages s xs \<Longrightarrow> valid s p \<Longrightarrow> p \<notin> set xs \<Longrightarrow>
      okR (free s p) (\<lambda>s'. pages s' (p # xs))"
    and pages_distinct: "pages s xs \<Longrightarrow> distinct xs"
    and pages_valid: "pages s xs \<Longrightarrow> x \<in> set xs \<Longrightarrow> x \<noteq> 0 \<and> valid s x"
    and valid_alloc: "alloc s = (r, s') \<Longrightarrow> valid s' = valid s"
begin

lemma alloc_fresh:
  assumes "pages s xs" and "alloc s = (r, s')" and "r \<noteq> 0"
  shows "\<exists>ys. xs = r # ys \<and> pages s' ys \<and> r \<notin> set ys \<and> valid s r"
proof (cases xs)
  case Nil
  then show ?thesis using assms alloc_empty [of s] by simp
next
  case (Cons x ys)
  then have "r = x" "pages s' ys" using assms alloc_pop by auto
  then show ?thesis using Cons assms pages_distinct pages_valid by fastforce
qed

lemma alloc_fails:
  assumes "pages s xs" and "alloc s = (0, s')"
  shows "xs = [] \<and> s' = s"
proof (cases xs)
  case Nil
  then show ?thesis using assms alloc_empty [of s] by simp
next
  case (Cons x ys)
  then have "x = 0" using assms alloc_pop by fastforce
  then show ?thesis using Cons assms pages_valid by force
qed

lemma alloc_free:
  assumes "pages s xs" and "alloc s = (r, s')" and "r \<noteq> 0"
  shows "okR (free s' r) (\<lambda>s''. pages s'' xs)"
proof -
  obtain ys where "xs = r # ys" "pages s' ys" "r \<notin> set ys" "valid s r"
    using alloc_fresh [OF assms] by blast
  then show ?thesis using free_push [of s' ys r] valid_alloc [OF assms(2)] by simp
qed

end

interpretation kalloc_alloc: page_allocator kalloc kfree free_pages page_ok
proof unfold_locales
  show "r = x \<and> free_pages s' xs" if "free_pages s (x # xs)" "kalloc s = (r, s')" for s x xs r s'
    using that by (rule kalloc_pages)
  show "kalloc s = (0, s)" if "free_pages s []" for s
    using that by (rule kalloc_none)
  show "okR (kfree s p) (\<lambda>s'. free_pages s' (p # xs))"
    if "free_pages s xs" "page_ok s p" "p \<notin> set xs" for s xs p
    using that by (rule kfree_pages)
  show "distinct xs" if "free_pages s xs" for s xs
    using that by (simp add: free_pages_def)
  show "x \<noteq> 0 \<and> page_ok s x" if "free_pages s xs" "x \<in> set xs" for s xs x
    using that free_pages_nonzero by (auto simp: free_pages_def)
  show "page_ok s' = page_ok s" if "kalloc s = (r, s')" for s r s'
    using kalloc_fields [OF that] by (intro page_ok_kend) simp
qed

section \<open>Properties\<close>

text \<open>
  C29: \<^verbatim>\<open>kalloc\<close> returns 0, changing nothing, exactly when no page is free; otherwise it takes one page
  off the free list, a valid page that is not on the list any more, and writes no byte outside it.
\<close>

theorem kalloc_correct:
  assumes "free_pages s xs" and "kalloc s = (r, s')"
  shows "(r = 0 \<and> xs = [] \<and> s' = s) \<or>
    (\<exists>ys. xs = r # ys \<and> free_pages s' ys \<and> r \<notin> set ys \<and> page_ok s r \<and>
       (\<forall>x. mem s' x = mem s x \<or> unat (x - r) < 4096))"
proof (cases "r = 0")
  case True
  then show ?thesis using kalloc_alloc.alloc_fails [of s xs s'] assms by simp
next
  case False
  then show ?thesis
    using kalloc_alloc.alloc_fresh [OF assms False] kalloc_frame [OF assms(2)]
    by (metis not_le)
qed

definition kmem_two :: kmem where
  "kmem_two = \<lparr>mem = store64 (\<lambda>_. 0) 0x80008000 0x80009000, freelist = 0x80008000, kend = 0x80001234\<rparr>"

lemma kmem_two_load: "load64 (mem kmem_two) 0x80009000 = 0"
proof -
  have "load64 (mem kmem_two) 0x80009000 = load64 (\<lambda>_. 0) 0x80009000"
    by (simp add: kmem_two_def load_store_disj disj_def)
  then show ?thesis by (simp add: load64_def read_bytes_def upt_rec)
qed

lemma kmem_two_pages: "free_pages kmem_two [0x80008000, 0x80009000]"
  using kmem_two_load
  by (simp add: free_pages_def page_ok_def page_aligned_def) (simp add: kmem_two_def)

theorem kalloc_correct_witness:
  "free_pages (snd (kalloc kmem_two)) [0x80009000] \<and> fst (kalloc kmem_two) = 0x80008000"
  using kalloc_correct [OF kmem_two_pages, of "fst (kalloc kmem_two)" "snd (kalloc kmem_two)"]
  by auto

text \<open>
  C30: A page that was allocated and is then freed puts the allocator back: \<^verbatim>\<open>kfree\<close> accepts it and the
  free pages are again the ones there were before \<^verbatim>\<open>kalloc\<close>, in the same order.
\<close>

theorem kalloc_kfree_restores:
  assumes "free_pages s xs" and "kalloc s = (r, s')" and "r \<noteq> 0"
  shows "okR (kfree s' r) (\<lambda>s''. free_pages s'' xs)"
  using assms by (rule kalloc_alloc.alloc_free)

theorem kalloc_kfree_restores_witness:
  "okR (kfree (snd (kalloc kmem_two)) 0x80008000)
     (\<lambda>s''. free_pages s'' [0x80008000, 0x80009000])"
proof -
  have "kalloc kmem_two = (0x80008000, snd (kalloc kmem_two))"
    by (simp add: kalloc_def kmem_two_def Let_def)
  then show ?thesis
    using kalloc_kfree_restores [OF kmem_two_pages, of "0x80008000"] by fastforce
qed


lemma page_ok_step:
  assumes "page_aligned p" and "kend s \<le> p" and "p < PHYSTOP"
  shows "{q. page_ok s q \<and> q < p + PGSIZE} = insert p {q. page_ok s q \<and> q < p}"
proof -
  have p: "unat (p + PGSIZE) = unat p + 4096"
    using assms(3) by (simp add: unat_word_ariths word_less_nat_alt)
  have "q = p" if "page_aligned q" "unat q < unat p + 4096" "\<not> unat q < unat p" for q
  proof (rule ccontr)
    assume "q \<noteq> p"
    then have "4096 \<le> unat (q - p)" using that assms by (intro pages_apart) auto
    moreover have "unat (q - p) = unat q - unat p" using that by (simp add: unat_sub_if')
    ultimately show False using that by simp
  qed
  then show ?thesis
    using assms by (auto simp: page_ok_def word_less_nat_alt p)
qed

lemma PHYSTOP_step:
  assumes "page_aligned p" and "p \<le> PHYSTOP"
  shows "p + PGSIZE \<le> PHYSTOP \<longleftrightarrow> p < PHYSTOP"
proof -
  have p: "unat (p + PGSIZE) = unat p + 4096"
    using assms(2) by (simp add: unat_word_ariths word_le_nat_alt)
  have "unat p mod 4096 = 0" using assms(1) by (simp add: page_aligned_def)
  then have "unat p + 4096 \<le> 0x88000000 \<longleftrightarrow> unat p < 0x88000000"
    using nat_page_step [of "unat p" "0x88000000"] by auto
  then show ?thesis by (simp add: word_le_nat_alt word_less_nat_alt p)
qed

lemma freerange_from_pages:
  assumes "free_pages s xs" and "set xs = {q. page_ok s q \<and> q < p}"
    and "page_aligned p" and "kend s \<le> p" and "p \<le> PHYSTOP"
  shows "okR (freerange_from s p PHYSTOP)
    (\<lambda>s'. \<exists>ys. free_pages s' ys \<and> set ys = {q. page_ok s q} \<and> kend s' = kend s)"
  using assms
proof (induction s p PHYSTOP arbitrary: xs rule: freerange_from.induct)
  case (1 s p)
  show ?case
  proof (cases "p < PHYSTOP")
    case True
    have ok: "page_ok s p" using "1.prems" True by (simp add: page_ok_def)
    obtain s' where s': "kfree s p = Ok s'" using ok kfree_Ok_iff by blast
    have "free_pages s' (p # xs)"
      using kfree_pages [OF "1.prems"(1) ok] "1.prems"(2) s' by simp
    moreover have k: "kend s' = kend s" using kfree_fields [OF s'] by simp
    then have pk: "page_ok s' = page_ok s" by (rule page_ok_kend)
    moreover have "set (p # xs) = {q. page_ok s' q \<and> q < p + PGSIZE}"
      using page_ok_step [of p s] "1.prems" True pk by simp
    moreover have step: "p + PGSIZE \<le> PHYSTOP" using PHYSTOP_step "1.prems" True by blast
    moreover have "page_aligned (p + PGSIZE)" using "1.prems" by (simp add: page_aligned_add)
    moreover have "kend s' \<le> p + PGSIZE"
      using "1.prems" True k by (simp add: word_le_nat_alt word_less_nat_alt unat_word_ariths)
    ultimately have "okR (freerange_from s' (p + PGSIZE) PHYSTOP)
        (\<lambda>s''. \<exists>ys. free_pages s'' ys \<and> set ys = {q. page_ok s' q} \<and> kend s'' = kend s')"
      using "1.hyps" [OF step s'] by blast
    then show ?thesis
      using s' step pk k by (subst freerange_from.simps) simp
  next
    case False
    then have p: "p = PHYSTOP" using "1.prems" by simp
    then have "set xs = {q. page_ok s q}" using "1.prems" by (auto simp: page_ok_def)
    then show ?thesis
      using "1.prems" p by (subst freerange_from.simps) auto
  qed
qed

lemma page_ok_roundup:
  assumes "kend s \<le> PHYSTOP" and "page_ok s q"
  shows "PGROUNDUP (kend s) \<le> q"
proof -
  have "unat (kend s) + 4095 < 2 ^ 64" using assms(1) by (simp add: word_le_nat_alt)
  then have "unat (PGROUNDUP (kend s)) = (unat (kend s) + 4095) div 4096 * 4096"
    by (rule unat_PGROUNDUP)
  moreover have "unat q mod 4096 = 0" "unat (kend s) \<le> unat q"
    using assms(2) by (auto simp: page_ok_def page_aligned_def word_le_nat_alt)
  ultimately show ?thesis unfolding word_le_nat_alt by (simp add: nat_roundup_least)
qed

lemma roundup_bounds:
  assumes "k \<le> PHYSTOP"
  shows "k \<le> PGROUNDUP k" and "PGROUNDUP k \<le> PHYSTOP"
proof -
  have k: "unat k \<le> 0x88000000" using assms by (simp add: word_le_nat_alt)
  then have "unat (PGROUNDUP k) = (unat k + 4095) div 4096 * 4096" by (simp add: unat_PGROUNDUP)
  then show "k \<le> PGROUNDUP k" and "PGROUNDUP k \<le> PHYSTOP"
    using nat_roundup_ge [of "unat k"] nat_roundup_least [OF k]
    unfolding word_le_nat_alt by simp_all
qed

text \<open>
  C31: After \<^verbatim>\<open>kinit\<close> the free list holds every whole page between the end of the kernel and
  \<^verbatim>\<open>PHYSTOP\<close>, each exactly once, and no \<^verbatim>\<open>kfree\<close> on the way panics.
\<close>

theorem kinit_frees_all:
  assumes "0 < kend s" and "kend s \<le> PHYSTOP" and "freelist s = 0"
  shows "okR (kinit s) (\<lambda>s'. \<exists>xs. free_pages s' xs \<and> distinct xs \<and>
    set xs = {p. page_aligned p \<and> kend s \<le> p \<and> p < PHYSTOP})"
proof -
  have none: "{q. page_ok s q \<and> q < PGROUNDUP (kend s)} = {}"
    using page_ok_roundup [OF assms(2)] by (auto simp: not_less [symmetric])
  have "okR (freerange_from s (PGROUNDUP (kend s)) PHYSTOP)
    (\<lambda>s'. \<exists>ys. free_pages s' ys \<and> set ys = {q. page_ok s q} \<and> kend s' = kend s)"
    using assms roundup_bounds [OF assms(2)] none
    by (intro freerange_from_pages [of s "[]"]) (auto simp: free_pages_def)
  then show ?thesis
    unfolding kinit_def freerange_def
    by (rule okR_mono) (auto simp: free_pages_def page_ok_def)
qed

theorem kinit_frees_all_witness:
  "okR (kinit \<lparr>mem = (\<lambda>_. 0), freelist = 0, kend = 0x80021d40\<rparr>)
    (\<lambda>s'. \<exists>xs. free_pages s' xs \<and> distinct xs \<and>
      set xs = {p. page_aligned p \<and> 0x80021d40 \<le> p \<and> p < PHYSTOP})"
  using kinit_frees_all [of "\<lparr>mem = (\<lambda>_. 0), freelist = 0, kend = 0x80021d40\<rparr>"] by simp

lemma count_runs_eq:
  "run_list m r xs \<Longrightarrow> count_runs m r c = Some (c + of_nat (length xs))"
proof (induction xs arbitrary: r c)
  case Nil
  then show ?case by (subst count_runs.simps) simp
next
  case (Cons x xs)
  then have "count_runs m (load64 m x) (c + 1) = Some (c + 1 + of_nat (length xs))" by simp
  with Cons.prems show ?case by (subst count_runs.simps) (simp add: add.assoc)
qed

lemma free_pages_bound:
  assumes "free_pages s xs"
  shows "length xs \<le> 0x88000"
proof -
  have "inj_on (\<lambda>p. unat p div 4096) (set xs)"
  proof (rule inj_onI)
    fix p q
    assume "p \<in> set xs" "q \<in> set xs" and eq: "unat p div 4096 = unat q div 4096"
    then have "unat p mod 4096 = 0" "unat q mod 4096 = 0"
      using assms by (auto simp: free_pages_def page_ok_def page_aligned_def)
    then have "unat p = unat q" using eq by (metis add_0_right div_mod_decomp)
    then show "p = q" by (simp add: word_unat_eq_iff)
  qed
  moreover have "(\<lambda>p. unat p div 4096) ` set xs \<subseteq> {..<0x88000}"
    using assms by (auto simp: free_pages_def page_ok_def word_less_nat_alt)
  ultimately have "card (set xs) \<le> card {..<0x88000::nat}"
    by (rule card_inj_on_le) simp
  then show ?thesis using assms by (simp add: free_pages_def distinct_card)
qed

text \<open>
  C32: \<^verbatim>\<open>kcollect_free\<close> returns (the walk of the free list ends) and answers the number of free bytes,
  4096 for every page on the list, with no wrap-around.
\<close>

theorem kcollect_free_correct:
  assumes "free_pages s xs"
  shows "\<exists>n. kcollect_free s = Some n \<and> unat n = 4096 * length xs"
proof -
  have "count_runs (mem s) (freelist s) 0 = Some (of_nat (length xs))"
    using assms count_runs_eq [of "mem s" "freelist s" xs 0] by (simp add: free_pages_def)
  moreover have "unat (of_nat (length xs) * PGSIZE :: u64) = 4096 * length xs"
    using free_pages_bound [OF assms] by (simp add: unat_word_ariths)
  ultimately show ?thesis by (simp add: kcollect_free_def)
qed

theorem kcollect_free_correct_witness:
  "\<exists>n. kcollect_free kmem_two = Some n \<and> unat n = 8192"
  using kcollect_free_correct [OF kmem_two_pages] by simp

end
