(* ===== verification/Xv6_Vm.thy ===== *)
theory Xv6_Vm
  imports Xv6_Kalloc
begin

text \<open>
  \<^verbatim>\<open>kernel/vm.c\<close>: page tables and user memory, over the physical memory of \<open>kmem\<close>.  A page table is
  the address of its root page; a page table entry is the 64-bit word at its slot; pointers to
  slots are addresses and the NULL pointer is 0.  Kernel-side buffers of the copy routines are byte
  lists.  The loops of the source end because \<^verbatim>\<open>walk\<close> panics at or above \<^verbatim>\<open>MAXVA\<close>, which is what their
  termination proofs use.
\<close>

section \<open>Walking the three-level tree\<close>

definition slot :: "u64 \<Rightarrow> nat \<Rightarrow> u64 \<Rightarrow> u64" where
  "slot pagetable level va = pagetable + 8 * PX level va"

primrec walk_level :: "nat \<Rightarrow> kmem \<Rightarrow> u64 \<Rightarrow> u64 \<Rightarrow> bool \<Rightarrow> u64 \<times> kmem" where
  "walk_level 0 s pagetable va alloc = (slot pagetable 0 va, s)"
| "walk_level (Suc level) s pagetable va alloc =
     (let pte = slot pagetable (Suc level) va in
      if load64 (mem s) pte AND PTE_V \<noteq> 0
      then walk_level level s (PTE2PA (load64 (mem s) pte)) va alloc
      else if \<not> alloc then (0, s)
      else
        let (page, s1) = kalloc s in
        if page = 0 then (0, s1)
        else
          let m1 = memset (mem s1) page 0 4096;
              m2 = store64 m1 pte (PA2PTE page OR PTE_V)
          in walk_level level (s1\<lparr>mem := m2\<rparr>) page va alloc)"

definition walk :: "kmem \<Rightarrow> u64 \<Rightarrow> u64 \<Rightarrow> bool \<Rightarrow> (u64 \<times> kmem) res" where
  "walk s pagetable va alloc =
     (if va \<ge> MAXVA then Panic ''walk'' else Ok (walk_level 2 s pagetable va alloc))"

definition walkaddr :: "kmem \<Rightarrow> u64 \<Rightarrow> u64 \<Rightarrow> u64 res" where
  "walkaddr s pagetable va =
     (if va \<ge> MAXVA then Ok 0
      else bindR (walk s pagetable va False) (\<lambda>(pte, _).
        if pte = 0 then Ok 0
        else if load64 (mem s) pte AND PTE_V = 0 then Ok 0
        else if load64 (mem s) pte AND PTE_U = 0 then Ok 0
        else Ok (PTE2PA (load64 (mem s) pte))))"

section \<open>Mapping and unmapping\<close>

lemma walk_Ok_below: "walk s pt a alloc = Ok x \<Longrightarrow> unat a < unat MAXVA \<and> unat (a + PGSIZE) = unat a + 4096"
  by (auto simp: walk_def word_less_nat_alt not_le unat_word_ariths split: if_splits)

function mappages_from :: "kmem \<Rightarrow> u64 \<Rightarrow> u64 \<Rightarrow> u64 \<Rightarrow> u64 \<Rightarrow> u64 \<Rightarrow> (int \<times> kmem) res" where
  "mappages_from s pagetable a lastp pa perm =
     bindR (walk s pagetable a True) (\<lambda>(pte, s1).
       if pte = 0 then Ok (-1, s1)
       else if load64 (mem s1) pte AND PTE_V \<noteq> 0 then Panic ''mappages: remap''
       else
         let s2 = s1\<lparr>mem := store64 (mem s1) pte (PA2PTE pa OR perm OR PTE_V)\<rparr> in
         if a = lastp then Ok (0, s2)
         else mappages_from s2 pagetable (a + PGSIZE) lastp (pa + PGSIZE) perm)"
  by pat_completeness auto
termination
  by (relation "measure (\<lambda>(s, pt, a, lastp, pa, perm). unat MAXVA - unat a)")
    (auto dest: walk_Ok_below)

declare mappages_from.simps [simp del]

definition mappages :: "kmem \<Rightarrow> u64 \<Rightarrow> u64 \<Rightarrow> u64 \<Rightarrow> u64 \<Rightarrow> u64 \<Rightarrow> (int \<times> kmem) res" where
  "mappages s pagetable va sz pa perm =
     (if va mod PGSIZE \<noteq> 0 then Panic ''mappages: va not aligned''
      else if sz mod PGSIZE \<noteq> 0 then Panic ''mappages: size not aligned''
      else if sz = 0 then Panic ''mappages: size''
      else mappages_from s pagetable va (va + sz - PGSIZE) pa perm)"

definition kvmmap :: "kmem \<Rightarrow> u64 \<Rightarrow> u64 \<Rightarrow> u64 \<Rightarrow> u64 \<Rightarrow> u64 \<Rightarrow> kmem res" where
  "kvmmap s kpgtbl va pa sz perm =
     bindR (mappages s kpgtbl va sz pa perm) (\<lambda>(r, s1). if r \<noteq> 0 then Panic ''kvmmap'' else Ok s1)"

function uvmunmap_from :: "kmem \<Rightarrow> u64 \<Rightarrow> u64 \<Rightarrow> u64 \<Rightarrow> bool \<Rightarrow> kmem res" where
  "uvmunmap_from s pagetable a limit do_free =
     (if a < limit
      then bindR (walk s pagetable a False) (\<lambda>(pte, _).
        if pte = 0 then Panic ''uvmunmap: walk''
        else if load64 (mem s) pte AND PTE_V = 0 then Panic ''uvmunmap: not mapped''
        else if PTE_FLAGS (load64 (mem s) pte) = PTE_V then Panic ''uvmunmap: not a leaf''
        else bindR (if do_free then kfree s (PTE2PA (load64 (mem s) pte)) else Ok s) (\<lambda>s1.
          uvmunmap_from (s1\<lparr>mem := store64 (mem s1) pte 0\<rparr>) pagetable (a + PGSIZE) limit do_free))
      else Ok s)"
  by pat_completeness auto
termination
  by (relation "measure (\<lambda>(s, pt, a, limit, f). unat MAXVA - unat a)") (auto dest: walk_Ok_below)

declare uvmunmap_from.simps [simp del]

definition uvmunmap :: "kmem \<Rightarrow> u64 \<Rightarrow> u64 \<Rightarrow> u64 \<Rightarrow> bool \<Rightarrow> kmem res" where
  "uvmunmap s pagetable va npages do_free =
     (if va mod PGSIZE \<noteq> 0 then Panic ''uvmunmap: not aligned''
      else uvmunmap_from s pagetable va (va + npages * PGSIZE) do_free)"

definition uvmcreate :: "kmem \<Rightarrow> u64 \<times> kmem" where
  "uvmcreate s =
     (let (pagetable, s1) = kalloc s in
      if pagetable = 0 then (0, s1)
      else (pagetable, s1\<lparr>mem := memset (mem s1) pagetable 0 4096\<rparr>))"

text \<open>\<^verbatim>\<open>uvmfirst\<close> does not check what \<^verbatim>\<open>kalloc\<close> or \<^verbatim>\<open>mappages\<close> return.\<close>

definition uvmfirst :: "kmem \<Rightarrow> u64 \<Rightarrow> u8 list \<Rightarrow> kmem res" where
  "uvmfirst s pagetable src =
     (if length src \<ge> 4096 then Panic ''uvmfirst: more than a page''
      else
        let (page, s1) = kalloc s;
            s2 = s1\<lparr>mem := memset (mem s1) page 0 4096\<rparr>
        in bindR (mappages s2 pagetable 0 PGSIZE page (PTE_W OR PTE_R OR PTE_X OR PTE_U))
             (\<lambda>(_, s3). Ok (s3\<lparr>mem := write_bytes (mem s3) page src\<rparr>)))"

section \<open>Growing, shrinking and freeing user memory\<close>

text \<open>The page count of \<^verbatim>\<open>uvmdealloc\<close> is a C \<^verbatim>\<open>int\<close>: it is sign-extended when it is passed on.\<close>

definition uvmdealloc :: "kmem \<Rightarrow> u64 \<Rightarrow> u64 \<Rightarrow> u64 \<Rightarrow> (u64 \<times> kmem) res" where
  "uvmdealloc s pagetable oldsz newsz =
     (if newsz \<ge> oldsz then Ok (oldsz, s)
      else if PGROUNDUP newsz < PGROUNDUP oldsz
      then
        let npages = (ucast ((PGROUNDUP oldsz - PGROUNDUP newsz) div PGSIZE) :: u32)
        in bindR (uvmunmap s pagetable (PGROUNDUP newsz) (scast npages) True) (\<lambda>s1. Ok (newsz, s1))
      else Ok (newsz, s))"

lemma mappages_Ok_below:
  assumes "mappages s pt a sz pa perm = Ok x"
  shows "unat a < unat MAXVA \<and> unat (a + PGSIZE) = unat a + 4096"
proof -
  have "\<exists>y. walk s pt a True = Ok y"
    using assms by (auto simp: mappages_def mappages_from.simps [of s pt a] bindR_eq_Ok split: if_splits)
  then show ?thesis using walk_Ok_below by blast
qed

function uvmalloc_from :: "kmem \<Rightarrow> u64 \<Rightarrow> u64 \<Rightarrow> u64 \<Rightarrow> u64 \<Rightarrow> u64 \<Rightarrow> (u64 \<times> kmem) res" where
  "uvmalloc_from s pagetable oldsz a newsz xperm =
     (if a < newsz
      then
        let (page, s1) = kalloc s in
        if page = 0
        then bindR (uvmdealloc s1 pagetable a oldsz) (\<lambda>(_, s2). Ok (0, s2))
        else
          let s2 = (if LAB_SYSCALL then s1 else s1\<lparr>mem := memset (mem s1) page 0 4096\<rparr>) in
          bindR (mappages s2 pagetable a PGSIZE page (PTE_R OR PTE_U OR xperm)) (\<lambda>(r, s3).
            if r \<noteq> 0
            then bindR (kfree s3 page) (\<lambda>s4.
                 bindR (uvmdealloc s4 pagetable a oldsz) (\<lambda>(_, s5). Ok (0, s5)))
            else uvmalloc_from s3 pagetable oldsz (a + PGSIZE) newsz xperm)
      else Ok (newsz, s))"
  by pat_completeness auto
termination
  by (relation "measure (\<lambda>(s, pt, oldsz, a, newsz, x). unat MAXVA - unat a)")
    (auto dest: mappages_Ok_below)

declare uvmalloc_from.simps [simp del]

definition uvmalloc :: "kmem \<Rightarrow> u64 \<Rightarrow> u64 \<Rightarrow> u64 \<Rightarrow> u64 \<Rightarrow> (u64 \<times> kmem) res" where
  "uvmalloc s pagetable oldsz newsz xperm =
     (if newsz < oldsz then Ok (oldsz, s)
      else uvmalloc_from s pagetable (PGROUNDUP oldsz) (PGROUNDUP oldsz) newsz xperm)"

text \<open>
  \<^verbatim>\<open>freewalk\<close> recurses once per level of the tree it is given; the first argument bounds the depth of
  the recursion.  A tree that \<^verbatim>\<open>walk\<close> builds has three levels.
\<close>

primrec freewalk_entries :: "(kmem \<Rightarrow> u64 \<Rightarrow> kmem res) \<Rightarrow> kmem \<Rightarrow> u64 \<Rightarrow> nat \<Rightarrow> kmem res" where
  "freewalk_entries sub s pagetable 0 = Ok s"
| "freewalk_entries sub s pagetable (Suc k) =
     (let pte_addr = pagetable + 8 * of_nat (511 - k);
          pte = load64 (mem s) pte_addr in
      if pte AND PTE_V \<noteq> 0 \<and> pte AND (PTE_R OR PTE_W OR PTE_X) = 0
      then bindR (sub s (PTE2PA pte)) (\<lambda>s1.
        freewalk_entries sub (s1\<lparr>mem := store64 (mem s1) pte_addr 0\<rparr>) pagetable k)
      else if pte AND PTE_V \<noteq> 0 then Panic ''freewalk: leaf''
      else freewalk_entries sub s pagetable k)"

primrec freewalk :: "nat \<Rightarrow> kmem \<Rightarrow> u64 \<Rightarrow> kmem res" where
  "freewalk 0 s pagetable = Diverges"
| "freewalk (Suc depth) s pagetable =
     bindR (freewalk_entries (freewalk depth) s pagetable 512) (\<lambda>s1. kfree s1 pagetable)"

definition uvmfree :: "kmem \<Rightarrow> u64 \<Rightarrow> u64 \<Rightarrow> kmem res" where
  "uvmfree s pagetable sz =
     bindR (if sz > 0 then uvmunmap s pagetable 0 (PGROUNDUP sz div PGSIZE) True else Ok s)
       (\<lambda>s1. freewalk 3 s1 pagetable)"

function uvmcopy_from :: "kmem \<Rightarrow> u64 \<Rightarrow> u64 \<Rightarrow> u64 \<Rightarrow> u64 \<Rightarrow> (int \<times> kmem) res" where
  "uvmcopy_from s old new i sz =
     (if i < sz
      then bindR (walk s old i False) (\<lambda>(pte, _).
        if pte = 0 then Panic ''uvmcopy: pte should exist''
        else if load64 (mem s) pte AND PTE_V = 0 then Panic ''uvmcopy: page not present''
        else
          let pa = PTE2PA (load64 (mem s) pte);
              flags = PTE_FLAGS (load64 (mem s) pte);
              (page, s1) = kalloc s in
          if page = 0
          then bindR (uvmunmap s1 new 0 (i div PGSIZE) True) (\<lambda>s2. Ok (-1, s2))
          else
            let s2 = s1\<lparr>mem := memmove (mem s1) page pa 4096\<rparr> in
            bindR (mappages s2 new i PGSIZE page flags) (\<lambda>(r, s3).
              if r \<noteq> 0
              then bindR (kfree s3 page) (\<lambda>s4.
                   bindR (uvmunmap s4 new 0 (i div PGSIZE) True) (\<lambda>s5. Ok (-1, s5)))
              else uvmcopy_from s3 old new (i + PGSIZE) sz))
      else Ok (0, s))"
  by pat_completeness auto
termination
  by (relation "measure (\<lambda>(s, old, new, i, sz). unat MAXVA - unat i)") (auto dest: walk_Ok_below)

declare uvmcopy_from.simps [simp del]

definition uvmcopy :: "kmem \<Rightarrow> u64 \<Rightarrow> u64 \<Rightarrow> u64 \<Rightarrow> (int \<times> kmem) res" where
  "uvmcopy s old new sz = uvmcopy_from s old new 0 sz"

definition uvmclear :: "kmem \<Rightarrow> u64 \<Rightarrow> u64 \<Rightarrow> kmem res" where
  "uvmclear s pagetable va =
     bindR (walk s pagetable va False) (\<lambda>(pte, _).
       if pte = 0 then Panic ''uvmclear''
       else Ok (s\<lparr>mem := store64 (mem s) pte (load64 (mem s) pte AND NOT PTE_U)\<rparr>))"

section \<open>Copying between the kernel and user space\<close>

definition chunk :: "u64 \<Rightarrow> nat \<Rightarrow> nat" where
  "chunk va len = min (unat (PGSIZE - (va - PGROUNDDOWN va))) len"

lemma offset_small: "unat (va - PGROUNDDOWN va) = unat va mod 4096"
  by (simp add: unat_sub_if' unat_PGROUNDDOWN modulo_nat_def)

lemma unat_chunk: "chunk va len = min (4096 - unat va mod 4096) len"
proof -
  have "unat va mod 4096 < 4096" by simp
  then show ?thesis
    using offset_small [of va] by (simp add: chunk_def unat_sub_if' min_def)
qed

lemma chunk_pos: "0 < len \<Longrightarrow> 0 < chunk va len"
  by (simp add: unat_chunk)

lemma chunk_le: "chunk va len \<le> len"
  by (simp add: unat_chunk)

function copyout :: "kmem \<Rightarrow> u64 \<Rightarrow> u64 \<Rightarrow> u8 list \<Rightarrow> (int \<times> kmem) res" where
  "copyout s pagetable dstva src =
     (if src = [] then Ok (0, s)
      else
        let va0 = PGROUNDDOWN dstva in
        if va0 \<ge> MAXVA then Ok (-1, s)
        else bindR (walk s pagetable va0 False) (\<lambda>(pte, _).
          if pte = 0 then Ok (-1, s)
          else if load64 (mem s) pte AND PTE_W = 0 then Ok (-1, s)
          else bindR (walkaddr s pagetable va0) (\<lambda>pa0.
            if pa0 = 0 then Ok (-1, s)
            else
              let n = chunk dstva (length src);
                  s1 = s\<lparr>mem := write_bytes (mem s) (pa0 + (dstva - va0)) (take n src)\<rparr>
              in copyout s1 pagetable (va0 + PGSIZE) (drop n src))))"
  by pat_completeness auto
termination
  by (relation "measure (\<lambda>(s, pt, va, src). length src)") (auto simp: chunk_pos)

declare copyout.simps [simp del]

function copyin :: "kmem \<Rightarrow> u64 \<Rightarrow> u64 \<Rightarrow> nat \<Rightarrow> (int \<times> u8 list) res" where
  "copyin s pagetable srcva len =
     (if len = 0 then Ok (0, [])
      else
        let va0 = PGROUNDDOWN srcva in
        bindR (walkaddr s pagetable va0) (\<lambda>pa0.
          if pa0 = 0 then Ok (-1, [])
          else
            let n = chunk srcva len;
                here = read_bytes (mem s) (pa0 + (srcva - va0)) n
            in bindR (copyin s pagetable (va0 + PGSIZE) (len - n))
                 (\<lambda>(r, rest). Ok (r, here @ rest))))"
  by pat_completeness auto
termination
  by (relation "measure (\<lambda>(s, pt, va, len). len)") (auto simp: chunk_pos)

declare copyin.simps [simp del]

text \<open>
  The inner loop of \<^verbatim>\<open>copyinstr\<close> copies up to \<open>n\<close> bytes and stops at a NUL, which it copies; it says
  whether it met one.
\<close>

primrec copyinstr_page :: "bytemem \<Rightarrow> u64 \<Rightarrow> nat \<Rightarrow> u8 list \<times> bool" where
  "copyinstr_page m p 0 = ([], False)"
| "copyinstr_page m p (Suc n) =
     (if m p = 0 then ([0], True)
      else let (bs, got_null) = copyinstr_page m (p + 1) n in (m p # bs, got_null))"

function copyinstr :: "kmem \<Rightarrow> u64 \<Rightarrow> u64 \<Rightarrow> nat \<Rightarrow> (int \<times> u8 list) res" where
  "copyinstr s pagetable srcva limit =
     (if limit = 0 then Ok (-1, [])
      else
        let va0 = PGROUNDDOWN srcva in
        bindR (walkaddr s pagetable va0) (\<lambda>pa0.
          if pa0 = 0 then Ok (-1, [])
          else
            let n = chunk srcva limit;
                (here, got_null) = copyinstr_page (mem s) (pa0 + (srcva - va0)) n
            in if got_null then Ok (0, here)
               else bindR (copyinstr s pagetable (va0 + PGSIZE) (limit - n))
                 (\<lambda>(r, rest). Ok (r, here @ rest))))"
  by pat_completeness auto
termination
  by (relation "measure (\<lambda>(s, pt, va, limit). limit)") (auto simp: chunk_pos)

declare copyinstr.simps [simp del]

section \<open>The kernel page table\<close>

text \<open>
  \<open>etext\<close> and \<open>trampoline\<close> are the addresses of the linker symbols of the same names;
  \<^verbatim>\<open>proc_mapstacks\<close> of \<^verbatim>\<open>kernel/proc.c\<close> gives every process slot a stack page.
\<close>

abbreviation (input) UART0 :: u64 where
  "UART0 \<equiv> 0x10000000"

abbreviation (input) VIRTIO0 :: u64 where
  "VIRTIO0 \<equiv> 0x10001000"

abbreviation (input) PLIC :: u64 where
  "PLIC \<equiv> 0x0c000000"

primrec proc_mapstacks_from :: "kmem \<Rightarrow> u64 \<Rightarrow> nat \<Rightarrow> kmem res" where
  "proc_mapstacks_from s kpgtbl 0 = Ok s"
| "proc_mapstacks_from s kpgtbl (Suc k) =
     (let (pa, s1) = kalloc s in
      if pa = 0 then Panic ''kalloc''
      else bindR (kvmmap s1 kpgtbl (KSTACK (of_nat (NPROC - Suc k))) pa PGSIZE (PTE_R OR PTE_W))
        (\<lambda>s2. proc_mapstacks_from s2 kpgtbl k))"

definition proc_mapstacks :: "kmem \<Rightarrow> u64 \<Rightarrow> kmem res" where
  "proc_mapstacks s kpgtbl = proc_mapstacks_from s kpgtbl NPROC"

definition kvmmake :: "kmem \<Rightarrow> u64 \<Rightarrow> u64 \<Rightarrow> (u64 \<times> kmem) res" where
  "kvmmake s etext trampoline =
     (let (kpgtbl, s0) = kalloc s;
          s1 = s0\<lparr>mem := memset (mem s0) kpgtbl 0 4096\<rparr> in
      bindR (kvmmap s1 kpgtbl UART0 UART0 PGSIZE (PTE_R OR PTE_W)) (\<lambda>s2.
      bindR (kvmmap s2 kpgtbl VIRTIO0 VIRTIO0 PGSIZE (PTE_R OR PTE_W)) (\<lambda>s3.
      bindR (kvmmap s3 kpgtbl PLIC PLIC 0x4000000 (PTE_R OR PTE_W)) (\<lambda>s4.
      bindR (kvmmap s4 kpgtbl KERNBASE KERNBASE (etext - KERNBASE) (PTE_R OR PTE_X)) (\<lambda>s5.
      bindR (kvmmap s5 kpgtbl etext etext (PHYSTOP - etext) (PTE_R OR PTE_W)) (\<lambda>s6.
      bindR (kvmmap s6 kpgtbl TRAMPOLINE trampoline PGSIZE (PTE_R OR PTE_X)) (\<lambda>s7.
      bindR (proc_mapstacks s7 kpgtbl) (\<lambda>s8. Ok (kpgtbl, s8)))))))))"

section \<open>The page table of a process\<close>

text \<open>
  \<^verbatim>\<open>proc_pagetable\<close> and \<^verbatim>\<open>proc_freepagetable\<close> of \<^verbatim>\<open>kernel/proc.c\<close>: an empty user page table with the
  trampoline and the trapframe page mapped.
\<close>

definition proc_pagetable :: "kmem \<Rightarrow> u64 \<Rightarrow> u64 \<Rightarrow> (u64 \<times> kmem) res" where
  "proc_pagetable s trampoline trapframe =
     (let (pagetable, s1) = uvmcreate s in
      if pagetable = 0 then Ok (0, s1)
      else
        bindR (mappages s1 pagetable TRAMPOLINE PGSIZE trampoline (PTE_R OR PTE_X)) (\<lambda>(r, s2).
        if r < 0 then bindR (uvmfree s2 pagetable 0) (\<lambda>s3. Ok (0, s3))
        else
          bindR (mappages s2 pagetable TRAPFRAME PGSIZE trapframe (PTE_R OR PTE_W)) (\<lambda>(r', s3).
          if r' < 0
          then bindR (uvmunmap s3 pagetable TRAMPOLINE 1 False) (\<lambda>s4.
               bindR (uvmfree s4 pagetable 0) (\<lambda>s5. Ok (0, s5)))
          else Ok (pagetable, s3))))"

definition proc_freepagetable :: "kmem \<Rightarrow> u64 \<Rightarrow> u64 \<Rightarrow> kmem res" where
  "proc_freepagetable s pagetable sz =
     bindR (uvmunmap s pagetable TRAMPOLINE 1 False) (\<lambda>s1.
     bindR (uvmunmap s1 pagetable TRAPFRAME 1 False) (\<lambda>s2.
     uvmfree s2 pagetable sz))"

end
