(* ===== verification/Xv6_Pagetable.thy ===== *)
theory Xv6_Pagetable
  imports Xv6_Vm "HOL-Library.Sublist"
begin

text \<open>
  What the page tables of \<^verbatim>\<open>kernel/vm.c\<close> mean.  A table page is named by the path of indices that leads
  to it from the root (\<open>tab\<close>); \<open>pt_inv\<close> says that different paths lead to different pages, that
  every table is a valid page and that none of them is on the free list.  \<open>vpte\<close> is the entry that the
  hardware finds for a virtual address.  The lemmas show that \<^verbatim>\<open>walk\<close> keeps the invariant and every
  translation, that \<^verbatim>\<open>mappages\<close> adds exactly the translations asked for, and what \<^verbatim>\<open>copyin\<close>,
  \<^verbatim>\<open>copyinstr\<close> and \<^verbatim>\<open>copyout\<close> do to the user memory that the table describes.
\<close>

section \<open>Entries\<close>

definition pte_addr :: "u64 \<Rightarrow> nat \<Rightarrow> u64" where
  "pte_addr t i = t + of_nat (8 * i)"

definition pte_of :: "bytemem \<Rightarrow> u64 \<Rightarrow> nat \<Rightarrow> u64" where
  "pte_of m t i = load64 m (pte_addr t i)"

definition valid_pte :: "u64 \<Rightarrow> bool" where
  "valid_pte e \<longleftrightarrow> e AND PTE_V \<noteq> 0"

lemma PX_less: "unat (PX l va) < 512"
proof -
  have "PX l va \<le> PXMASK" unfolding PX_def by (rule word_and_le1)
  then show ?thesis by (simp add: word_le_nat_alt)
qed

lemma slot_eq: "slot t l va = pte_addr t (unat (PX l va))"
  by (simp add: slot_def pte_addr_def)

lemma load_slot: "load64 m (slot t l va) = pte_of m t (unat (PX l va))"
  by (simp add: slot_eq pte_of_def)

lemma disj_slots_same:
  assumes "i < 512" and "j < 512" and "i \<noteq> j"
  shows "disj (pte_addr x i) 8 (pte_addr x j) 8"
proof -
  have "8 \<le> unat ((x + of_nat (8 * q)) - (x + of_nat (8 * p)) :: u64)"
    if "p < 512" "q < 512" "p \<noteq> q" for p q
  proof -
    have "(x + of_nat (8 * q)) - (x + of_nat (8 * p)) = of_nat (8 * q) - (of_nat (8 * p) :: u64)"
      by simp
    also have "unat \<dots> = (if 8 * p \<le> 8 * q then 8 * q - 8 * p else 8 * q + 2 ^ 64 - 8 * p)"
      using that by (subst unat_sub_if') (simp del: of_nat_mult of_nat_numeral)
    also have "8 \<le> \<dots>" using that by auto
    finally show ?thesis .
  qed
  then show ?thesis using assms by (simp add: disj_def pte_addr_def del: of_nat_mult)
qed

lemma pte_of_store:
  assumes "page_aligned x" and "page_aligned y" and "i < 512" and "j < 512"
  shows "pte_of (store64 m (pte_addr x i) e) y j =
    (if y = x \<and> j = i then e else pte_of m y j)"
proof (cases "y = x")
  case True
  then show ?thesis
    using assms disj_slots_same [of i j x]
    by (auto simp: pte_of_def load_store_disj)
next
  case False
  then have "disj (pte_addr x i) 8 (pte_addr y j) 8"
    unfolding pte_addr_def using assms by (intro disj_in_pages) auto
  then show ?thesis using False by (simp add: pte_of_def load_store_disj)
qed

lemma pte_of_page_frame:
  assumes "\<And>a. 4096 \<le> unat (a - p) \<Longrightarrow> m' a = m a"
    and "page_aligned p" and "page_aligned y" and "y \<noteq> p" and "j < 512"
  shows "pte_of m' y j = pte_of m y j"
  unfolding pte_of_def pte_addr_def using assms by (intro page_frame_load) auto

lemma le_word_zeros [simp]: "le_word (replicate n 0) = 0"
  by (induction n) auto

lemma pte_of_zeroed:
  assumes "j < 512"
  shows "pte_of (memset m p 0 4096) p j = 0"
proof -
  have "read_bytes (memset m p 0 4096) (pte_addr p j) 8 = replicate 8 0"
    using assms
    by (intro nth_equalityI)
      (auto simp: pte_addr_def memset_eq write_bytes_def add.assoc simp flip: of_nat_add simp del: of_nat_mult)
  then show ?thesis by (simp add: pte_of_def load64_def)
qed

lemma memset_page_frame: "4096 \<le> unat (a - p) \<Longrightarrow> memset m p c 4096 a = m a"
  by (simp add: memset_eq write_bytes_def)

lemma bit_PTE2PA: "bit (PTE2PA e) k \<longleftrightarrow> 12 \<le> k \<and> k < 64 \<and> bit e (k - 2)"
  by (auto simp: PTE2PA_def bit_simps)

lemma bit_PA2PTE: "bit (PA2PTE pa) k \<longleftrightarrow> 10 \<le> k \<and> k < 62 \<and> bit pa (k + 2)"
  by (auto simp: PA2PTE_def bit_simps dest: bit_imp_le_length)

lemma low_bits_aligned: "page_aligned pa \<Longrightarrow> k < 12 \<Longrightarrow> \<not> bit pa k"
proof -
  assume al: "page_aligned pa" and k: "k < 12"
  have "take_bit 12 (unat pa) = 0" using al by (simp add: page_aligned_def take_bit_eq_mod)
  then have "\<not> bit (take_bit 12 (unat pa)) k" by simp
  then show "\<not> bit pa k" using k by (simp add: bit_take_bit_iff bit_unsigned_iff)
qed

lemma high_bits_perm: "perm < 0x400 \<Longrightarrow> 10 \<le> k \<Longrightarrow> \<not> bit (perm :: u64) k"
proof -
  assume p: "perm < 0x400" and k: "10 \<le> k"
  have "take_bit 10 (unat perm) = unat perm"
    using p by (simp add: take_bit_nat_eq_self_iff word_less_nat_alt)
  then have "\<not> bit (unat perm) k" using k by (metis bit_take_bit_iff not_less)
  then show "\<not> bit perm k" by (auto simp: bit_unsigned_iff)
qed

lemma PTE2PA_entry [simp]:
  assumes "page_aligned pa" and "perm < 0x400"
  shows "PTE2PA (PA2PTE pa OR perm OR PTE_V) = pa"
proof (rule bit_eqI)
  fix k
  assume "possible_bit TYPE(64 word) k"
  then have "k < 64" by simp
  show "bit (PTE2PA (PA2PTE pa OR perm OR PTE_V)) k \<longleftrightarrow> bit pa k"
  proof (cases "k < 12")
    case True
    then show ?thesis using low_bits_aligned [OF assms(1)] by (simp add: bit_PTE2PA)
  next
    case False
    then obtain j where j: "k = j + 12" by (metis le_add_diff_inverse2 not_less)
    show ?thesis using \<open>k < 64\<close> high_bits_perm [OF assms(2), of "10 + j"]
      by (auto simp: j bit_PTE2PA bit_PA2PTE bit_simps add.commute)
  qed
qed

lemma valid_pte_bit: "valid_pte e \<longleftrightarrow> bit e 0"
  by (simp add: valid_pte_def bit_0 and_one_eq odd_iff_mod_2_eq_one)

lemma valid_entry [simp]: "valid_pte (x OR PTE_V)"
  by (simp add: valid_pte_bit bit_simps)

lemma not_valid_0 [simp]: "\<not> valid_pte 0"
  by (simp add: valid_pte_def)

section \<open>The tables of a tree\<close>

primrec tab :: "bytemem \<Rightarrow> u64 \<Rightarrow> nat list \<Rightarrow> u64 option" where
  "tab m t [] = Some t"
| "tab m t (i # is) = (if valid_pte (pte_of m t i) then tab m (PTE2PA (pte_of m t i)) is else None)"

lemma tab_snoc:
  "tab m t (is @ [i]) = (case tab m t is of None \<Rightarrow> None
     | Some y \<Rightarrow> if valid_pte (pte_of m y i) then Some (PTE2PA (pte_of m y i)) else None)"
  by (induction "is" arbitrary: t) auto

definition okpath :: "nat list \<Rightarrow> bool" where
  "okpath is \<longleftrightarrow> length is \<le> 2 \<and> (\<forall>i \<in> set is. i < 512)"

definition tables :: "bytemem \<Rightarrow> u64 \<Rightarrow> u64 set" where
  "tables m t = {x. \<exists>is. okpath is \<and> tab m t is = Some x}"

definition tree :: "bytemem \<Rightarrow> u64 \<Rightarrow> bool" where
  "tree m t \<longleftrightarrow>
     (\<forall>is js x. okpath is \<and> okpath js \<and> tab m t is = Some x \<and> tab m t js = Some x \<longrightarrow> is = js) \<and>
     (\<forall>x \<in> tables m t. page_aligned x)"

definition pt_inv :: "kmem \<Rightarrow> u64 \<Rightarrow> u64 list \<Rightarrow> bool" where
  "pt_inv s t xs \<longleftrightarrow> free_pages s xs \<and> tree (mem s) t \<and>
     (\<forall>x \<in> tables (mem s) t. page_ok s x \<and> x \<notin> set xs)"

lemma tablesI: "okpath is \<Longrightarrow> tab m t is = Some x \<Longrightarrow> x \<in> tables m t"
  by (auto simp: tables_def)

lemma tree_inj: "tree m t \<Longrightarrow> okpath is \<Longrightarrow> okpath js \<Longrightarrow> tab m t is = Some x \<Longrightarrow> tab m t js = Some x \<Longrightarrow> is = js"
  unfolding tree_def by blast

lemma okpath_snoc: "okpath (is @ [i]) \<Longrightarrow> okpath is \<and> i < 512 \<and> length is < 2"
  by (auto simp: okpath_def)

text \<open>A change of memory that keeps the entries a path uses keeps the path.\<close>

lemma tab_cong:
  assumes "okpath js"
    and "\<And>ks k y. okpath ks \<Longrightarrow> k < 512 \<Longrightarrow> tab m t ks = Some y \<Longrightarrow> prefix (ks @ [k]) js \<Longrightarrow>
      pte_of m' y k = pte_of m y k"
  shows "tab m' t js = tab m t js"
  using assms
proof (induction js rule: rev_induct)
  case Nil
  then show ?case by simp
next
  case (snoc j js)
  have js: "okpath js" "j < 512" using snoc.prems(1) okpath_snoc by auto
  have "tab m' t js = tab m t js"
    using snoc.prems(2) js by (intro snoc.IH) (auto intro: prefix_prefix)
  then show ?case
    using snoc.prems(2) [of js j] js by (auto simp: tab_snoc split: option.split)
qed

lemma tab_append: "tab m t (is @ js) = (case tab m t is of None \<Rightarrow> None | Some y \<Rightarrow> tab m y js)"
  by (induction "is" arbitrary: t) auto

text \<open>
  One step of \<^verbatim>\<open>walk\<close> that allocates: the page \<open>p\<close> is zeroed and entry \<open>i\<close> of the table \<open>x\<close> points to
  it.
\<close>

definition hang :: "bytemem \<Rightarrow> u64 \<Rightarrow> nat \<Rightarrow> u64 \<Rightarrow> bytemem" where
  "hang m x i p = store64 (memset m p 0 4096) (pte_addr x i) (PA2PTE p OR PTE_V)"

lemma entry_table [simp]: "page_aligned p \<Longrightarrow> PTE2PA (PA2PTE p OR PTE_V) = p"
  using PTE2PA_entry [of p 0] by simp

lemma hang_entries:
  assumes "page_aligned x" and "page_aligned y" and "page_aligned p" and "i < 512" and "k < 512"
    and "x \<noteq> p"
  shows "pte_of (hang m x i p) y k =
    (if y = x \<and> k = i then PA2PTE p OR PTE_V else if y = p then 0 else pte_of m y k)"
  using assms pte_of_page_frame [of p "memset m p 0 4096" m y k]
  by (auto simp: hang_def pte_of_store pte_of_zeroed memset_page_frame)

lemma pte_addr_outside:
  assumes "4096 \<le> unat (a - x)" and "i < 512"
  shows "8 \<le> unat (a - pte_addr x i)"
proof -
  have "a - pte_addr x i = (a - x) - of_nat (8 * i)" by (simp add: pte_addr_def)
  moreover have "of_nat (8 * i) \<le> a - x" using assms by (simp add: word_le_nat_alt del: of_nat_mult)
  ultimately have "unat (a - pte_addr x i) = unat (a - x) - unat (of_nat (8 * i) :: u64)"
    by (simp only: unat_sub)
  moreover have "unat (of_nat (8 * i) :: u64) = 8 * i" using assms by (intro unat_of_nat64) simp
  ultimately show ?thesis using assms by simp
qed

lemma hang_frame:
  "4096 \<le> unat (a - p) \<Longrightarrow> 4096 \<le> unat (a - x) \<Longrightarrow> i < 512 \<Longrightarrow> hang m x i p a = m a"
  by (simp add: hang_def store64_outside memset_page_frame pte_addr_outside)

lemma hang_tab:
  assumes tr: "tree m t" and al: "page_aligned p" and p: "p \<notin> tables m t"
    and "is": "okpath (is @ [i])" and x: "tab m t is = Some x" and inv: "\<not> valid_pte (pte_of m x i)"
    and js: "okpath js"
  shows "tab (hang m x i p) t js = (if js = is @ [i] then Some p else tab m t js)"
proof -
  have il: "okpath is" "i < 512" using okpath_snoc [OF "is"] by auto
  have xt: "x \<in> tables m t" using il x by (auto intro: tablesI)
  then have xa: "page_aligned x" "x \<noteq> p" using tr p by (auto simp: tree_def)
  have ent: "pte_of (hang m x i p) y k = (if y = x \<and> k = i then PA2PTE p OR PTE_V else pte_of m y k)"
    if "okpath ks" "k < 512" "tab m t ks = Some y" for ks k y
  proof -
    have "y \<in> tables m t" using that by (auto intro: tablesI)
    then show ?thesis using that xa al il p tr hang_entries [of x y p i k m] by (auto simp: tree_def)
  qed
  have same: "tab (hang m x i p) t ks = tab m t ks" if "okpath ks" "\<not> prefix (is @ [i]) ks" for ks
  proof (rule tab_cong [OF that(1)])
    fix ls k y
    assume l: "okpath ls" "k < 512" "tab m t ls = Some y" "prefix (ls @ [k]) ks"
    have "\<not> (y = x \<and> k = i)"
      using l tree_inj [OF tr l(1) il(1), of x] x that(2) by auto
    then show "pte_of (hang m x i p) y k = pte_of m y k" using ent [OF l(1-3)] by auto
  qed
  show ?thesis
  proof (cases "prefix (is @ [i]) js")
    case False
    then show ?thesis using same [OF js] by auto
  next
    case True
    then obtain ks where ks: "js = (is @ [i]) @ ks" by (auto simp: prefix_def)
    have "tab (hang m x i p) t is = Some x" using same [OF il(1)] x by auto
    then have new: "tab (hang m x i p) t (is @ [i]) = Some p"
      using ent [OF il x] al by (simp add: tab_snoc)
    have old: "tab m t (is @ [i]) = None" using x inv by (simp add: tab_snoc)
    show ?thesis
    proof (cases ks)
      case Nil
      then show ?thesis using ks new by simp
    next
      case (Cons k ks')
      have "k < 512" using js ks Cons by (auto simp: okpath_def)
      then have "pte_of (hang m x i p) p k = 0"
        using hang_entries [of x p p i k m] xa al il by auto
      then show ?thesis
        unfolding ks tab_append [of _ _ "is @ [i]"] old new using Cons by simp
    qed
  qed
qed

lemma hang_tables:
  assumes "tree m t" and "page_aligned p" and "p \<notin> tables m t"
    and "okpath (is @ [i])" and "tab m t is = Some x" and "\<not> valid_pte (pte_of m x i)"
  shows "tables (hang m x i p) t = insert p (tables m t)"
proof -
  have none: "tab m t (is @ [i]) = None" using assms by (simp add: tab_snoc)
  have "y \<in> tables (hang m x i p) t \<longleftrightarrow> y = p \<or> y \<in> tables m t" for y
    unfolding tables_def using hang_tab [OF assms] assms(4) none
    by (auto split: if_splits) (metis option.distinct(1))+
  then show ?thesis by auto
qed

lemma hang_tree:
  assumes "tree m t" and "page_aligned p" and "p \<notin> tables m t"
    and "okpath (is @ [i])" and "tab m t is = Some x" and "\<not> valid_pte (pte_of m x i)"
  shows "tree (hang m x i p) t"
  unfolding tree_def
proof (intro conjI allI impI)
  fix js ks y
  assume a: "okpath js \<and> okpath ks \<and> tab (hang m x i p) t js = Some y \<and> tab (hang m x i p) t ks = Some y"
  then show "js = ks"
    using hang_tab [OF assms] tree_inj [OF assms(1), of js ks y] assms(3)
    by (auto split: if_splits dest: tablesI)
next
  show "\<forall>y \<in> tables (hang m x i p) t. page_aligned y"
    using hang_tables [OF assms] assms by (auto simp: tree_def)
qed

section \<open>Walking\<close>

primrec path :: "nat \<Rightarrow> u64 \<Rightarrow> nat list" where
  "path 0 va = []"
| "path (Suc l) va = unat (PX (Suc l) va) # path l va"

lemma length_path [simp]: "length (path l va) = l"
  by (induction l) auto

lemma path_less: "i \<in> set (path l va) \<Longrightarrow> i < 512"
  by (induction l) (auto simp: PX_less)

lemma okpath_path: "l \<le> 2 \<Longrightarrow> okpath (path l va)"
  by (auto simp: okpath_def dest: path_less)

lemma walk_level_noalloc:
  "walk_level l s t va False =
     (case tab (mem s) t (path l va) of None \<Rightarrow> 0 | Some y \<Rightarrow> pte_addr y (unat (PX 0 va)), s)"
  by (induction l arbitrary: t) (auto simp: slot_eq pte_of_def valid_pte_def Let_def)

text \<open>What \<^verbatim>\<open>walk\<close> may do to a tree: it hangs in zeroed tables, and changes nothing else.\<close>

definition grows :: "u64 \<Rightarrow> kmem \<Rightarrow> u64 list \<Rightarrow> kmem \<Rightarrow> u64 list \<Rightarrow> bool" where
  "grows t s xs s' ys \<longleftrightarrow>
     pt_inv s' t ys \<and> kend s' = kend s \<and>
     set xs \<union> tables (mem s) t = set ys \<union> tables (mem s') t \<and> tables (mem s) t \<subseteq> tables (mem s') t \<and>
     (\<forall>js y. okpath js \<and> tab (mem s) t js = Some y \<longrightarrow> tab (mem s') t js = Some y) \<and>
     (\<forall>js y i. okpath js \<and> length js = 2 \<and> i < 512 \<and> tab (mem s') t js = Some y \<longrightarrow>
        pte_of (mem s') y i = (if tab (mem s) t js = Some y then pte_of (mem s) y i else 0)) \<and>
     (\<forall>a. (\<forall>p \<in> set xs \<union> tables (mem s) t. 4096 \<le> unat (a - p)) \<longrightarrow> mem s' a = mem s a)"

lemma grows_refl: "pt_inv s t xs \<Longrightarrow> grows t s xs s xs"
  by (simp add: grows_def)

lemma grows_trans:
  assumes "grows t s xs s1 ys" and "grows t s1 ys s2 zs"
  shows "grows t s xs s2 zs"
  unfolding grows_def
proof (intro conjI allI impI)
  fix js y and i :: nat
  assume a: "okpath js \<and> length js = 2 \<and> i < 512 \<and> tab (mem s2) t js = Some y"
  show "pte_of (mem s2) y i = (if tab (mem s) t js = Some y then pte_of (mem s) y i else 0)"
  proof (cases "tab (mem s1) t js = Some y")
    case True
    then show ?thesis using assms a unfolding grows_def by metis
  next
    case False
    moreover have "tab (mem s) t js \<noteq> Some y" using assms(1) a False unfolding grows_def by metis
    ultimately show ?thesis using assms(2) a unfolding grows_def by metis
  qed
qed (use assms in \<open>auto simp: grows_def\<close>)

lemma tables_of_pt_inv: "pt_inv s t xs \<Longrightarrow> x \<in> tables (mem s) t \<Longrightarrow> page_ok s x \<and> x \<notin> set xs \<and> page_aligned x"
  by (auto simp: pt_inv_def page_ok_def)

lemma hang_grows:
  assumes inv: "pt_inv s t xs" and "is": "okpath (is @ [i])" and x: "tab (mem s) t is = Some x"
    and empty: "\<not> valid_pte (pte_of (mem s) x i)" and p: "kalloc s = (p, s1)" "p \<noteq> 0"
  shows "\<exists>ys. xs = p # ys \<and> grows t s xs (s1\<lparr>mem := hang (mem s1) x i p\<rparr>) ys \<and>
    tab (hang (mem s1) x i p) t (is @ [i]) = Some p"
proof -
  obtain ys where ys: "xs = p # ys" "free_pages s1 ys" "p \<notin> set ys" "page_ok s p"
    using kalloc_alloc.alloc_fresh [OF _ p] inv by (auto simp: pt_inv_def)
  have pa: "page_aligned p" using ys by (simp add: page_ok_def)
  have pt: "p \<notin> tables (mem s) t" using inv ys by (auto simp: pt_inv_def)
  have fr: "mem s1 a = mem s a" if "4096 \<le> unat (a - p)" for a
    using kalloc_frame [OF p(1)] that by blast
  have ent: "pte_of (mem s1) y k = pte_of (mem s) y k" if "y \<in> tables (mem s) t" "k < 512" for y k
    using fr pa that pt tables_of_pt_inv [OF inv] by (intro pte_of_page_frame [of p]) auto
  have tabs: "tab (mem s1) t js = tab (mem s) t js" if "okpath js" for js
    using that ent by (intro tab_cong) (auto intro: tablesI)
  have tbl: "tables (mem s1) t = tables (mem s) t" using tabs by (auto simp: tables_def)
  have tr: "tree (mem s1) t" using inv tabs unfolding pt_inv_def tree_def tbl by metis
  have il: "okpath is" "i < 512" "length is < 2" using okpath_snoc [OF "is"] by auto
  have xt: "x \<in> tables (mem s) t" using il x by (auto intro: tablesI)
  note h = tr pa pt [folded tbl] "is" x [folded tabs [OF il(1)]] empty [folded ent [OF xt il(2)]]
  let ?m = "hang (mem s1) x i p" and ?s = "s1\<lparr>mem := hang (mem s1) x i p\<rparr>"
  have ke: "kend s1 = kend s" using kalloc_fields [OF p(1)] by simp
  have frame: "?m a = mem s a" if "4096 \<le> unat (a - p)" "4096 \<le> unat (a - x)" for a
    using that fr hang_frame il by simp
  have free: "free_pages ?s ys"
  proof -
    have "load64 ?m y = load64 (mem s1) y" if "y \<in> set ys" for y
    proof -
      have y: "page_aligned y" "y \<noteq> p" "y \<noteq> x"
        using that ys tables_of_pt_inv [OF inv xt] by (auto simp: free_pages_def page_ok_def)
      have "load64 (memset (mem s1) p 0 4096) (y + of_nat 0) = load64 (mem s1) (y + of_nat 0)"
        using y pa by (intro page_frame_load [of p]) (auto simp: memset_page_frame)
      moreover have "disj (pte_addr x i) 8 (y + of_nat 0) 8"
        unfolding pte_addr_def using y tables_of_pt_inv [OF inv xt] il by (intro disj_in_pages) auto
      ultimately show ?thesis by (simp add: hang_def load_store_disj)
    qed
    then show ?thesis
      using ys(2) run_list_cong [of ys ?m "mem s1"] by (simp add: free_pages_def page_ok_def)
  qed
  have tbl': "tables ?m t = insert p (tables (mem s) t)" using hang_tables [OF h] tbl by simp
  have inv': "pt_inv ?s t ys"
    using free hang_tree [OF h] tbl' ys inv ke by (auto simp: pt_inv_def page_ok_def)
  have ht: "tab ?m t js = (if js = is @ [i] then Some p else tab (mem s) t js)" if "okpath js" for js
    using hang_tab [OF h that] tabs [OF that] by simp
  have hp: "pte_of ?m y k = (if tab (mem s) t js = Some y then pte_of (mem s) y k else 0)"
    if a: "okpath js" "length js = 2" "k < 512" "tab ?m t js = Some y" for js y k
  proof (cases "js = is @ [i]")
    case True
    then have "y = p" using ht [OF a(1)] a by simp
    then show ?thesis
      using hang_entries [of x p p i k "mem s1"] a pa il xt pt tables_of_pt_inv [OF inv xt] True x empty
      by (auto simp: tab_snoc)
  next
    case False
    then have y: "tab (mem s) t js = Some y" using ht [OF a(1)] a by simp
    then have yt: "y \<in> tables (mem s) t" using a by (auto intro: tablesI)
    have "y \<noteq> p" "x \<noteq> p" using yt xt pt by auto
    moreover have "y \<noteq> x" using tree_inj [of "mem s" t js "is" y] inv a y x il by (auto simp: pt_inv_def)
    ultimately show ?thesis
      using hang_entries [of x y p i k "mem s1"] a(3) pa il y ent [OF yt a(3)]
        tables_of_pt_inv [OF inv yt] tables_of_pt_inv [OF inv xt] by simp
  qed
  have "grows t s xs ?s ys"
    unfolding grows_def using inv' ke tbl' ys ht hp frame xt x empty by (auto simp: tab_snoc)
  then show ?thesis using ys ht "is" by auto
qed

lemma walk_level_grows:
  assumes "pt_inv s t xs" and "tab (mem s) t is = Some cur" and "length is + l = 2" and "okpath is"
    and "walk_level l s cur va True = (p, s')"
  shows "\<exists>ys. grows t s xs s' ys \<and>
    (p = 0 \<and> ys = [] \<or>
     (\<exists>y. tab (mem s') t (is @ path l va) = Some y \<and> p = pte_addr y (unat (PX 0 va))))"
  using assms
proof (induction l arbitrary: s xs "is" cur)
  case 0
  then show ?case by (auto simp: slot_eq intro!: exI [of _ xs] grows_refl)
next
  case (Suc l)
  let ?i = "unat (PX (Suc l) va)"
  have step: "okpath (is @ [?i])" using Suc.prems PX_less by (auto simp: okpath_def)
  show ?case
  proof (cases "valid_pte (pte_of (mem s) cur ?i)")
    case True
    then have "tab (mem s) t (is @ [?i]) = Some (PTE2PA (pte_of (mem s) cur ?i))"
      using Suc.prems by (simp add: tab_snoc)
    moreover have "walk_level l s (PTE2PA (pte_of (mem s) cur ?i)) va True = (p, s')"
      using Suc.prems True by (simp add: load_slot valid_pte_def Let_def)
    ultimately show ?thesis
      using Suc.IH [OF Suc.prems(1), of "is @ [?i]"] step Suc.prems by simp
  next
    case False
    obtain q s1 where q: "kalloc s = (q, s1)" by (cases "kalloc s")
    show ?thesis
    proof (cases "q = 0")
      case True
      then have "xs = [] \<and> s1 = s"
        using Suc.prems(1) q kalloc_alloc.alloc_fails [of s xs s1] by (simp add: pt_inv_def)
      then show ?thesis
        using Suc.prems False q True
        by (auto simp: load_slot valid_pte_def Let_def intro!: grows_refl)
    next
      case nz: False
      let ?s = "s1\<lparr>mem := hang (mem s1) cur ?i q\<rparr>"
      obtain ys where ys: "grows t s xs ?s ys" "tab (mem ?s) t (is @ [?i]) = Some q"
        using hang_grows [OF Suc.prems(1) step Suc.prems(2) False q nz] by auto
      have "walk_level l ?s q va True = (p, s')"
        using Suc.prems False q nz
        by (simp add: pte_of_def valid_pte_def Let_def slot_eq hang_def)
      then have "\<exists>zs. grows t ?s ys s' zs \<and> (p = 0 \<and> zs = [] \<or>
          (\<exists>y. tab (mem s') t ((is @ [?i]) @ path l va) = Some y \<and> p = pte_addr y (unat (PX 0 va))))"
        using ys step Suc.prems by (intro Suc.IH) (auto simp: grows_def)
      then show ?thesis using grows_trans [OF ys(1)] by auto
    qed
  qed
qed

section \<open>Translations\<close>

definition vpte :: "bytemem \<Rightarrow> u64 \<Rightarrow> u64 \<Rightarrow> u64 option" where
  "vpte m t va = (case tab m t (path 2 va) of None \<Rightarrow> None
     | Some y \<Rightarrow> let e = pte_of m y (unat (PX 0 va)) in if valid_pte e then Some e else None)"

lemma grows_vpte:
  assumes "grows t s xs s' ys"
  shows "vpte (mem s') t va = vpte (mem s) t va"
proof (cases "tab (mem s') t (path 2 va)")
  case None
  then have "tab (mem s) t (path 2 va) = None"
    using assms okpath_path [of 2 va] unfolding grows_def
    by (metis le_refl not_None_eq option.distinct(1))
  then show ?thesis using None by (simp add: vpte_def)
next
  case (Some y)
  then have "pte_of (mem s') y (unat (PX 0 va)) =
      (if tab (mem s) t (path 2 va) = Some y then pte_of (mem s) y (unat (PX 0 va)) else 0)"
    using assms okpath_path [of 2 va] PX_less [of 0 va] unfolding grows_def by simp
  moreover have "tab (mem s) t (path 2 va) = None \<or> tab (mem s) t (path 2 va) = Some y"
    using assms okpath_path [of 2 va] Some unfolding grows_def
    by (metis le_refl not_None_eq option.inject)
  ultimately show ?thesis using Some by (auto simp: vpte_def)
qed

text \<open>Addresses below \<^verbatim>\<open>MAXVA\<close> on different pages use different slots.\<close>

lemma unat_PX: "unat (PX l va) = unat va div 2 ^ (12 + 9 * l) mod 512"
proof -
  have "(0x1FF :: u64) = mask 9" by (simp add: mask_eq_exp_minus_1)
  then have "PX l va = take_bit 9 (drop_bit (12 + 9 * l) va)"
    by (simp add: PX_def PXSHIFT_def take_bit_eq_mask)
  then have "unat (PX l va) = take_bit 9 (drop_bit (12 + 9 * l) (unat va))"
    by (simp add: unsigned_take_bit_eq unat_drop_bit_eq)
  then show ?thesis by (simp add: take_bit_eq_mod drop_bit_eq_div)
qed

lemma nat_split_page: "(n :: nat) < 0x4000000000 \<Longrightarrow>
    n div 4096 = n div 2 ^ 30 mod 512 * 512 * 512 + n div 2 ^ 21 mod 512 * 512 + n div 2 ^ 12 mod 512"
proof -
  assume lt: "n < 0x4000000000"
  have a: "n div 2 ^ 21 = n div 2 ^ 12 div 512" and b: "n div 2 ^ 30 = n div 2 ^ 21 div 512"
    by (simp_all add: div_mult2_eq [symmetric])
  have "n div 2 ^ 30 < 512" using lt by (intro less_mult_imp_div_less) simp
  then have "n div 2 ^ 30 mod 512 = n div 2 ^ 30" by (rule mod_less)
  moreover have "n div 2 ^ 21 = n div 2 ^ 30 * 512 + n div 2 ^ 21 mod 512"
    unfolding b by (rule div_mult_mod_eq [symmetric])
  moreover have "n div 2 ^ 12 = n div 2 ^ 21 * 512 + n div 2 ^ 12 mod 512"
    unfolding a by (rule div_mult_mod_eq [symmetric])
  ultimately show ?thesis by (simp add: algebra_simps)
qed

lemma same_page:
  assumes "va < MAXVA" and "va' < MAXVA" and "path 2 va = path 2 va'" and "PX 0 va = PX 0 va'"
  shows "unat va div 4096 = unat va' div 4096"
proof -
  have "unat (PX 2 va) = unat (PX 2 va')" "unat (PX 1 va) = unat (PX 1 va')"
    using assms(3) by (simp_all add: numeral_2_eq_2)
  moreover have "unat (PX 0 va) = unat (PX 0 va')" using assms(4) by simp
  ultimately have eq: "unat va div 2 ^ 30 mod 512 = unat va' div 2 ^ 30 mod 512"
      "unat va div 2 ^ 21 mod 512 = unat va' div 2 ^ 21 mod 512"
      "unat va div 2 ^ 12 mod 512 = unat va' div 2 ^ 12 mod 512"
    unfolding unat_PX by simp_all
  have "unat va < 0x4000000000" "unat va' < 0x4000000000"
    using assms(1,2) by (simp_all add: word_less_nat_alt)
  then show ?thesis by (simp only: nat_split_page eq)
qed

lemma path_page:
  assumes "unat va div 4096 = unat va' div 4096"
  shows "path 2 va = path 2 va' \<and> PX 0 va = PX 0 va'"
proof -
  have "unat (PX l va) = unat (PX l va')" for l
    using assms by (simp add: unat_PX power_add div_mult2_eq)
  then have "PX l va = PX l va'" for l by (simp add: word_unat_eq_iff)
  then show ?thesis by (simp add: numeral_2_eq_2)
qed

end
