(* ===== verification/Xv6_Uvm.thy ===== *)
theory Xv6_Uvm
  imports Xv6_Pagetable
begin

text \<open>
  The contracts of the mapping and copying routines of \<^verbatim>\<open>kernel/vm.c\<close>, over the meaning of page tables
  of \<^verbatim>\<open>Xv6_Pagetable\<close>: what \<^verbatim>\<open>mappages\<close> maps, and what \<^verbatim>\<open>copyin\<close>, \<^verbatim>\<open>copyout\<close> and \<^verbatim>\<open>copyinstr\<close> move between
  the kernel and the user addresses that a table translates.
\<close>

section \<open>Writing a leaf entry\<close>

definition keeps :: "u64 \<Rightarrow> kmem \<Rightarrow> u64 list \<Rightarrow> kmem \<Rightarrow> u64 list \<Rightarrow> bool" where
  "keeps t s xs s' ys \<longleftrightarrow>
     pt_inv s' t ys \<and> kend s' = kend s \<and>
     set xs \<union> tables (mem s) t = set ys \<union> tables (mem s') t \<and>
     (\<forall>a. (\<forall>p \<in> set xs \<union> tables (mem s) t. 4096 \<le> unat (a - p)) \<longrightarrow> mem s' a = mem s a)"

lemma keeps_refl: "pt_inv s t xs \<Longrightarrow> keeps t s xs s xs"
  by (simp add: keeps_def)

lemma keeps_trans: "keeps t s xs s1 ys \<Longrightarrow> keeps t s1 ys s2 zs \<Longrightarrow> keeps t s xs s2 zs"
  by (simp add: keeps_def)

lemma grows_keeps: "grows t s xs s' ys \<Longrightarrow> keeps t s xs s' ys"
  by (simp add: keeps_def grows_def)

lemma leaf_store_tab:
  assumes inv: "pt_inv s t xs" and y: "okpath js" "length js = 2" "tab (mem s) t js = Some y" and i: "i < 512"
    and ks: "okpath ks"
  shows "tab (store64 (mem s) (pte_addr y i) e) t ks = tab (mem s) t ks"
proof (rule tab_cong [OF ks])
  fix ls k z
  assume l: "okpath ls" "k < 512" "tab (mem s) t ls = Some z" "prefix (ls @ [k]) ks"
  have "length (ls @ [k]) \<le> length ks" using l(4) by (rule prefix_length_le)
  then have "length ls < 2" using ks by (simp add: okpath_def)
  then have "z \<noteq> y"
    using tree_inj [of "mem s" t ls js y] inv l y by (auto simp: pt_inv_def)
  moreover have "y \<in> tables (mem s) t" "z \<in> tables (mem s) t" using l y by (auto intro: tablesI)
  ultimately show "pte_of (store64 (mem s) (pte_addr y i) e) z k = pte_of (mem s) z k"
    using tables_of_pt_inv [OF inv] l i by (simp add: pte_of_store)
qed

lemma leaf_store_keeps:
  assumes inv: "pt_inv s t xs" and y: "okpath js" "length js = 2" "tab (mem s) t js = Some y" and i: "i < 512"
  shows "keeps t s xs (s\<lparr>mem := store64 (mem s) (pte_addr y i) e\<rparr>) xs"
proof -
  let ?m = "store64 (mem s) (pte_addr y i) e"
  note tb = leaf_store_tab [OF inv y i, of _ e]
  have tbl: "tables ?m t = tables (mem s) t" using tb by (auto simp: tables_def)
  have yt: "y \<in> tables (mem s) t" using y by (auto intro: tablesI)
  have tr: "tree ?m t" using inv tb unfolding pt_inv_def tree_def tbl by metis
  have "load64 ?m x = load64 (mem s) x" if "x \<in> set xs" for x
  proof -
    have "page_aligned x" "x \<noteq> y"
      using that inv tables_of_pt_inv [OF inv yt] by (auto simp: pt_inv_def free_pages_def page_ok_def)
    then have "disj (pte_addr y i) 8 (x + of_nat 0) 8"
      unfolding pte_addr_def using tables_of_pt_inv [OF inv yt] i by (intro disj_in_pages) auto
    then show ?thesis by (simp add: load_store_disj)
  qed
  then have "run_list ?m (freelist s) xs"
    using inv run_list_cong [of xs ?m "mem s"] by (simp add: pt_inv_def free_pages_def)
  then have "pt_inv (s\<lparr>mem := ?m\<rparr>) t xs"
    using inv tr tbl by (simp add: pt_inv_def free_pages_def page_ok_def)
  then show ?thesis
    using tbl yt i by (auto simp: keeps_def intro!: store64_outside pte_addr_outside)
qed

lemma leaf_store_vpte:
  assumes inv: "pt_inv s t xs" and y: "tab (mem s) t (path 2 va) = Some y"
    and va: "va < MAXVA" "va' < MAXVA"
  shows "vpte (store64 (mem s) (pte_addr y (unat (PX 0 va))) e) t va' =
    (if unat va' div 4096 = unat va div 4096 then if valid_pte e then Some e else None
     else vpte (mem s) t va')"
proof -
  have p: "okpath (path 2 va)" "okpath (path 2 va')" by (simp_all add: okpath_path)
  note tb = leaf_store_tab [OF inv p(1) length_path y PX_less [of 0 va] p(2), of e]
  have yt: "page_aligned y" using tables_of_pt_inv [OF inv tablesI [OF p(1) y]] by simp
  show ?thesis
  proof (cases "unat va' div 4096 = unat va div 4096")
    case True
    then show ?thesis using path_page [OF True] tb y yt PX_less
      by (simp add: vpte_def pte_of_store)
  next
    case False
    have "pte_of (store64 (mem s) (pte_addr y (unat (PX 0 va))) e) z (unat (PX 0 va')) =
        pte_of (mem s) z (unat (PX 0 va'))" if z: "tab (mem s) t (path 2 va') = Some z" for z
    proof -
      have "page_aligned z" using tables_of_pt_inv [OF inv tablesI [OF p(2) z]] by simp
      moreover have "\<not> (z = y \<and> unat (PX 0 va') = unat (PX 0 va))"
      proof
        assume a: "z = y \<and> unat (PX 0 va') = unat (PX 0 va)"
        then have "path 2 va' = path 2 va"
          using tree_inj [of "mem s" t "path 2 va'" "path 2 va" y] inv p z y by (simp add: pt_inv_def)
        then show False using same_page [OF va(2,1)] False a by (simp add: word_unat_eq_iff)
      qed
      ultimately show ?thesis using yt PX_less by (auto simp: pte_of_store)
    qed
    then show ?thesis using False tb by (auto simp: vpte_def split: option.split)
  qed
qed

section \<open>mappages\<close>

lemma pte_addr_nonzero:
  assumes "pt_inv s t xs" and "y \<in> tables (mem s) t" and "i < 512"
  shows "pte_addr y i \<noteq> 0"
proof -
  have y: "0 < unat y" "unat y < 0x88000000"
    using tables_of_pt_inv [OF assms(1,2)] assms(1)
    by (auto simp: pt_inv_def free_pages_def page_ok_def word_less_nat_alt word_le_nat_alt)
  have "unat (of_nat (8 * i) :: u64) = 8 * i" using assms(3) by (intro unat_of_nat64) simp
  then have "unat (pte_addr y i) = unat y + 8 * i"
    unfolding pte_addr_def using y assms(3) by (simp add: unat_word_ariths del: of_nat_mult)
  then show ?thesis using y by (metis add_is_0 not_less0 unsigned_0)
qed

text \<open>One page: \<^verbatim>\<open>walk\<close> with \<^verbatim>\<open>alloc\<close> set, then the store.\<close>

lemma walk_alloc:
  assumes inv: "pt_inv s t xs" and va: "va < MAXVA" and w: "walk s t va True = Ok (p, s')"
  shows "\<exists>ys. grows t s xs s' ys \<and>
    (p = 0 \<and> ys = [] \<or> p \<noteq> 0 \<and>
     (\<exists>y. tab (mem s') t (path 2 va) = Some y \<and> p = pte_addr y (unat (PX 0 va))))"
proof -
  have "walk_level 2 s t va True = (p, s')" using w va by (simp add: walk_def split: if_splits)
  then obtain ys where ys: "grows t s xs s' ys" "p = 0 \<and> ys = [] \<or>
      (\<exists>y. tab (mem s') t (path 2 va) = Some y \<and> p = pte_addr y (unat (PX 0 va)))"
    using walk_level_grows [OF inv, of "[]" t 2 va p s'] by (auto simp: okpath_def)
  moreover have "p \<noteq> 0" if "tab (mem s') t (path 2 va) = Some y" "p = pte_addr y (unat (PX 0 va))" for y
    using pte_addr_nonzero [of s' t ys y] that ys(1) okpath_path [of 2 va] PX_less
    by (auto simp: grows_def intro: tablesI)
  ultimately show ?thesis by blast
qed

lemma load_vpte:
  assumes "tab m t (path 2 va) = Some y"
  shows "(if valid_pte (load64 m (pte_addr y (unat (PX 0 va))))
     then Some (load64 m (pte_addr y (unat (PX 0 va)))) else None) = vpte m t va"
  using assms by (simp add: vpte_def pte_of_def)

definition vpn :: "u64 \<Rightarrow> nat" where
  "vpn va = unat va div 4096"

definition maps_range :: "bytemem \<Rightarrow> bytemem \<Rightarrow> u64 \<Rightarrow> nat \<Rightarrow> nat \<Rightarrow> u64 \<Rightarrow> u64 \<Rightarrow> bool" where
  "maps_range m m' t A k pa perm \<longleftrightarrow>
     (\<forall>va < MAXVA. vpte m' t va =
        (if A \<le> vpn va \<and> vpn va < A + k
         then Some (PA2PTE (pa + of_nat ((vpn va - A) * 4096)) OR perm OR PTE_V)
         else vpte m t va))"

lemma maps_range_0: "(\<And>va. vpte m' t va = vpte m t va) \<Longrightarrow> maps_range m m' t A 0 pa perm"
  by (auto simp: maps_range_def)

lemma maps_range_Suc:
  assumes "maps_range m m1 t A 1 pa perm" and "maps_range m1 m2 t (Suc A) k (pa + PGSIZE) perm"
  shows "maps_range m m2 t A (Suc k) pa perm"
  unfolding maps_range_def
proof (intro allI impI)
  fix va :: u64
  assume va: "va < MAXVA"
  show "vpte m2 t va =
        (if A \<le> vpn va \<and> vpn va < A + Suc k
         then Some (PA2PTE (pa + of_nat ((vpn va - A) * 4096)) OR perm OR PTE_V)
         else vpte m t va)"
  proof (cases "Suc A \<le> vpn va")
    case True
    then have "vpn va - A = Suc (vpn va - Suc A)" by simp
    then have "pa + PGSIZE + of_nat ((vpn va - Suc A) * 4096) = pa + of_nat ((vpn va - A) * 4096)"
      by (simp add: algebra_simps)
    then show ?thesis using assms va True unfolding maps_range_def by auto
  next
    case False
    then show ?thesis using assms va unfolding maps_range_def by auto
  qed
qed

lemma vpn_step: "page_aligned a \<Longrightarrow> unat (a + PGSIZE) = unat a + 4096 \<Longrightarrow> vpn (a + PGSIZE) = Suc (vpn a)"
  by (simp add: vpn_def)

lemma aligned_vpn: "page_aligned a \<Longrightarrow> unat a = vpn a * 4096"
  by (auto simp: page_aligned_def vpn_def mod_eq_0_iff_dvd)

lemma mappages_from_spec:
  assumes "pt_inv s t xs" and "page_aligned a" and "page_aligned lastp" and "vpn a \<le> vpn lastp"
    and "lastp < MAXVA"
    and "\<And>va. vpn a \<le> vpn va \<Longrightarrow> vpn va \<le> vpn lastp \<Longrightarrow> vpte (mem s) t va = None"
  shows "okR (mappages_from s t a lastp pa perm) (\<lambda>(r, s'). \<exists>ys k.
    keeps t s xs s' ys \<and> maps_range (mem s) (mem s') t (vpn a) k pa perm \<and>
    (r = 0 \<and> k = Suc (vpn lastp - vpn a) \<or> r = -1 \<and> k \<le> vpn lastp - vpn a \<and> ys = []))"
  using assms
proof (induction s t a lastp pa perm arbitrary: xs rule: mappages_from.induct)
  case (1 s t a lastp pa perm)
  note prems = "1.prems"
  have alt: "unat a < 0x4000000000"
    using prems aligned_vpn [of a] aligned_vpn [of lastp] by (simp add: word_less_nat_alt)
  then have a: "a < MAXVA" by (simp add: word_less_nat_alt)
  obtain p s1 where w: "walk s t a True = Ok (p, s1)"
    using a by (cases "walk_level 2 s t a True") (auto simp: walk_def not_le [symmetric])
  obtain ys where ys: "grows t s xs s1 ys" and p: "p = 0 \<and> ys = [] \<or> p \<noteq> 0 \<and>
      (\<exists>y. tab (mem s1) t (path 2 a) = Some y \<and> p = pte_addr y (unat (PX 0 a)))"
    using walk_alloc [OF prems(1) a w] by blast
  note v1 = grows_vpte [OF ys]
  have inv1: "pt_inv s1 t ys" using ys by (simp add: grows_def)
  show ?case
  proof (cases "p = 0")
    case True
    then show ?thesis
      using p grows_keeps [OF ys] v1
      by (subst mappages_from.simps) (auto simp: w intro!: exI [of _ "0::nat"] maps_range_0)
  next
    case False
    then obtain y where y: "tab (mem s1) t (path 2 a) = Some y" "p = pte_addr y (unat (PX 0 a))"
      using p by blast
    have "vpte (mem s1) t a = None" using prems v1 by simp
    then have free: "load64 (mem s1) p AND PTE_V = 0"
      using load_vpte [OF y(1)] y(2) by (auto simp: valid_pte_def split: if_splits)
    let ?e = "PA2PTE pa OR perm OR PTE_V"
    define s2 where "s2 = s1\<lparr>mem := store64 (mem s1) p ?e\<rparr>"
    have k2: "keeps t s1 ys s2 ys"
      unfolding s2_def y(2) by (rule leaf_store_keeps [OF inv1 _ length_path y(1) PX_less]) (simp add: okpath_path)
    have ve: "valid_pte ?e" by (simp add: or.assoc [symmetric])
    have v2: "vpte (mem s2) t va = (if vpn va = vpn a then Some ?e else vpte (mem s) t va)" if "va < MAXVA" for va
      using leaf_store_vpte [OF inv1 y(1) a that, of ?e] ve v1 y(2) by (simp add: s2_def vpn_def)
    have m2: "maps_range (mem s) (mem s2) t (vpn a) 1 pa perm"
      unfolding maps_range_def using v2 by auto
    have k: "keeps t s xs s2 ys" using keeps_trans [OF grows_keeps [OF ys] k2] .
    show ?thesis
    proof (cases "a = lastp")
      case True
      then show ?thesis
        using free False m2 k
        by (subst mappages_from.simps)
          (auto simp: w [unfolded True] s2_def [symmetric] Let_def intro!: exI [of _ ys] exI [of _ "1::nat"])
    next
      case ne: False
      have st: "unat (a + PGSIZE) = unat a + 4096" using alt by (simp add: unat_word_ariths)
      have ap: "page_aligned (a + PGSIZE)" using prems by (simp add: page_aligned_add)
      have vs: "vpn (a + PGSIZE) = Suc (vpn a)" using vpn_step prems st by blast
      have "vpn a \<noteq> vpn lastp"
        using ne prems aligned_vpn [of a] aligned_vpn [of lastp] by (auto simp: word_unat_eq_iff)
      then have lt: "vpn a < vpn lastp" using prems by simp
      have below: "va < MAXVA" if "vpn va \<le> vpn lastp" for va
      proof -
        have "unat lastp div 4096 < 0x4000000"
          using prems(5) by (intro less_mult_imp_div_less) (simp add: word_less_nat_alt)
        then have "unat va div 4096 < 0x4000000" using that by (simp add: vpn_def)
        then show ?thesis by (simp add: word_less_nat_alt div_less_iff_less_mult)
      qed
      have IH: "okR (mappages_from s2 t (a + PGSIZE) lastp (pa + PGSIZE) perm) (\<lambda>(r, s'). \<exists>zs k.
          keeps t s2 ys s' zs \<and> maps_range (mem s2) (mem s') t (vpn (a + PGSIZE)) k (pa + PGSIZE) perm \<and>
          (r = 0 \<and> k = Suc (vpn lastp - vpn (a + PGSIZE)) \<or> r = -1 \<and> k \<le> vpn lastp - vpn (a + PGSIZE) \<and> zs = []))"
        using w False free ne ap vs lt prems v2 below k2
        by (intro "1.IH" [OF w refl]) (auto simp: s2_def keeps_def)
      show ?thesis
        using free False ne
        apply (subst mappages_from.simps)
        apply (simp add: w s2_def [symmetric] Let_def)
        apply (rule okR_mono [OF IH])
        using vs lt m2 keeps_trans [OF k] maps_range_Suc [OF m2]
        by (fastforce simp: Suc_diff_Suc)
    qed
  qed
qed

section \<open>User addresses\<close>

text \<open>
  \<open>uaddr\<close> is the physical address of a user byte: the page must be mapped with \<^verbatim>\<open>PTE_U\<close>, and physical
  page 0 counts as not mapped, since \<^verbatim>\<open>walkaddr\<close> uses 0 for failure.
\<close>

definition uaddr :: "bytemem \<Rightarrow> u64 \<Rightarrow> u64 \<Rightarrow> u64 option" where
  "uaddr m t va =
     (if va \<ge> MAXVA then None
      else case vpte m t va of None \<Rightarrow> None
        | Some e \<Rightarrow> if e AND PTE_U = 0 \<or> PTE2PA e = 0 then None
            else Some (PTE2PA e + of_nat (unat va mod 4096)))"

definition waddr :: "bytemem \<Rightarrow> u64 \<Rightarrow> u64 \<Rightarrow> u64 option" where
  "waddr m t va =
     (case vpte m t va of None \<Rightarrow> None | Some e \<Rightarrow> if e AND PTE_W = 0 then None else uaddr m t va)"

lemma walk_noalloc:
  assumes "va < MAXVA"
  shows "walk s t va False =
    Ok (case tab (mem s) t (path 2 va) of None \<Rightarrow> 0 | Some y \<Rightarrow> pte_addr y (unat (PX 0 va)), s)"
  using assms by (simp add: walk_def walk_level_noalloc not_le [symmetric])

lemma walkaddr_spec:
  assumes inv: "pt_inv s t xs"
  shows "walkaddr s t va = Ok (if va \<ge> MAXVA then 0 else case vpte (mem s) t va of None \<Rightarrow> 0
    | Some e \<Rightarrow> if e AND PTE_U = 0 then 0 else PTE2PA e)"
proof (cases "va \<ge> MAXVA")
  case True
  then show ?thesis by (simp add: walkaddr_def)
next
  case False
  then have va: "va < MAXVA" by simp
  show ?thesis
  proof (cases "tab (mem s) t (path 2 va)")
    case None
    then show ?thesis using va by (simp add: walkaddr_def walk_noalloc vpte_def)
  next
    case (Some y)
    have "pte_addr y (unat (PX 0 va)) \<noteq> 0"
      using pte_addr_nonzero [OF inv tablesI [OF okpath_path Some] PX_less] by simp
    then show ?thesis
      using va Some by (auto simp: walkaddr_def walk_noalloc vpte_def pte_of_def valid_pte_def)
  qed
qed

lemma vpn_PGROUNDDOWN: "vpn (PGROUNDDOWN va) = vpn va"
  by (simp add: vpn_def unat_PGROUNDDOWN)

lemma vpte_page: "vpn va = vpn va' \<Longrightarrow> vpte m t va = vpte m t va'"
  using path_page [of va va'] by (auto simp: vpn_def vpte_def split: option.split)

lemma MAXVA_page: "vpn va = vpn va' \<Longrightarrow> va \<ge> MAXVA \<longleftrightarrow> va' \<ge> MAXVA"
proof -
  have "unat v < 0x4000000000 \<longleftrightarrow> vpn v < 0x4000000" for v
    by (simp add: vpn_def div_less_iff_less_mult)
  then show "vpn va = vpn va' \<Longrightarrow> va \<ge> MAXVA \<longleftrightarrow> va' \<ge> MAXVA"
    by (simp add: word_le_nat_alt not_less [symmetric])
qed

lemma map_upt_split:
  "n \<le> len \<Longrightarrow> map f [0..<len] = map f [0..<n] @ map (\<lambda>j. f (n + j)) [0..<len - n]"
  by (rule nth_equalityI) (auto simp: nth_append)

lemma all_less_split: "(n::nat) \<le> len \<Longrightarrow> (\<forall>i < len. P i) \<longleftrightarrow> (\<forall>i < n. P i) \<and> (\<forall>j < len - n. P (n + j))"
  by (metis add_diff_inverse_nat diff_less_mono less_diff_conv add.commute not_less trans_less_add1
      less_le_trans nat_add_left_cancel_less)

lemma in_chunk:
  assumes "va < MAXVA" and "i < chunk va len"
  shows "vpn (va + of_nat i) = vpn va \<and> unat (va + of_nat i) mod 4096 = unat va mod 4096 + i"
proof -
  have i: "unat va mod 4096 + i < 4096" using assms(2) by (auto simp: unat_chunk)
  then have "i < 4096" by simp
  then have eq: "unat (va + of_nat i) = unat va + i"
    using assms(1) by (simp add: unat_word_ariths word_less_nat_alt)
  have d: "unat va + i = unat va div 4096 * 4096 + (unat va mod 4096 + i)" by simp
  have "(unat va + i) div 4096 = unat va div 4096"
    unfolding d using i by (subst div_mult_self3) simp_all
  moreover have "(unat va + i) mod 4096 = unat va mod 4096 + i"
    unfolding d using i by (subst mod_mult_self3) (rule mod_less)
  ultimately show ?thesis by (simp add: vpn_def eq)
qed

lemma uaddr_chunk:
  assumes "i < chunk va len"
  shows "uaddr m t (va + of_nat i) = map_option (\<lambda>p. p + of_nat i) (uaddr m t va) \<or> va \<ge> MAXVA"
proof (cases "va \<ge> MAXVA")
  case False
  then have "va < MAXVA" by simp
  note c = in_chunk [OF this assms]
  show ?thesis
    using c MAXVA_page [of "va + of_nat i" va] vpte_page [of "va + of_nat i" va m t]
    by (auto simp: uaddr_def add.assoc split: option.split)
qed simp

lemma va_offset: "va - PGROUNDDOWN va = of_nat (unat va mod 4096)"
  by (simp add: word_unat_eq_iff offset_small)

lemma next_page:
  assumes "chunk va len < len"
  shows "PGROUNDDOWN va + PGSIZE = va + of_nat (chunk va len)"
proof -
  have c: "chunk va len + unat va mod 4096 = 4096" using assms by (auto simp: unat_chunk)
  have "(4096 :: u64) = of_nat (chunk va len + unat va mod 4096)" unfolding c by simp
  also have "\<dots> = of_nat (chunk va len) + (va - PGROUNDDOWN va)" by (simp add: va_offset)
  finally show ?thesis by (simp add: algebra_simps)
qed

lemma walkaddr_uaddr:
  assumes "pt_inv s t xs"
  shows "\<exists>pa. walkaddr s t (PGROUNDDOWN va) = Ok pa \<and>
    uaddr (mem s) t va = (if pa = 0 then None else Some (pa + (va - PGROUNDDOWN va)))"
proof -
  note p = vpn_PGROUNDDOWN [of va]
  show ?thesis
    using walkaddr_spec [OF assms, of "PGROUNDDOWN va"] MAXVA_page [OF p] vpte_page [OF p, of "mem s" t]
    by (auto simp: uaddr_def va_offset split: option.split)
qed

lemma copyin_spec:
  assumes "pt_inv s t xs"
  shows "okR (copyin s t va len) (\<lambda>(r, bs).
    if \<forall>i < len. uaddr (mem s) t (va + of_nat i) \<noteq> None
    then r = 0 \<and> bs = map (\<lambda>i. mem s (the (uaddr (mem s) t (va + of_nat i)))) [0..<len]
    else r = -1)"
  using assms
proof (induction s t va len rule: copyin.induct)
  case (1 s t va len)
  obtain pa where pa: "walkaddr s t (PGROUNDDOWN va) = Ok pa"
    "uaddr (mem s) t va = (if pa = 0 then None else Some (pa + (va - PGROUNDDOWN va)))"
    using walkaddr_uaddr [OF "1.prems"] by blast
  let ?n = "chunk va len"
  consider "len = 0" | "len \<noteq> 0" "pa = 0" | "len \<noteq> 0" "pa \<noteq> 0" by blast
  then show ?case
  proof cases
    case 1
    then show ?thesis by (subst copyin.simps) simp
  next
    case 2
    then have "\<not> (\<forall>i < len. uaddr (mem s) t (va + of_nat i) \<noteq> None)"
      using pa by (auto intro!: exI [of _ "0::nat"])
    then show ?thesis using 2 pa by (subst copyin.simps) (simp add: Let_def)
  next
    case 3
    have low: "\<not> va \<ge> MAXVA" using pa 3 by (auto simp: uaddr_def split: if_splits)
    have here: "uaddr (mem s) t (va + of_nat i) = Some (pa + (va - PGROUNDDOWN va) + of_nat i)"
      if "i < ?n" for i
      using uaddr_chunk [OF that, of "mem s" t] pa 3 low by simp
    have rest: "PGROUNDDOWN va + PGSIZE + of_nat j = va + of_nat (?n + j)" if "j < len - ?n" for j
      using next_page [of va len] that by (simp add: add.assoc)
    let ?f = "\<lambda>i. mem s (the (uaddr (mem s) t (va + of_nat i)))"
    have split: "map ?f [0..<len] = read_bytes (mem s) (pa + (va - PGROUNDDOWN va)) ?n @
        map (\<lambda>j. mem s (the (uaddr (mem s) t (PGROUNDDOWN va + PGSIZE + of_nat j)))) [0..<len - ?n]"
      unfolding map_upt_split [OF chunk_le, of ?f len va] 
      by (auto simp: read_bytes_def here rest simp del: of_nat_add)
    have all: "(\<forall>i < len. uaddr (mem s) t (va + of_nat i) \<noteq> None) \<longleftrightarrow>
        (\<forall>j < len - ?n. uaddr (mem s) t (PGROUNDDOWN va + PGSIZE + of_nat j) \<noteq> None)"
      unfolding all_less_split [OF chunk_le, of len _ va] by (auto simp: here rest simp del: of_nat_add)
    have IH: "okR (copyin s t (PGROUNDDOWN va + PGSIZE) (len - ?n)) (\<lambda>(r, bs).
        if \<forall>i < len - ?n. uaddr (mem s) t (PGROUNDDOWN va + PGSIZE + of_nat i) \<noteq> None
        then r = 0 \<and> bs = map (\<lambda>i. mem s (the (uaddr (mem s) t (PGROUNDDOWN va + PGSIZE + of_nat i)))) [0..<len - ?n]
        else r = -1)"
      using 3 by (intro "1.IH" [OF _ refl pa(1) _ refl refl "1.prems"]) simp_all
    show ?thesis
      unfolding all split using 3 pa(1)
      apply (subst copyin.simps)
      apply (simp add: Let_def)
      apply (rule okR_mono [OF IH])
      apply (auto split: if_splits)
      done
  qed
qed

section \<open>Writing user memory\<close>

text \<open>Writes outside the tables and the free pages change neither.\<close>

lemma page_aligned_PTE2PA [simp]: "page_aligned (PTE2PA e)"
  using unat_push_drop [of 12 "push_bit 2 (drop_bit 10 e) OR 0"]
proof -
  have "take_bit 12 (unat (PTE2PA e)) = 0"
    by (rule bit_eqI) (auto simp: bit_take_bit_iff bit_unsigned_iff bit_PTE2PA)
  then show ?thesis by (simp add: page_aligned_def take_bit_eq_mod)
qed

lemma data_write:
  assumes inv: "pt_inv s t xs"
    and out: "\<And>a p. p \<in> set xs \<union> tables (mem s) t \<Longrightarrow> unat (a - p) < 4096 \<Longrightarrow> m' a = mem s a"
  shows "pt_inv (s\<lparr>mem := m'\<rparr>) t xs \<and> tables m' t = tables (mem s) t \<and>
    (\<forall>va. vpte m' t va = vpte (mem s) t va)"
proof -
  have ld: "load64 m' (p + of_nat j) = load64 (mem s) (p + of_nat j)"
    if "p \<in> set xs \<union> tables (mem s) t" "j + 8 \<le> 4096" for p j
  proof -
    have "m' (p + of_nat j + of_nat i) = mem s (p + of_nat j + of_nat i)" if "i < 8" for i
    proof -
      have "p + of_nat j + of_nat i - p = (of_nat (j + i) :: u64)" by simp
      moreover have "unat (of_nat (j + i) :: u64) = j + i"
        using that \<open>j + 8 \<le> 4096\<close> by (intro unat_of_nat64) simp
      ultimately have "unat (p + of_nat j + of_nat i - p) < 4096"
        using that \<open>j + 8 \<le> 4096\<close> by simp
      then show ?thesis using out \<open>p \<in> _\<close> by blast
    qed
    then show ?thesis by (simp add: load64_def cong: read_bytes_cong)
  qed
  have ent: "pte_of m' p k = pte_of (mem s) p k" if "p \<in> tables (mem s) t" "k < 512" for p k
    unfolding pte_of_def pte_addr_def using that by (intro ld) auto
  have tb: "tab m' t js = tab (mem s) t js" if "okpath js" for js
    using that ent by (intro tab_cong) (auto intro: tablesI)
  have tbl: "tables m' t = tables (mem s) t" using tb by (auto simp: tables_def)
  have tr: "tree m' t" using inv tb unfolding pt_inv_def tree_def tbl by metis
  have "run_list m' (freelist s) xs"
    using inv run_list_cong [of xs m' "mem s"] ld [of _ 0] by (simp add: pt_inv_def free_pages_def)
  then have "pt_inv (s\<lparr>mem := m'\<rparr>) t xs"
    using inv tr tbl by (simp add: pt_inv_def free_pages_def page_ok_def)
  moreover have "vpte m' t va = vpte (mem s) t va" for va
    using tb [of "path 2 va"] ent tablesI [OF okpath_path, of 2 "mem s" t va] PX_less [of 0 va]
    by (auto simp: vpte_def okpath_path split: option.split)
  ultimately show ?thesis using tbl by blast
qed

definition user_ok :: "kmem \<Rightarrow> u64 \<Rightarrow> u64 list \<Rightarrow> bool" where
  "user_ok s t xs \<longleftrightarrow>
     (\<forall>va e. va < MAXVA \<and> vpte (mem s) t va = Some e \<and> e AND PTE_U \<noteq> 0 \<longrightarrow> PTE2PA e \<notin> set xs \<union> tables (mem s) t) \<and>
     (\<forall>va va' a. uaddr (mem s) t va = Some a \<and> uaddr (mem s) t va' = Some a \<longrightarrow> va = va')"

lemma in_page_write:
  assumes "page_aligned pa" and "page_aligned p" and "pa \<noteq> p" and "off + length bs \<le> 4096"
    and "unat (a - p) < 4096"
  shows "write_bytes m (pa + of_nat off) bs a = m a"
proof (cases "bs = []")
  case False
  have "disj (pa + of_nat off) (length bs) (p + of_nat (unat (a - p))) 1"
    using assms False by (intro disj_in_pages) (auto simp: Suc_le_eq)
  then have "length bs \<le> unat (p + of_nat (unat (a - p)) - (pa + of_nat off))"
    by (simp add: disj_def)
  then show ?thesis by (simp add: write_bytes_def)
qed simp

lemma user_ok_write:
  assumes inv: "pt_inv s t xs" and ok: "user_ok s t xs" and e: "va < MAXVA" "vpte (mem s) t va = Some e" "e AND PTE_U \<noteq> 0"
    and len: "off + length bs \<le> 4096"
  defines "m' \<equiv> write_bytes (mem s) (PTE2PA e + of_nat off) bs"
  shows "pt_inv (s\<lparr>mem := m'\<rparr>) t xs \<and> tables m' t = tables (mem s) t \<and>
    (\<forall>va. vpte m' t va = vpte (mem s) t va) \<and> user_ok (s\<lparr>mem := m'\<rparr>) t xs"
proof -
  have "m' a = mem s a" if "p \<in> set xs \<union> tables (mem s) t" "unat (a - p) < 4096" for a p
  proof -
    have "page_aligned p" using that inv tables_of_pt_inv [OF inv]
      by (auto simp: pt_inv_def free_pages_def page_ok_def)
    moreover have "PTE2PA e \<noteq> p" using ok e that by (auto simp: user_ok_def)
    ultimately show ?thesis unfolding m'_def using len that(2) by (intro in_page_write) auto
  qed
  then have d: "pt_inv (s\<lparr>mem := m'\<rparr>) t xs \<and> tables m' t = tables (mem s) t \<and>
      (\<forall>va. vpte m' t va = vpte (mem s) t va)"
    using data_write [OF inv] by blast
  then have "uaddr m' t va = uaddr (mem s) t va" for va by (simp add: uaddr_def)
  then show ?thesis using d ok by (auto simp: user_ok_def)
qed

lemma walk_walkaddr_waddr:
  assumes inv: "pt_inv s t xs" and va: "\<not> PGROUNDDOWN va \<ge> MAXVA"
  shows "\<exists>pte pa. walk s t (PGROUNDDOWN va) False = Ok (pte, s) \<and>
    walkaddr s t (PGROUNDDOWN va) = Ok pa \<and>
    waddr (mem s) t va = (if pte = 0 \<or> load64 (mem s) pte AND PTE_W = 0 \<or> pa = 0 then None
      else Some (pa + (va - PGROUNDDOWN va))) \<and>
    (pa \<noteq> 0 \<longrightarrow> (\<exists>e. vpte (mem s) t va = Some e \<and> e AND PTE_U \<noteq> 0 \<and> pa = PTE2PA e))"
proof -
  let ?v = "PGROUNDDOWN va"
  have v: "vpte (mem s) t va = vpte (mem s) t ?v" using vpte_page [OF vpn_PGROUNDDOWN] by simp
  have low: "\<not> va \<ge> MAXVA" using va MAXVA_page [OF vpn_PGROUNDDOWN] by simp
  have lt: "?v < MAXVA" using va by simp
  obtain pa where pa: "walkaddr s t ?v = Ok pa"
    "uaddr (mem s) t va = (if pa = 0 then None else Some (pa + (va - ?v)))"
    using walkaddr_uaddr [OF inv] by blast
  have e: "\<exists>e. vpte (mem s) t va = Some e \<and> e AND PTE_U \<noteq> 0 \<and> pa = PTE2PA e" if "pa \<noteq> 0"
    using that pa(1) walkaddr_spec [OF inv, of ?v] va v by (auto split: option.splits if_splits)
  show ?thesis
  proof (cases "tab (mem s) t (path 2 ?v)")
    case None
    then have "vpte (mem s) t va = None" unfolding v by (simp add: vpte_def)
    then show ?thesis using walk_noalloc [OF lt, of s t] None pa e by (auto simp: waddr_def)
  next
    case (Some y)
    let ?p = "pte_addr y (unat (PX 0 ?v))"
    have "?p \<noteq> 0" using pte_addr_nonzero [OF inv tablesI [OF okpath_path Some] PX_less] by simp
    moreover have "vpte (mem s) t va = (if valid_pte (load64 (mem s) ?p) then Some (load64 (mem s) ?p) else None)"
      unfolding v using load_vpte [OF Some] by simp
    ultimately show ?thesis
      using walk_noalloc [OF lt, of s t] Some pa e low
      by (auto simp: waddr_def uaddr_def split: if_splits)
  qed
qed

text \<open>What \<^verbatim>\<open>copyout\<close> may have done when it returns \<open>r\<close>.\<close>

definition copied_out :: "kmem \<Rightarrow> u64 \<Rightarrow> u64 list \<Rightarrow> u64 \<Rightarrow> u8 list \<Rightarrow> int \<Rightarrow> kmem \<Rightarrow> bool" where
  "copied_out s t xs va src r s' \<longleftrightarrow>
     pt_inv s' t xs \<and> user_ok s' t xs \<and> (\<forall>v. vpte (mem s') t v = vpte (mem s) t v) \<and>
     freelist s' = freelist s \<and> kend s' = kend s \<and> tables (mem s') t = tables (mem s) t \<and>
     (\<forall>a. (\<forall>i < length src. waddr (mem s) t (va + of_nat i) \<noteq> Some a) \<longrightarrow> mem s' a = mem s a) \<and>
     (if \<forall>i < length src. waddr (mem s) t (va + of_nat i) \<noteq> None
      then r = 0 \<and> (\<forall>i < length src. mem s' (the (waddr (mem s) t (va + of_nat i))) = src ! i)
      else r = -1)"

lemma waddr_cong:
  "(\<And>v. vpte m' t v = vpte m t v) \<Longrightarrow> waddr m' t v = waddr m t v"
  by (auto simp: waddr_def uaddr_def split: option.split)

lemma waddr_uaddr: "waddr m t va = Some a \<Longrightarrow> uaddr m t va = Some a"
  by (auto simp: waddr_def split: option.splits if_splits)

lemma waddr_chunk:
  assumes "i < chunk va len" and "waddr m t va \<noteq> None"
  shows "waddr m t (va + of_nat i) = map_option (\<lambda>p. p + of_nat i) (waddr m t va)"
proof -
  have low: "\<not> va \<ge> MAXVA" using assms(2) by (auto simp: waddr_def uaddr_def split: option.splits if_splits)
  then have "va < MAXVA" by simp
  then have "vpte m t (va + of_nat i) = vpte m t va"
    using in_chunk [OF _ assms(1)] by (intro vpte_page) blast
  then show ?thesis
    using uaddr_chunk [OF assms(1), of m t] low by (auto simp: waddr_def split: option.split)
qed

lemma of_nat_add_cancel:
  "i < 2 ^ 64 \<Longrightarrow> j < 2 ^ 64 \<Longrightarrow> (va :: u64) + of_nat i = va + of_nat j \<Longrightarrow> i = j"
  by (metis add_left_cancel unat_of_nat64)

text \<open>One chunk, and the rest of the copy after it.\<close>

lemma copied_out_step:
  assumes inv: "pt_inv s t xs" and ok: "user_ok s t xs" and len: "length src < 2 ^ 64" and ne: "src \<noteq> []"
    and e: "va < MAXVA" "vpte (mem s) t va = Some e" "e AND PTE_U \<noteq> 0"
    and w: "waddr (mem s) t va = Some (PTE2PA e + (va - PGROUNDDOWN va))"
  defines "n \<equiv> chunk va (length src)"
  defines "s1 \<equiv> s\<lparr>mem := write_bytes (mem s) (PTE2PA e + (va - PGROUNDDOWN va)) (take n src)\<rparr>"
  assumes rest: "copied_out s1 t xs (PGROUNDDOWN va + PGSIZE) (drop n src) r s'"
  shows "copied_out s t xs va src r s'"
proof -
  have off: "va - PGROUNDDOWN va = of_nat (unat va mod 4096)" by (rule va_offset)
  have nl: "n \<le> length src" by (simp add: n_def chunk_le)
  have "unat va mod 4096 + length (take n src) \<le> 4096" using nl by (auto simp: n_def unat_chunk)
  note w1 = user_ok_write [OF inv ok e this, folded off, folded s1_def]
  have s1: "mem s1 = write_bytes (mem s) (PTE2PA e + (va - PGROUNDDOWN va)) (take n src)"
    "freelist s1 = freelist s" "kend s1 = kend s" by (simp_all add: s1_def)
  have wa: "waddr (mem s1) t v = waddr (mem s) t v" for v
    using w1 s1 by (intro waddr_cong) simp
  have here: "waddr (mem s) t (va + of_nat i) = Some (PTE2PA e + (va - PGROUNDDOWN va) + of_nat i)"
    if "i < n" for i
    using waddr_chunk [of i va "length src" "mem s" t] that w by (simp add: n_def)
  have next_eq: "PGROUNDDOWN va + PGSIZE + of_nat j = va + of_nat (n + j)" if "j < length src - n" for j
    using next_page [of va "length src"] that by (simp add: n_def add.assoc)
  have n64: "n < 2 ^ 64" using nl len by simp
  have frame: "mem s' a = mem s a" if "\<And>i. i < length src \<Longrightarrow> waddr (mem s) t (va + of_nat i) \<noteq> Some a" for a
  proof -
    have "mem s' a = mem s1 a"
      using rest that nl unfolding copied_out_def wa
      by (auto simp: next_eq simp del: of_nat_add)
    moreover have "mem s1 a = mem s a"
    proof (cases "unat (a - (PTE2PA e + (va - PGROUNDDOWN va))) < n")
      case True
      then show ?thesis using here [OF True] that [of "unat (a - (PTE2PA e + (va - PGROUNDDOWN va)))"] nl
        by simp
    next
      case False
      then show ?thesis using nl by (simp add: s1 write_bytes_def)
    qed
    ultimately show ?thesis by simp
  qed
  have all: "(\<forall>i < length src. waddr (mem s) t (va + of_nat i) \<noteq> None) \<longleftrightarrow>
      (\<forall>j < length (drop n src). waddr (mem s1) t (PGROUNDDOWN va + PGSIZE + of_nat j) \<noteq> None)"
    unfolding all_less_split [OF nl] wa by (auto simp: here next_eq simp del: of_nat_add)
  have content: "mem s' (the (waddr (mem s) t (va + of_nat i))) = src ! i"
    if all_ok: "\<forall>i < length src. waddr (mem s) t (va + of_nat i) \<noteq> None" and i: "i < length src" for i
  proof (cases "i < n")
    case True
    let ?a = "PTE2PA e + (va - PGROUNDDOWN va) + of_nat i"
    have "waddr (mem s1) t (PGROUNDDOWN va + PGSIZE + of_nat j) \<noteq> Some ?a"
      if j: "j < length (drop n src)" for j
    proof
      assume "waddr (mem s1) t (PGROUNDDOWN va + PGSIZE + of_nat j) = Some ?a"
      then have "uaddr (mem s) t (va + of_nat (n + j)) = Some ?a"
        using j by (intro waddr_uaddr) (simp add: wa next_eq del: of_nat_add)
      moreover have "uaddr (mem s) t (va + of_nat i) = Some ?a"
        using here [OF True] by (rule waddr_uaddr)
      ultimately have "va + of_nat (n + j) = va + of_nat i" using ok unfolding user_ok_def by blast
      then have "n + j = i" using j len i by (intro of_nat_add_cancel) auto
      then show False using True by simp
    qed
    then have "mem s' ?a = mem s1 ?a" using rest unfolding copied_out_def by blast
    also have "\<dots> = src ! i" using True nl n64 by (simp add: s1 write_bytes_def)
    finally show ?thesis using here [OF True] by simp
  next
    case False
    then obtain j where j: "i = n + j" "j < length src - n" using i
      by (metis add_diff_inverse_nat diff_less_mono not_less)
    then show ?thesis
      using rest all all_ok unfolding copied_out_def wa
      by (auto simp: next_eq simp del: of_nat_add)
  qed
  show ?thesis
    unfolding copied_out_def
    using rest w1 s1 frame all content unfolding copied_out_def by auto
qed

lemma copyout_spec:
  assumes "pt_inv s t xs" and "user_ok s t xs" and "length src < 2 ^ 64"
  shows "okR (copyout s t va src) (\<lambda>(r, s'). copied_out s t xs va src r s')"
  using assms
proof (induction s t va src rule: copyout.induct)
  case (1 s t va src)
  note inv = "1.prems"(1) and ok = "1.prems"(2) and len = "1.prems"(3)
  have stop: "copied_out s t xs va src (-1) s" if "src \<noteq> []" "waddr (mem s) t va = None"
    using that inv ok by (auto simp: copied_out_def intro!: exI [of _ "0::nat"])
  show ?case
  proof (cases "src = []")
    case True
    then show ?thesis using inv ok by (subst copyout.simps) (simp add: copied_out_def)
  next
    case ne: False
    show ?thesis
    proof (cases "PGROUNDDOWN va \<ge> MAXVA")
      case True
      then have "va \<ge> MAXVA" using MAXVA_page [OF vpn_PGROUNDDOWN] by simp
      then have "waddr (mem s) t va = None" by (simp add: waddr_def uaddr_def split: option.split)
      then show ?thesis using True ne stop by (subst copyout.simps) (simp add: Let_def)
    next
      case False
      obtain pte pa where p: "walk s t (PGROUNDDOWN va) False = Ok (pte, s)"
        "walkaddr s t (PGROUNDDOWN va) = Ok pa"
        "waddr (mem s) t va = (if pte = 0 \<or> load64 (mem s) pte AND PTE_W = 0 \<or> pa = 0 then None
          else Some (pa + (va - PGROUNDDOWN va)))"
        "pa \<noteq> 0 \<longrightarrow> (\<exists>e. vpte (mem s) t va = Some e \<and> e AND PTE_U \<noteq> 0 \<and> pa = PTE2PA e)"
        using walk_walkaddr_waddr [OF inv False] by blast
      show ?thesis
      proof (cases "pte = 0 \<or> load64 (mem s) pte AND PTE_W = 0 \<or> pa = 0")
        case True
        then show ?thesis using p False ne stop by (subst copyout.simps) (auto simp: Let_def)
      next
        case go: False
        then obtain e where e: "va < MAXVA" "vpte (mem s) t va = Some e" "e AND PTE_U \<noteq> 0" "pa = PTE2PA e"
          using p(4) False MAXVA_page [OF vpn_PGROUNDDOWN, of va] by auto
        let ?n = "chunk va (length src)"
        let ?s = "s\<lparr>mem := write_bytes (mem s) (pa + (va - PGROUNDDOWN va)) (take ?n src)\<rparr>"
        have "unat va mod 4096 + length (take ?n src) \<le> 4096" by (auto simp: unat_chunk)
        then have w1: "pt_inv ?s t xs \<and> user_ok ?s t xs"
          using user_ok_write [OF inv ok e(1-3), of "unat va mod 4096" "take ?n src"] va_offset [of va] e(4) by simp
        have "okR (copyout ?s t (PGROUNDDOWN va + PGSIZE) (drop ?n src))
            (\<lambda>(r, s'). copied_out ?s t xs (PGROUNDDOWN va + PGSIZE) (drop ?n src) r s')"
          using ne False go len w1
          by (intro "1.IH" [OF _ refl _ p(1) refl _ _ p(2) _ refl refl]) auto
        then have "okR (copyout ?s t (PGROUNDDOWN va + PGSIZE) (drop ?n src))
            (\<lambda>(r, s'). copied_out s t xs va src r s')"
          by (rule okR_mono) (use copied_out_step [OF inv ok len ne e(1-3)] p(3) go e(4) in auto)
        then show ?thesis
          using p(1,2) False ne go by (subst copyout.simps) (simp add: Let_def)
      qed
    qed
  qed
qed

section \<open>Strings from user space\<close>

lemma copyinstr_page_eq:
  "copyinstr_page m p n =
     (if \<exists>i < n. m (p + of_nat i) = 0
      then (takeWhile (\<lambda>b. b \<noteq> 0) (read_bytes m p n) @ [0], True)
      else (read_bytes m p n, False))"
proof (induction n arbitrary: p)
  case 0
  then show ?case by (simp add: read_bytes_def)
next
  case (Suc n)
  have "(\<exists>i < Suc n. m (p + of_nat i) = 0) \<longleftrightarrow> m p = 0 \<or> (\<exists>i < n. m (p + 1 + of_nat i) = 0)"
    by (simp add: Ex_less_Suc2 add.assoc)
  then show ?case using Suc.IH [of "p + 1"] by (auto simp: read_bytes_Suc)
qed

definition ubyte :: "bytemem \<Rightarrow> u64 \<Rightarrow> u64 \<Rightarrow> u8" where
  "ubyte m t va = m (the (uaddr m t va))"

text \<open>A string of \<open>n\<close> bytes and its NUL lie at the user address \<open>va\<close>.\<close>

definition ustring :: "bytemem \<Rightarrow> u64 \<Rightarrow> u64 \<Rightarrow> nat \<Rightarrow> bool" where
  "ustring m t va n \<longleftrightarrow> (\<forall>i \<le> n. uaddr m t (va + of_nat i) \<noteq> None) \<and>
     (\<forall>i < n. ubyte m t (va + of_nat i) \<noteq> 0) \<and> ubyte m t (va + of_nat n) = 0"

lemma ustring_unique: "ustring m t va n \<Longrightarrow> ustring m t va k \<Longrightarrow> n = k"
  unfolding ustring_def by (metis linorder_neqE_nat)

definition string_in :: "kmem \<Rightarrow> u64 \<Rightarrow> u64 \<Rightarrow> nat \<Rightarrow> int \<Rightarrow> u8 list \<Rightarrow> bool" where
  "string_in s t va limit r bs \<longleftrightarrow>
     (r = 0 \<and> (\<exists>n < limit. ustring (mem s) t va n \<and> bs = map (\<lambda>i. ubyte (mem s) t (va + of_nat i)) [0..<Suc n])) \<or>
     (r = -1 \<and> (\<forall>n < limit. \<not> ustring (mem s) t va n))"

lemma string_in_skip:
  assumes here: "\<And>i. i < c \<Longrightarrow> uaddr (mem s) t (va + of_nat i) \<noteq> None \<and> ubyte (mem s) t (va + of_nat i) \<noteq> 0"
    and rest: "\<And>j. j < limit - c \<Longrightarrow> w + of_nat j = va + of_nat (c + j)"
    and c: "c \<le> limit" and s: "string_in s t w (limit - c) r bs"
  shows "string_in s t va limit r (map (\<lambda>i. ubyte (mem s) t (va + of_nat i)) [0..<c] @ bs)"
proof -
  have us: "ustring (mem s) t va (c + j) \<longleftrightarrow> ustring (mem s) t w j" if j: "j < limit - c" for j
  proof -
    have "(\<forall>i \<le> c + j. P i) \<longleftrightarrow> (\<forall>i < c. P i) \<and> (\<forall>i \<le> j. P (c + i))" for P
      using all_less_split [of c "Suc (c + j)" P] by (simp add: less_Suc_eq_le Suc_diff_le)
    moreover have "(\<forall>i < c + j. P i) \<longleftrightarrow> (\<forall>i < c. P i) \<and> (\<forall>i < j. P (c + i))" for P
      using all_less_split [of c "c + j" P] by simp
    moreover have "va + of_nat (c + i) = w + of_nat i" if "i \<le> j" for i
      using rest [of i] that j by simp
    ultimately show ?thesis
      unfolding ustring_def using here by (auto simp del: of_nat_add)
  qed
  have past: "c \<le> n" if "ustring (mem s) t va n" for n
    using that here [of n] unfolding ustring_def by (metis not_le)
  show ?thesis
    using s unfolding string_in_def
  proof (elim disjE conjE exE)
    fix n
    assume a: "r = 0" "n < limit - c" "ustring (mem s) t w n"
      "bs = map (\<lambda>i. ubyte (mem s) t (w + of_nat i)) [0..<Suc n]"
    have "map (\<lambda>i. ubyte (mem s) t (va + of_nat i)) [0..<c] @ bs =
        map (\<lambda>i. ubyte (mem s) t (va + of_nat i)) [0..<Suc (c + n)]"
      using map_upt_split [of c "Suc (c + n)" "\<lambda>i. ubyte (mem s) t (va + of_nat i)"] rest a(2)
      by (simp add: a(4) Suc_diff_le del: of_nat_add upt_Suc)
    then have "c + n < limit \<and> ustring (mem s) t va (c + n) \<and>
        map (\<lambda>i. ubyte (mem s) t (va + of_nat i)) [0..<c] @ bs =
        map (\<lambda>i. ubyte (mem s) t (va + of_nat i)) [0..<Suc (c + n)]"
      using us a by simp
    then show "r = 0 \<and> (\<exists>n < limit. ustring (mem s) t va n \<and>
        map (\<lambda>i. ubyte (mem s) t (va + of_nat i)) [0..<c] @ bs = map (\<lambda>i. ubyte (mem s) t (va + of_nat i)) [0..<Suc n]) \<or>
        r = -1 \<and> (\<forall>n < limit. \<not> ustring (mem s) t va n)"
      using a(1) by blast
  next
    assume a: "r = -1" "\<forall>n < limit - c. \<not> ustring (mem s) t w n"
    have "\<not> ustring (mem s) t va n" if "n < limit" for n
      using past [of n] us [of "n - c"] a(2) that diff_less_mono [of n limit c] by auto
    then show "r = 0 \<and> (\<exists>n < limit. ustring (mem s) t va n \<and>
        map (\<lambda>i. ubyte (mem s) t (va + of_nat i)) [0..<c] @ bs = map (\<lambda>i. ubyte (mem s) t (va + of_nat i)) [0..<Suc n]) \<or>
        r = -1 \<and> (\<forall>n < limit. \<not> ustring (mem s) t va n)"
      using a(1) by blast
  qed
qed

lemma takeWhile_first_zero:
  assumes "k < n" and "m (p + of_nat k) = 0" and "\<And>i. i < k \<Longrightarrow> m (p + of_nat i) \<noteq> 0"
  shows "takeWhile (\<lambda>b. b \<noteq> 0) (read_bytes m p n) @ [0] = read_bytes m p (Suc k)"
proof -
  have "takeWhile (\<lambda>b. b \<noteq> 0) (read_bytes m p n) = take k (read_bytes m p n)"
    using assms by (intro takeWhile_eq_take_P_nth) auto
  also have "\<dots> = read_bytes m p k" using assms(1) by (intro nth_equalityI) auto
  finally show ?thesis using assms(2) by (simp add: read_bytes_snoc)
qed

lemma copyinstr_spec:
  assumes "pt_inv s t xs"
  shows "okR (copyinstr s t va limit) (\<lambda>(r, bs). r = 0 \<and> string_in s t va limit r bs \<or>
    r = -1 \<and> string_in s t va limit r [])"
  using assms
proof (induction s t va limit rule: copyinstr.induct)
  case (1 s t va limit)
  obtain pa where pa: "walkaddr s t (PGROUNDDOWN va) = Ok pa"
    "uaddr (mem s) t va = (if pa = 0 then None else Some (pa + (va - PGROUNDDOWN va)))"
    using walkaddr_uaddr [OF "1.prems"] by blast
  let ?c = "chunk va limit" and ?p = "pa + (va - PGROUNDDOWN va)"
  consider "limit = 0" | "limit \<noteq> 0" "pa = 0" | "limit \<noteq> 0" "pa \<noteq> 0" by blast
  then show ?case
  proof cases
    case 1
    then show ?thesis by (subst copyinstr.simps) (simp add: string_in_def)
  next
    case 2
    then have "\<not> ustring (mem s) t va n" for n
      using pa by (auto simp: ustring_def intro!: exI [of _ "0::nat"])
    then show ?thesis using 2 pa by (subst copyinstr.simps) (simp add: Let_def string_in_def)
  next
    case 3
    have low: "\<not> va \<ge> MAXVA" using pa 3 by (auto simp: uaddr_def split: if_splits)
    have here: "uaddr (mem s) t (va + of_nat i) = Some (?p + of_nat i)" if "i < ?c" for i
      using uaddr_chunk [OF that, of "mem s" t] pa 3 low by simp
    then have hb: "ubyte (mem s) t (va + of_nat i) = mem s (?p + of_nat i)" if "i < ?c" for i
      using that by (simp add: ubyte_def)
    show ?thesis
    proof (cases "\<exists>i < ?c. mem s (?p + of_nat i) = 0")
      case True
      define k where "k = (LEAST i. mem s (?p + of_nat i) = 0)"
      have k: "mem s (?p + of_nat k) = 0" "\<And>i. i < k \<Longrightarrow> mem s (?p + of_nat i) \<noteq> 0" "k < ?c"
        using True LeastI_ex [of "\<lambda>i. mem s (?p + of_nat i) = 0"]
          Least_le [of "\<lambda>i. mem s (?p + of_nat i) = 0"] not_less_Least [of _ "\<lambda>i. mem s (?p + of_nat i) = 0"]
        unfolding k_def by (auto intro: le_less_trans)
      have "ustring (mem s) t va k" unfolding ustring_def using k here hb by auto
      moreover have "map (\<lambda>i. ubyte (mem s) t (va + of_nat i)) [0..<Suc k] = read_bytes (mem s) ?p (Suc k)"
        unfolding read_bytes_def using k hb by (intro map_cong) auto
      moreover have "k < limit" using k(3) chunk_le [of va limit] by simp
      ultimately have "string_in s t va limit 0 (takeWhile (\<lambda>b. b \<noteq> 0) (read_bytes (mem s) ?p ?c) @ [0])"
        using takeWhile_first_zero [where m = "mem s", OF k(3,1,2)] unfolding string_in_def by auto
      then show ?thesis
        using 3 pa(1) True by (subst copyinstr.simps) (simp add: Let_def copyinstr_page_eq)
    next
      case False
      have rest: "PGROUNDDOWN va + PGSIZE + of_nat j = va + of_nat (?c + j)" if "j < limit - ?c" for j
        using next_page [of va limit] that by (simp add: add.assoc)
      have IH: "okR (copyinstr s t (PGROUNDDOWN va + PGSIZE) (limit - ?c)) (\<lambda>(r, bs).
          r = 0 \<and> string_in s t (PGROUNDDOWN va + PGSIZE) (limit - ?c) r bs \<or>
          r = -1 \<and> string_in s t (PGROUNDDOWN va + PGSIZE) (limit - ?c) r [])"
        using 3 False
        by (intro "1.IH" [OF _ refl pa(1) _ refl _ refl _ "1.prems"]) (auto simp: copyinstr_page_eq)
      have "read_bytes (mem s) ?p ?c = map (\<lambda>i. ubyte (mem s) t (va + of_nat i)) [0..<?c]"
        unfolding read_bytes_def using hb by (intro map_cong) auto
      moreover have "string_in s t va limit r (map (\<lambda>i. ubyte (mem s) t (va + of_nat i)) [0..<?c] @ bs)"
        if "string_in s t (PGROUNDDOWN va + PGSIZE) (limit - ?c) r bs" for r bs
        using False here hb rest that by (intro string_in_skip [OF _ _ chunk_le]) auto
      ultimately have conv: "r = 0 \<and> string_in s t va limit r (read_bytes (mem s) ?p ?c @ bs) \<or>
          r = -1 \<and> string_in s t va limit r []"
        if "r = 0 \<and> string_in s t (PGROUNDDOWN va + PGSIZE) (limit - ?c) r bs \<or>
          r = -1 \<and> string_in s t (PGROUNDDOWN va + PGSIZE) (limit - ?c) r []" for r bs
        using that by (fastforce simp: string_in_def)
      have "okR (copyinstr s t (PGROUNDDOWN va + PGSIZE) (limit - ?c)) (\<lambda>(r, bs).
          r = 0 \<and> string_in s t va limit r (read_bytes (mem s) ?p ?c @ bs) \<or>
          r = -1 \<and> string_in s t va limit r [])"
        by (rule okR_mono [OF IH]) (use conv in \<open>simp add: split_beta\<close>)
      then show ?thesis
        using 3 pa(1) False
        by (subst copyinstr.simps) (auto simp: Let_def copyinstr_page_eq case_prod_beta')
    qed
  qed
qed

section \<open>A small address space\<close>

text \<open>One user page: virtual page 0 is mapped to physical page \<open>0x80004000\<close>.\<close>

lemma tree_zero: "page_aligned t \<Longrightarrow> tables (\<lambda>_. 0) t = {t} \<and> tree (\<lambda>_. 0) t"
proof -
  assume t: "page_aligned t"
  have z: "pte_of (\<lambda>_. 0) x i = 0" for x i
    using le_word_zeros [of 8] by (simp add: pte_of_def load64_def read_bytes_def map_replicate_const)
  have tb: "tab (\<lambda>_. 0) t js = (if js = [] then Some t else None)" for js
    by (cases js) (auto simp: z)
  then have "tables (\<lambda>_. 0) t = {t}" by (auto simp: tables_def okpath_def)
  then show ?thesis using t by (auto simp: tree_def tb split: if_splits)
qed

definition mem_user :: bytemem where
  "mem_user = hang (hang (\<lambda>_. 0) 0x80005000 0 0x80006000) 0x80006000 0 0x80007000"

definition kmem_user :: kmem where
  "kmem_user = \<lparr>mem = store64 mem_user (pte_addr 0x80007000 0) (PA2PTE 0x80004000 OR 0x16 OR PTE_V),
     freelist = 0, kend = 0x80001234\<rparr>"

lemma aligned_examples:
  "page_aligned 0x80004000" "page_aligned 0x80005000" "page_aligned 0x80006000" "page_aligned 0x80007000"
  by (simp_all add: page_aligned_def)

lemma tab_zero: "tab (\<lambda>_. 0) t js = (if js = [] then Some t else None)"
proof -
  have "pte_of (\<lambda>_. 0) x i = 0" for x i
    using le_word_zeros [of 8] by (simp add: pte_of_def load64_def read_bytes_def map_replicate_const)
  then show ?thesis by (cases js) auto
qed

lemma mem_user_tables:
  "tree mem_user 0x80005000" "tables mem_user 0x80005000 = {0x80005000, 0x80006000, 0x80007000}"
  "okpath js \<Longrightarrow> tab mem_user 0x80005000 js = (if js = [0, 0] then Some 0x80007000
     else if js = [0] then Some 0x80006000 else if js = [] then Some 0x80005000 else None)"
proof -
  let ?r = "0x80005000 :: u64" and ?m1 = "hang (\<lambda>_. 0) 0x80005000 0 0x80006000"
  have z: "pte_of (\<lambda>_. 0) x i = 0" for x i
    using le_word_zeros [of 8] by (simp add: pte_of_def load64_def read_bytes_def map_replicate_const)
  have h: "tree (\<lambda>_. 0) ?r" "page_aligned 0x80006000" "0x80006000 \<notin> tables (\<lambda>_. 0) ?r"
    "okpath ([] @ [0])" "tab (\<lambda>_. 0) ?r [] = Some ?r" "\<not> valid_pte (pte_of (\<lambda>_. 0) ?r 0)"
    using tree_zero [of ?r] aligned_examples by (simp_all add: okpath_def z)
  have e1: "\<not> valid_pte (pte_of ?m1 0x80006000 0)"
    using hang_entries [of ?r "0x80006000" "0x80006000" 0 0 "\<lambda>_. 0"] aligned_examples by simp
  have h1: "tree ?m1 ?r" "page_aligned 0x80007000" "0x80007000 \<notin> tables ?m1 ?r"
    "okpath ([0] @ [0])" "tab ?m1 ?r [0] = Some 0x80006000" "\<not> valid_pte (pte_of ?m1 0x80006000 0)"
    using hang_tree [OF h] hang_tables [OF h] hang_tab [OF h, of "[0]"] tree_zero [of ?r] e1 aligned_examples
    by (simp_all add: okpath_def)
  show "tree mem_user ?r" "tables mem_user ?r = {0x80005000, 0x80006000, 0x80007000}"
    using hang_tree [OF h1] hang_tables [OF h1] hang_tables [OF h] tree_zero [of ?r] aligned_examples
    by (auto simp: mem_user_def)
  show "okpath js \<Longrightarrow> tab mem_user ?r js = (if js = [0, 0] then Some 0x80007000
     else if js = [0] then Some 0x80006000 else if js = [] then Some 0x80005000 else None)"
    using hang_tab [OF h1, of js] hang_tab [OF h, of js] by (simp add: mem_user_def tab_zero)
qed

lemma path_zero: "path 2 0 = [0, 0]" "PX 0 0 = 0"
  by (simp_all add: numeral_2_eq_2 PX_def)

lemma mem_user_vpte: "vpte mem_user 0x80005000 va = None"
proof -
  have "pte_of mem_user 0x80007000 (unat (PX 0 va)) = 0"
    using hang_entries [of "0x80006000" "0x80007000" "0x80007000" 0 "unat (PX 0 va)"] PX_less [of 0 va]
    by (simp add: mem_user_def aligned_examples)
  then show ?thesis
    using mem_user_tables(3) [OF okpath_path, of 2 va]
    by (auto simp: vpte_def numeral_2_eq_2)
qed

lemma kmem_user_inv:
  "pt_inv kmem_user 0x80005000 []"
  "va < MAXVA \<Longrightarrow> vpte (mem kmem_user) 0x80005000 va =
     (if vpn va = 0 then Some (PA2PTE 0x80004000 OR 0x16 OR PTE_V) else None)"
  "tables (mem kmem_user) 0x80005000 = {0x80005000, 0x80006000, 0x80007000}"
proof -
  let ?s = "\<lparr>mem = mem_user, freelist = 0, kend = 0x80001234\<rparr>" and ?r = "0x80005000 :: u64"
  have inv: "pt_inv ?s ?r []"
    using mem_user_tables by (auto simp: pt_inv_def free_pages_def page_ok_def aligned_examples)
  have t: "tab (mem ?s) ?r (path 2 0) = Some 0x80007000"
    using mem_user_tables(3) [of "[0, 0]"] by (simp add: path_zero okpath_def)
  have k: "keeps ?r ?s [] kmem_user []"
    using leaf_store_keeps [OF inv okpath_path length_path t, of 0 "PA2PTE 0x80004000 OR 0x16 OR PTE_V"]
    by (simp add: kmem_user_def)
  then show "pt_inv kmem_user ?r []" by (simp add: keeps_def)
  show "tables (mem kmem_user) ?r = {0x80005000, 0x80006000, 0x80007000}"
    using k mem_user_tables(2) by (simp add: keeps_def)
  have "valid_pte (PA2PTE 0x80004000 OR 0x16 OR PTE_V)"
    unfolding or.assoc [symmetric] by (rule valid_entry)
  then show "va < MAXVA \<Longrightarrow> vpte (mem kmem_user) ?r va =
     (if vpn va = 0 then Some (PA2PTE 0x80004000 OR 0x16 OR PTE_V) else None)"
    using leaf_store_vpte [OF inv t, of va "PA2PTE 0x80004000 OR 0x16 OR PTE_V"] mem_user_vpte [of va]
    by (simp add: kmem_user_def path_zero vpn_def)
qed

lemma kmem_user_addr:
  "uaddr (mem kmem_user) 0x80005000 va = (if vpn va = 0 then Some (0x80004000 + va) else None)"
  "waddr (mem kmem_user) 0x80005000 va = (if vpn va = 0 then Some (0x80004000 + va) else None)"
proof -
  have e: "(PA2PTE 0x80004000 OR 0x16 OR PTE_V) AND PTE_U \<noteq> 0" "(PA2PTE 0x80004000 OR 0x16 OR PTE_V) AND PTE_W \<noteq> 0"
    "PTE2PA (PA2PTE 0x80004000 OR 0x16 OR PTE_V) = 0x80004000"
    using PTE2PA_entry [OF aligned_examples(1), of "0x16"] by (simp_all add: PA2PTE_def)
  have low: "va < MAXVA" if "vpn va = 0"
    using that by (simp add: vpn_def word_less_nat_alt div_eq_0_iff)
  show a: "uaddr (mem kmem_user) 0x80005000 va = (if vpn va = 0 then Some (0x80004000 + va) else None)"
    using kmem_user_inv(2) [of va] e low
    by (auto simp: uaddr_def vpn_def div_eq_0_iff)
  show "waddr (mem kmem_user) 0x80005000 va = (if vpn va = 0 then Some (0x80004000 + va) else None)"
  proof (cases "va < MAXVA")
    case True
    then show ?thesis using kmem_user_inv(2) [OF True] e a by (auto simp: waddr_def)
  next
    case False
    then show ?thesis using low by (auto simp: waddr_def uaddr_def split: option.split)
  qed
qed

lemma kmem_user_ok: "user_ok kmem_user 0x80005000 []"
  unfolding user_ok_def kmem_user_inv(3)
proof (intro conjI allI impI)
  fix va e
  assume "va < MAXVA \<and> vpte (mem kmem_user) 0x80005000 va = Some e \<and> e AND PTE_U \<noteq> 0"
  then have "PTE2PA e = 0x80004000"
    using PTE2PA_entry [OF aligned_examples(1), of "0x16"] by (auto simp: kmem_user_inv split: if_splits)
  then show "PTE2PA e \<notin> set [] \<union> {0x80005000, 0x80006000, 0x80007000}" by simp
qed (auto simp: kmem_user_addr split: if_splits)

section \<open>Properties\<close>

text \<open>
  C28: \<^verbatim>\<open>walk\<close> with \<^verbatim>\<open>alloc\<close> set never panics below \<^verbatim>\<open>MAXVA\<close> and changes no translation: it only takes
  pages off the free list and hangs them, zeroed, into the tree, and it fails, returning 0, only when
  the free list has become empty.
\<close>

theorem walk_alloc_correct:
  assumes "pt_inv s t xs" and "va < MAXVA"
  shows "okR (walk s t va True) (\<lambda>(pte, s'). \<exists>ys. pt_inv s' t ys \<and>
    (\<forall>v. vpte (mem s') t v = vpte (mem s) t v) \<and>
    set xs \<union> tables (mem s) t = set ys \<union> tables (mem s') t \<and>
    (pte = 0 \<longrightarrow> ys = []))"
proof -
  obtain p s' where w: "walk s t va True = Ok (p, s')"
    using assms(2) by (cases "walk_level 2 s t va True") (auto simp: walk_def not_le [symmetric])
  then show ?thesis
    using walk_alloc [OF assms w] grows_vpte [of t s xs s'] by (auto simp: grows_def)
qed

theorem walk_alloc_correct_witness:
  "okR (walk kmem_user 0x80005000 0x12345678 True) (\<lambda>(pte, s'). \<exists>ys. pt_inv s' 0x80005000 ys \<and>
    (\<forall>v. vpte (mem s') 0x80005000 v = vpte (mem kmem_user) 0x80005000 v) \<and>
    set [] \<union> tables (mem kmem_user) 0x80005000 = set ys \<union> tables (mem s') 0x80005000 \<and>
    (pte = 0 \<longrightarrow> ys = []))"
  by (rule walk_alloc_correct [OF kmem_user_inv(1)]) simp

text \<open>
  C2: \<^verbatim>\<open>mappages\<close> on an unmapped range below \<^verbatim>\<open>MAXVA\<close> does not panic.  When it returns 0 it has added
  the entries for consecutive physical pages with the given permissions, for all pages of the range
  and no other, and every other translation is as before.  When it returns -1 the free list is empty
  and a proper prefix of the range is mapped.  No byte outside the tables and the free pages changes.
\<close>

theorem mappages_correct:
  assumes "pt_inv s t xs" and "page_aligned va" and "page_aligned sz" and "sz \<noteq> 0"
    and "unat va + unat sz \<le> unat MAXVA"
    and "\<And>v. vpn va \<le> vpn v \<Longrightarrow> vpn v < vpn va + vpn sz \<Longrightarrow> vpte (mem s) t v = None"
  shows "okR (mappages s t va sz pa perm) (\<lambda>(r, s'). \<exists>ys k.
    keeps t s xs s' ys \<and> maps_range (mem s) (mem s') t (vpn va) k pa perm \<and>
    (r = 0 \<and> k = vpn sz \<or> r = -1 \<and> k < vpn sz \<and> ys = []))"
proof -
  let ?l = "va + sz - PGSIZE"
  have sz: "unat sz = vpn sz * 4096" "unat va = vpn va * 4096"
    using assms aligned_vpn by blast+
  then have pos: "0 < vpn sz" using assms(4) by (metis mult_is_0 not_gr_zero unat_eq_0)
  have "unat (va + sz) = unat va + unat sz" using assms(5) by (simp add: unat_word_ariths)
  then have l: "unat ?l = unat va + unat sz - 4096"
    using pos sz by (subst unat_sub) (simp_all add: word_le_nat_alt)
  then have l': "unat ?l = (vpn va + vpn sz - 1) * 4096"
    unfolding sz by (simp add: diff_mult_distrib add_mult_distrib)
  then have vl: "vpn ?l = vpn va + vpn sz - 1" unfolding vpn_def [of ?l] by simp
  have al: "page_aligned ?l" using assms by (intro page_aligned_diff page_aligned_add) auto
  have "mappages s t va sz pa perm = mappages_from s t va ?l pa perm"
    using assms by (simp add: mappages_def mod_PGSIZE)
  moreover have "okR (mappages_from s t va ?l pa perm) (\<lambda>(r, s'). \<exists>ys k.
    keeps t s xs s' ys \<and> maps_range (mem s) (mem s') t (vpn va) k pa perm \<and>
    (r = 0 \<and> k = Suc (vpn ?l - vpn va) \<or> r = -1 \<and> k \<le> vpn ?l - vpn va \<and> ys = []))"
  proof (rule mappages_from_spec [OF assms(1,2) al])
    show "?l < MAXVA" using l assms(5) pos sz by (simp add: word_less_nat_alt)
  qed (use vl pos assms(6) in auto)
  moreover have "Suc (vpn ?l - vpn va) = vpn sz" "k \<le> vpn ?l - vpn va \<longleftrightarrow> k < vpn sz" for k
    using vl pos by auto
  ultimately show ?thesis by (simp only:)
qed

theorem mappages_correct_witness:
  "okR (mappages kmem_user 0x80005000 0x1000 0x2000 0x80002000 0x16) (\<lambda>(r, s'). \<exists>ys k.
    keeps 0x80005000 kmem_user [] s' ys \<and>
    maps_range (mem kmem_user) (mem s') 0x80005000 1 k 0x80002000 0x16 \<and>
    (r = 0 \<and> k = 2 \<or> r = -1 \<and> k < 2 \<and> ys = []))"
proof -
  have v: "vpn 0x1000 = 1" "vpn 0x2000 = 2" by (simp_all add: vpn_def)
  have "v < MAXVA" if "vpn v < 3" for v
  proof -
    have "unat v < 3 * 4096" using that by (simp add: vpn_def div_less_iff_less_mult)
    then show ?thesis by (simp add: word_less_nat_alt)
  qed
  then have "vpte (mem kmem_user) 0x80005000 v = None" if "1 \<le> vpn v" "vpn v < 1 + 2" for v
    using that by (simp add: kmem_user_inv)
  then show ?thesis
    using mappages_correct [OF kmem_user_inv(1), of "0x1000" "0x2000" "0x80002000" "0x16"]
    by (simp add: v page_aligned_def)
qed

text \<open>
  C10: \<^verbatim>\<open>copyin\<close> never panics; it returns 0 exactly when every byte of the range lies on a page that is
  mapped for the user below \<^verbatim>\<open>MAXVA\<close>, and then it has read the bytes of the range in order, across
  page boundaries; otherwise it returns -1.
\<close>

theorem copyin_correct:
  assumes "pt_inv s t xs"
  shows "okR (copyin s t srcva len) (\<lambda>(r, bs).
    if \<forall>i < len. uaddr (mem s) t (srcva + of_nat i) \<noteq> None
    then r = 0 \<and> bs = map (\<lambda>i. ubyte (mem s) t (srcva + of_nat i)) [0..<len]
    else r = -1)"
  unfolding ubyte_def by (rule copyin_spec [OF assms])

lemma all_less_two: "(\<forall>i < Suc (Suc 0). P i) \<longleftrightarrow> P 0 \<and> P (1::nat)"
  by (auto simp: less_Suc_eq)

lemma first_page: "n < 4096 \<Longrightarrow> vpn (of_nat n) = 0"
  by (simp add: vpn_def)

theorem copyin_correct_witness:
  "okR (copyin kmem_user 0x80005000 (of_nat 16) 3) (\<lambda>(r, bs). r = 0 \<and> length bs = 3)"
proof -
  have "uaddr (mem kmem_user) 0x80005000 (of_nat 16 + of_nat i) \<noteq> None" if "i < 3" for i
    using that first_page [of "16 + i"] by (simp add: kmem_user_addr)
  then show ?thesis
    using copyin_correct [OF kmem_user_inv(1), of "of_nat 16" 3] by (auto elim!: okR_mono)
qed

text \<open>
  C1: \<^verbatim>\<open>copyout\<close> never panics; it returns 0 exactly when every byte of the range lies on a page that is
  mapped writable for the user, and then those bytes hold the source; otherwise it returns -1.  In
  both cases it writes no byte outside the range and changes no translation and no free page.
\<close>

theorem copyout_correct:
  assumes "pt_inv s t xs" and "user_ok s t xs" and "length src < 2 ^ 64"
  shows "okR (copyout s t dstva src) (\<lambda>(r, s').
    pt_inv s' t xs \<and> (\<forall>v. vpte (mem s') t v = vpte (mem s) t v) \<and>
    (\<forall>a. (\<forall>i < length src. waddr (mem s) t (dstva + of_nat i) \<noteq> Some a) \<longrightarrow> mem s' a = mem s a) \<and>
    (if \<forall>i < length src. waddr (mem s) t (dstva + of_nat i) \<noteq> None
     then r = 0 \<and> (\<forall>i < length src. ubyte (mem s') t (dstva + of_nat i) = src ! i)
     else r = -1))"
proof (rule okR_mono [OF copyout_spec [OF assms, of dstva]], clarify)
  fix r s'
  assume c: "copied_out s t xs dstva src r s'"
  then have v: "vpte (mem s') t v = vpte (mem s) t v" for v by (simp add: copied_out_def)
  have "ubyte (mem s') t w = mem s' (the (waddr (mem s) t w))" if "waddr (mem s) t w \<noteq> None" for w
    using that v waddr_uaddr [of "mem s" t w] by (auto simp: ubyte_def uaddr_def)
  then show "pt_inv s' t xs \<and> (\<forall>v. vpte (mem s') t v = vpte (mem s) t v) \<and>
    (\<forall>a. (\<forall>i < length src. waddr (mem s) t (dstva + of_nat i) \<noteq> Some a) \<longrightarrow> mem s' a = mem s a) \<and>
    (if \<forall>i < length src. waddr (mem s) t (dstva + of_nat i) \<noteq> None
     then r = 0 \<and> (\<forall>i < length src. ubyte (mem s') t (dstva + of_nat i) = src ! i)
     else r = -1)"
    using c unfolding copied_out_def by (auto split: if_splits)
qed

theorem copyout_correct_witness:
  "okR (copyout kmem_user 0x80005000 (of_nat 32) [1, 2]) (\<lambda>(r, s'). r = 0 \<and>
     ubyte (mem s') 0x80005000 33 = 2)"
proof -
  have "waddr (mem kmem_user) 0x80005000 (of_nat 32 + of_nat i) \<noteq> None" if "i < length [1, 2 :: u8]" for i
    using that first_page [of "32 + i"] by (simp add: kmem_user_addr)
  then have all: "\<forall>i < length [1, 2 :: u8]. waddr (mem kmem_user) 0x80005000 (of_nat 32 + of_nat i) \<noteq> None"
    by blast
  show ?thesis
    by (rule okR_mono [OF copyout_correct [OF kmem_user_inv(1) kmem_user_ok, of "[1, 2]" "of_nat 32"]])
      (use all in \<open>auto simp: all_less_two\<close>)
qed

text \<open>
  C9: What \<^verbatim>\<open>copyout\<close> has put at a user address, \<^verbatim>\<open>copyin\<close> reads back.
\<close>

theorem copyout_copyin:
  assumes "pt_inv s t xs" and "user_ok s t xs" and "length src < 2 ^ 64"
    and "copyout s t va src = Ok (0, s')"
  shows "copyin s' t va (length src) = Ok (0, src)"
proof -
  have c: "copied_out s t xs va src 0 s'"
    using copyout_spec [OF assms(1-3), of va] assms(4) by simp
  have v: "vpte (mem s') t v = vpte (mem s) t v" for v using c by (simp add: copied_out_def)
  have all: "waddr (mem s) t (va + of_nat i) \<noteq> None" if "i < length src" for i
    using c that by (auto simp: copied_out_def split: if_splits)
  have u: "uaddr (mem s') t (va + of_nat i) = waddr (mem s) t (va + of_nat i)" if "i < length src" for i
    using all [OF that] waddr_uaddr [of "mem s" t "va + of_nat i"] v by (auto simp: uaddr_def)
  have "map (\<lambda>i. mem s' (the (uaddr (mem s') t (va + of_nat i)))) [0..<length src] = src"
    using c all u by (intro nth_equalityI) (auto simp: copied_out_def split: if_splits)
  moreover have "pt_inv s' t xs" using c by (simp add: copied_out_def)
  ultimately show ?thesis
    using copyin_spec [of s' t xs va "length src"] all u by (auto simp: okR_Ex)
qed

theorem copyout_copyin_witness:
  "\<exists>s'. copyout kmem_user 0x80005000 (of_nat 32) [1, 2] = Ok (0, s') \<and>
     copyin s' 0x80005000 (of_nat 32) 2 = Ok (0, [1, 2])"
proof -
  have "waddr (mem kmem_user) 0x80005000 (of_nat 32 + of_nat i) \<noteq> None" if "i < length [1, 2 :: u8]" for i
    using that first_page [of "32 + i"] by (simp add: kmem_user_addr)
  then have "okR (copyout kmem_user 0x80005000 (of_nat 32) [1, 2]) (\<lambda>(r, s'). r = 0)"
    using copyout_spec [OF kmem_user_inv(1) kmem_user_ok, of "[1, 2]" "of_nat 32"]
    by (auto simp: copied_out_def elim!: okR_mono)
  then obtain s' where "copyout kmem_user 0x80005000 (of_nat 32) [1, 2] = Ok (0, s')"
    by (auto simp: okR_Ex)
  then show ?thesis
    using copyout_copyin [OF kmem_user_inv(1) kmem_user_ok, of "[1, 2]" "of_nat 32" s'] by (simp flip: numeral_2_eq_2)
qed

text \<open>
  C27: \<^verbatim>\<open>copyinstr\<close> never panics; it returns 0 exactly when a NUL-terminated string of fewer than \<^verbatim>\<open>max\<close>
  bytes lies on mapped user pages at the address, and then it has copied the string and its NUL;
  otherwise it returns -1.
\<close>

theorem copyinstr_correct:
  assumes "pt_inv s t xs"
  shows "okR (copyinstr s t srcva limit) (\<lambda>(r, bs).
    (r = 0 \<and> (\<exists>n < limit. ustring (mem s) t srcva n \<and>
       bs = map (\<lambda>i. ubyte (mem s) t (srcva + of_nat i)) [0..<Suc n])) \<or>
    (r = -1 \<and> (\<forall>n < limit. \<not> ustring (mem s) t srcva n)))"
  by (rule okR_mono [OF copyinstr_spec [OF assms, of srcva limit]]) (auto simp: string_in_def)

theorem copyinstr_correct_witness:
  "okR (copyinstr kmem_user 0x80005000 0x4000 10) (\<lambda>(r, bs). r = -1)"
proof -
  have "\<not> ustring (mem kmem_user) 0x80005000 0x4000 n" for n
    by (auto simp: ustring_def kmem_user_addr vpn_def intro!: exI [of _ "0::nat"])
  then show ?thesis
    using copyinstr_correct [OF kmem_user_inv(1), of "0x4000" 10] by (auto elim!: okR_mono)
qed

end
