(* ===== verification/Xv6_Spinlock.thy ===== *)
theory Xv6_Spinlock
  imports Xv6_Riscv
begin

text \<open>
  \<^verbatim>\<open>kernel/spinlock.c\<close> and \<^verbatim>\<open>kernel/sleeplock.c\<close>.  The state of a CPU is \<^verbatim>\<open>struct cpu\<close> and the interrupt
  enable bit of its status register.  The operations are given as functions for the code between two
  atomic instructions; how they interleave on several CPUs is the step relation \<open>lstep\<close>, one step
  for each access to shared memory in \<^verbatim>\<open>acquire\<close> and \<^verbatim>\<open>release\<close>.  The invariant of the relation gives
  mutual exclusion, and that interrupts are off on a CPU while it holds a lock.
\<close>

record cpu =
  cproc :: "nat option"
  noff :: int
  intena :: bool
  sie :: bool

record spinlock =
  locked :: bool
  sname :: string
  scpu :: "nat option"

section \<open>Operations of one CPU\<close>

definition initlock :: "string \<Rightarrow> spinlock" where
  "initlock name = \<lparr>locked = False, sname = name, scpu = None\<rparr>"

definition holding :: "spinlock \<Rightarrow> nat \<Rightarrow> bool" where
  "holding lk c \<longleftrightarrow> locked lk \<and> scpu lk = Some c"

definition push_off :: "cpu \<Rightarrow> cpu" where
  "push_off c =
     (let old = sie c;
          c1 = c\<lparr>sie := False\<rparr>;
          c2 = (if noff c1 = 0 then c1\<lparr>intena := old\<rparr> else c1)
      in c2\<lparr>noff := noff c2 + 1\<rparr>)"

definition pop_off :: "cpu \<Rightarrow> cpu res" where
  "pop_off c =
     (if sie c then Panic ''pop_off - interruptible''
      else if noff c < 1 then Panic ''pop_off''
      else
        let c1 = c\<lparr>noff := noff c - 1\<rparr>
        in Ok (if noff c1 = 0 \<and> intena c1 then c1\<lparr>sie := True\<rparr> else c1))"

text \<open>
  \<^verbatim>\<open>acquire\<close> up to its loop, the atomic swap, and what follows the loop; \<^verbatim>\<open>release\<close> up to and after the
  atomic release.
\<close>

definition acquire_enter :: "nat \<Rightarrow> spinlock \<Rightarrow> cpu \<Rightarrow> cpu res" where
  "acquire_enter c lk cp =
     (let cp' = push_off cp in if holding lk c then Panic ''acquire'' else Ok cp')"

definition test_and_set :: "spinlock \<Rightarrow> bool \<times> spinlock" where
  "test_and_set lk = (locked lk, lk\<lparr>locked := True\<rparr>)"

definition acquire_own :: "nat \<Rightarrow> spinlock \<Rightarrow> spinlock" where
  "acquire_own c lk = lk\<lparr>scpu := Some c\<rparr>"

definition release_enter :: "nat \<Rightarrow> spinlock \<Rightarrow> spinlock res" where
  "release_enter c lk = (if \<not> holding lk c then Panic ''release'' else Ok (lk\<lparr>scpu := None\<rparr>))"

definition lock_release :: "spinlock \<Rightarrow> spinlock" where
  "lock_release lk = lk\<lparr>locked := False\<rparr>"

text \<open>With no other CPU in the way, \<^verbatim>\<open>acquire\<close> spins forever on a lock that is taken.\<close>

definition acquire :: "nat \<Rightarrow> spinlock \<Rightarrow> cpu \<Rightarrow> (spinlock \<times> cpu) res" where
  "acquire c lk cp =
     bindR (acquire_enter c lk cp) (\<lambda>cp1.
       let (old, lk1) = test_and_set lk
       in if old then Diverges else Ok (acquire_own c lk1, cp1))"

definition release :: "nat \<Rightarrow> spinlock \<Rightarrow> cpu \<Rightarrow> (spinlock \<times> cpu) res" where
  "release c lk cp =
     bindR (release_enter c lk) (\<lambda>lk1.
     bindR (pop_off cp) (\<lambda>cp1. Ok (lock_release lk1, cp1)))"

section \<open>Several CPUs\<close>

datatype lpc = Idle | Spin nat | Got nat | Cleared nat | Freed

record lsys =
  locks :: "nat \<Rightarrow> spinlock"
  cpus :: "nat \<Rightarrow> cpu"
  pc :: "nat \<Rightarrow> lpc"
  panicked :: bool

inductive lstep :: "lsys \<Rightarrow> lsys \<Rightarrow> bool" where
  acq_enter: "pc s c = Idle \<Longrightarrow> acquire_enter c (locks s l) (cpus s c) = Ok cp \<Longrightarrow>
    lstep s (s\<lparr>cpus := (cpus s)(c := cp), pc := (pc s)(c := Spin l)\<rparr>)"
| acq_panic: "pc s c = Idle \<Longrightarrow> acquire_enter c (locks s l) (cpus s c) = Panic msg \<Longrightarrow>
    lstep s (s\<lparr>panicked := True\<rparr>)"
| acq_swap: "pc s c = Spin l \<Longrightarrow> test_and_set (locks s l) = (old, lk) \<Longrightarrow>
    lstep s (s\<lparr>locks := (locks s)(l := lk), pc := (pc s)(c := if old then Spin l else Got l)\<rparr>)"
| acq_own: "pc s c = Got l \<Longrightarrow>
    lstep s (s\<lparr>locks := (locks s)(l := acquire_own c (locks s l)), pc := (pc s)(c := Idle)\<rparr>)"
| rel_enter: "pc s c = Idle \<Longrightarrow> release_enter c (locks s l) = Ok lk \<Longrightarrow>
    lstep s (s\<lparr>locks := (locks s)(l := lk), pc := (pc s)(c := Cleared l)\<rparr>)"
| rel_panic: "pc s c = Idle \<Longrightarrow> release_enter c (locks s l) = Panic msg \<Longrightarrow>
    lstep s (s\<lparr>panicked := True\<rparr>)"
| rel_unlock: "pc s c = Cleared l \<Longrightarrow>
    lstep s (s\<lparr>locks := (locks s)(l := lock_release (locks s l)), pc := (pc s)(c := Freed)\<rparr>)"
| rel_pop: "pc s c = Freed \<Longrightarrow> pop_off (cpus s c) = Ok cp \<Longrightarrow>
    lstep s (s\<lparr>cpus := (cpus s)(c := cp), pc := (pc s)(c := Idle)\<rparr>)"
| rel_pop_panic: "pc s c = Freed \<Longrightarrow> pop_off (cpus s c) = Panic msg \<Longrightarrow>
    lstep s (s\<lparr>panicked := True\<rparr>)"
| intr: "pc s c = Idle \<Longrightarrow> noff (cpus s c) = 0 \<Longrightarrow>
    lstep s (s\<lparr>cpus := (cpus s)(c := (cpus s c)\<lparr>sie := b\<rparr>)\<rparr>)"

inductive lreach :: "lsys \<Rightarrow> bool" where
  init: "(\<And>l. \<not> locked (locks s l) \<and> scpu (locks s l) = None) \<Longrightarrow>
    (\<And>c. noff (cpus s c) = 0 \<and> pc s c = Idle) \<Longrightarrow> lreach s"
| step: "lreach s \<Longrightarrow> lstep s s' \<Longrightarrow> lreach s'"

text \<open>\<open>owns s c l\<close>: CPU \<open>c\<close> is past the swap of \<^verbatim>\<open>acquire(l)\<close> and before the atomic release.\<close>

definition owns :: "lsys \<Rightarrow> nat \<Rightarrow> nat \<Rightarrow> bool" where
  "owns s c l \<longleftrightarrow> holding (locks s l) c \<or> pc s c = Got l \<or> pc s c = Cleared l"

definition pending :: "lsys \<Rightarrow> nat \<Rightarrow> nat" where
  "pending s c = (case pc s c of Spin _ \<Rightarrow> 1 | Freed \<Rightarrow> 1 | _ \<Rightarrow> 0)"

definition linv :: "lsys \<Rightarrow> bool" where
  "linv s \<longleftrightarrow>
     (\<forall>c l. owns s c l \<longrightarrow> locked (locks s l) \<and> (\<forall>c'. owns s c' l \<longrightarrow> c' = c)) \<and>
     (\<forall>c l. (pc s c = Got l \<or> pc s c = Cleared l) \<longrightarrow> scpu (locks s l) = None) \<and>
     (\<forall>l c. scpu (locks s l) = Some c \<longrightarrow> locked (locks s l)) \<and>
     (\<forall>c. finite {l. owns s c l} \<and> noff (cpus s c) = int (card {l. owns s c l} + pending s c)) \<and>
     (\<forall>c. 0 < noff (cpus s c) \<longrightarrow> \<not> sie (cpus s c))"

section \<open>The invariant\<close>

lemma linvD:
  assumes "linv s"
  shows "owns s c l \<Longrightarrow> locked (locks s l)"
    and "owns s c l \<Longrightarrow> owns s c' l \<Longrightarrow> c' = c"
    and "pc s c = Got l \<Longrightarrow> scpu (locks s l) = None"
    and "pc s c = Cleared l \<Longrightarrow> scpu (locks s l) = None"
    and "scpu (locks s l) = Some c \<Longrightarrow> locked (locks s l)"
    and "finite {l. owns s c l}"
    and "noff (cpus s c) = int (card {l. owns s c l} + pending s c)"
    and "0 < noff (cpus s c) \<Longrightarrow> \<not> sie (cpus s c)"
  using assms unfolding linv_def by blast+

lemma linv_same_owns:
  assumes "linv s" and "owns s' = owns s"
    and "\<And>l. locked (locks s' l) = locked (locks s l)"
    and "\<And>c l. pc s' c = Got l \<or> pc s' c = Cleared l \<Longrightarrow> scpu (locks s' l) = None"
    and "\<And>l c. scpu (locks s' l) = Some c \<Longrightarrow> locked (locks s' l)"
    and "\<And>c. noff (cpus s' c) - int (pending s' c) = noff (cpus s c) - int (pending s c)"
    and "\<And>c. 0 < noff (cpus s' c) \<Longrightarrow> \<not> sie (cpus s' c)"
  shows "linv s'"
  unfolding linv_def assms(2,3)
proof (intro conjI allI impI)
  fix c
  have "noff (cpus s' c) = noff (cpus s c) - int (pending s c) + int (pending s' c)"
    using assms(6) [of c] by simp
  then show "noff (cpus s' c) = int (card {l. owns s c l} + pending s' c)"
    using linvD(7) [OF assms(1), of c] by simp
qed (use assms linvD(1,2,6) [OF assms(1)] in \<open>auto simp del: assms(3)\<close>)

lemma acquire_enter_Ok: "acquire_enter c lk cp = Ok cp' \<longleftrightarrow> \<not> holding lk c \<and> cp' = push_off cp"
  by (auto simp: acquire_enter_def Let_def)

lemma push_off_fields [simp]: "noff (push_off c) = noff c + 1" "\<not> sie (push_off c)"
  by (simp_all add: push_off_def Let_def)

lemma pop_off_fields:
  "pop_off c = Ok c' \<Longrightarrow> noff c' = noff c - 1 \<and> (0 < noff c' \<longrightarrow> \<not> sie c')"
  by (auto simp: pop_off_def Let_def split: if_splits)

lemma linv_step:
  assumes inv: "linv s" and st: "lstep s s'"
  shows "linv s'"
  using st
proof cases
  case (acq_enter c l cp)
  have "owns s' = owns s"
    using acq_enter by (auto simp: owns_def fun_eq_iff)
  then show ?thesis
    using acq_enter linvD [OF inv]
    by (intro linv_same_owns [OF inv]) (auto simp: acquire_enter_Ok pending_def split: if_splits)
next
  case (acq_swap c l old lk)
  have lk: "lk = (locks s l)\<lparr>locked := True\<rparr>" "old = locked (locks s l)"
    using acq_swap by (simp_all add: test_and_set_def)
  show ?thesis
  proof (cases old)
    case True
    then have "s' = s" using acq_swap lk by (simp add: fun_upd_idem)
    then show ?thesis using inv by simp
  next
    case False
    have free: "\<not> owns s c' l" for c' using linvD(1) [OF inv] False lk by blast
    have none: "scpu (locks s l) = None" using linvD(5) [OF inv, of l] False lk by (cases "scpu (locks s l)") auto
    have ow: "owns s' c' l' \<longleftrightarrow> owns s c' l' \<or> c' = c \<and> l' = l" for c' l'
      using acq_swap False lk none free by (auto simp: owns_def holding_def)
    have "finite {l'. owns s' c' l'} \<and> noff (cpus s' c') = int (card {l'. owns s' c' l'} + pending s' c')" for c'
    proof (cases "c' = c")
      case True
      have "{l'. owns s' c l'} = insert l {l'. owns s c l'}" using ow by auto
      then show ?thesis
        using acq_swap False True free linvD(6,7) [OF inv, of c] by (simp add: pending_def)
    next
      case other: False
      then have "{l'. owns s' c' l'} = {l'. owns s c' l'}" using ow by auto
      then show ?thesis
        using acq_swap False other linvD(6,7) [OF inv, of c'] by (simp add: pending_def)
    qed
    moreover have f: "locks s' l' = (if l' = l then (locks s l)\<lparr>locked := True\<rparr> else locks s l')"
      "pc s' c' = (if c' = c then Got l else pc s c')" "cpus s' = cpus s" for l' c'
      using acq_swap(1) False lk by simp_all
    moreover have "locked (locks s' l') \<and> (\<forall>c''. owns s' c'' l' \<longrightarrow> c'' = c')" if "owns s' c' l'" for c' l'
      using that f free linvD(1,2) [OF inv] unfolding ow by auto
    ultimately show ?thesis
      unfolding linv_def using none linvD [OF inv] by auto
  qed
next
  case (acq_own c l)
  have o: "owns s c l" using acq_own by (simp add: owns_def)
  have "owns s' c' l' \<longleftrightarrow> owns s c' l'" for c' l'
    using acq_own linvD(1,2,3) [OF inv] o
    by (auto simp: owns_def holding_def acquire_own_def)
  then have "owns s' = owns s" by (simp add: fun_eq_iff)
  moreover have "pc s c' \<noteq> Got l \<and> pc s c' \<noteq> Cleared l" if "c' \<noteq> c" for c'
    using that linvD(2) [OF inv o, of c'] by (auto simp: owns_def)
  ultimately show ?thesis
    using acq_own linvD(1) [OF inv o] linvD(3-8) [OF inv]
    by (intro linv_same_owns [OF inv]) (auto simp: acquire_own_def pending_def split: if_splits)
next
  case (rel_enter c l lk)
  have lk: "lk = (locks s l)\<lparr>scpu := None\<rparr>" "holding (locks s l) c"
    using rel_enter by (auto simp: release_enter_def split: if_splits)
  have o: "owns s c l" using lk by (simp add: owns_def)
  have "owns s' c' l' \<longleftrightarrow> owns s c' l'" for c' l'
    using rel_enter lk linvD(2) [OF inv] o by (auto simp: owns_def holding_def)
  then have "owns s' = owns s" by (simp add: fun_eq_iff)
  then show ?thesis
    using rel_enter lk linvD [OF inv]
    by (intro linv_same_owns [OF inv]) (auto simp: pending_def split: if_splits)
next
  case (rel_unlock c l)
  have o: "owns s c l" using rel_unlock by (simp add: owns_def)
  have none: "scpu (locks s l) = None" using linvD(4) [OF inv] rel_unlock by blast
  have ow: "owns s' c' l' \<longleftrightarrow> owns s c' l' \<and> \<not> (c' = c \<and> l' = l)" for c' l'
    using rel_unlock none linvD(2) [OF inv o] by (auto simp: owns_def holding_def lock_release_def)
  have "finite {l'. owns s' c' l'} \<and> noff (cpus s' c') = int (card {l'. owns s' c' l'} + pending s' c')" for c'
  proof (cases "c' = c")
    case True
    have "{l'. owns s' c l'} = {l'. owns s c l'} - {l}" using ow by auto
    moreover have "0 < card {l'. owns s c l'}" using o linvD(6) [OF inv, of c] by (auto simp: card_gt_0_iff)
    ultimately show ?thesis
      using rel_unlock True o linvD(6,7) [OF inv, of c] by (simp add: pending_def)
  next
    case other: False
    then have "{l'. owns s' c' l'} = {l'. owns s c' l'}" using ow by auto
    then show ?thesis
      using rel_unlock other linvD(6,7) [OF inv, of c'] by (simp add: pending_def)
  qed
  moreover have f: "locks s' l' = (if l' = l then (locks s l)\<lparr>locked := False\<rparr> else locks s l')"
    "pc s' c' = (if c' = c then Freed else pc s c')" "cpus s' = cpus s" for l' c'
    using rel_unlock(1) by (simp_all add: lock_release_def)
  moreover have "locked (locks s' l') \<and> (\<forall>c''. owns s' c'' l' \<longrightarrow> c'' = c')" if "owns s' c' l'" for c' l'
    using that f o linvD(1,2) [OF inv] unfolding ow by (metis (no_types))
  ultimately show ?thesis
    unfolding linv_def using none linvD(3-8) [OF inv] by auto
next
  case (rel_pop c cp)
  have "owns s' = owns s" using rel_pop by (auto simp: owns_def fun_eq_iff)
  then show ?thesis
    using rel_pop pop_off_fields [of "cpus s c" cp] linvD [OF inv]
    by (intro linv_same_owns [OF inv]) (auto simp: pending_def split: if_splits)
next
  case (intr c b)
  have "owns s' = owns s" using intr by (auto simp: owns_def fun_eq_iff)
  then show ?thesis
    using intr linvD(3-5,8) [OF inv]
    by (intro linv_same_owns [OF inv]) (auto simp: pending_def split: if_splits)
qed (use inv in \<open>auto simp: linv_def owns_def pending_def\<close>)

lemma linv_reach: "lreach s \<Longrightarrow> linv s"
proof (induction rule: lreach.induct)
  case (init s)
  have "\<not> owns s c l" for c l using init by (simp add: owns_def holding_def)
  then show ?case using init by (simp add: linv_def pending_def)
next
  case (step s s')
  then show ?case using linv_step by blast
qed

section \<open>Properties\<close>

text \<open>
  C4: Mutual exclusion.  However \<^verbatim>\<open>acquire\<close> and \<^verbatim>\<open>release\<close> of any number of CPUs interleave, at most one
  CPU is between the swap that took a lock and the instruction that releases it.
\<close>

theorem spinlock_mutual_exclusion:
  assumes "lreach s" and "owns s c l" and "owns s c' l"
  shows "c = c'"
  using linvD(2) [OF linv_reach [OF assms(1)] assms(3,2)] .

definition lsys0 :: lsys where
  "lsys0 = \<lparr>locks = (\<lambda>_. initlock ''l''), cpus = (\<lambda>_. \<lparr>cproc = None, noff = 0, intena = False, sie = True\<rparr>),
     pc = (\<lambda>_. Idle), panicked = False\<rparr>"

definition lsys2 :: lsys where
  "lsys2 = lsys0\<lparr>cpus := (cpus lsys0)(1 := push_off (cpus lsys0 1)), pc := (\<lambda>_. Idle)(1 := Got 5),
     locks := (locks lsys0)(5 := (initlock ''l'')\<lparr>locked := True\<rparr>)\<rparr>"

lemma lreach_lsys2: "lreach lsys2"
proof -
  let ?s1 = "lsys0\<lparr>cpus := (cpus lsys0)(1 := push_off (cpus lsys0 1)), pc := (pc lsys0)(1 := Spin 5)\<rparr>"
  have "lreach lsys0" by (rule lreach.init) (simp_all add: lsys0_def initlock_def)
  moreover have "lstep lsys0 ?s1"
    by (rule lstep.acq_enter) (simp_all add: acquire_enter_def lsys0_def holding_def initlock_def Let_def)
  ultimately have r: "lreach ?s1" by (rule lreach.step)
  have "lstep ?s1 (?s1\<lparr>locks := (locks ?s1)(5 := (initlock ''l'')\<lparr>locked := True\<rparr>),
      pc := (pc ?s1)(1 := if False then Spin 5 else Got 5)\<rparr>)"
    by (rule lstep.acq_swap) (simp_all add: test_and_set_def lsys0_def initlock_def)
  then have "lreach (?s1\<lparr>locks := (locks ?s1)(5 := (initlock ''l'')\<lparr>locked := True\<rparr>),
      pc := (pc ?s1)(1 := if False then Spin 5 else Got 5)\<rparr>)"
    using r by (rule lreach.step [rotated])
  then show ?thesis by (simp add: lsys2_def lsys0_def)
qed

theorem spinlock_mutual_exclusion_witness: "owns lsys2 1 5 \<and> \<not> owns lsys2 2 5"
  using spinlock_mutual_exclusion [OF lreach_lsys2, of 1 5 2] by (auto simp: owns_def lsys2_def)

text \<open>
  C36: While a CPU holds a lock, or is on its way into or out of one, its interrupts are off, and
  \<^verbatim>\<open>pop_off\<close> in \<^verbatim>\<open>release\<close> does not panic.
\<close>

theorem spinlock_interrupts_off:
  assumes "lreach s" and "owns s c l \<or> pc s c = Freed \<or> pc s c = Spin l"
  shows "\<not> sie (cpus s c) \<and> (\<exists>cp. pop_off (cpus s c) = Ok cp)"
proof -
  note inv = linv_reach [OF assms(1)]
  have "0 < card {l. owns s c l} + pending s c"
    using assms(2) linvD(6) [OF inv, of c] by (auto simp: pending_def card_gt_0_iff)
  then have "0 < noff (cpus s c)" unfolding linvD(7) [OF inv, of c] by (simp only: of_nat_0_less_iff)
  then show ?thesis using linvD(8) [OF inv] by (auto simp: pop_off_def Let_def)
qed

theorem spinlock_interrupts_off_witness:
  "\<not> sie (cpus lsys2 1) \<and> (\<exists>cp. pop_off (cpus lsys2 1) = Ok cp)"
  by (rule spinlock_interrupts_off [OF lreach_lsys2, of 1 5]) (simp add: owns_def lsys2_def)

primrec pop_offs :: "nat \<Rightarrow> cpu \<Rightarrow> cpu res" where
  "pop_offs 0 c = Ok c"
| "pop_offs (Suc n) c = bindR (pop_off c) (pop_offs n)"

lemma push_offs_fields:
  assumes "0 \<le> noff c" and "0 < noff c \<longrightarrow> \<not> sie c" and "0 < n"
  shows "noff ((push_off ^^ n) c) = noff c + int n \<and> \<not> sie ((push_off ^^ n) c) \<and>
    intena ((push_off ^^ n) c) = (if noff c = 0 then sie c else intena c)"
  using assms(3)
proof (induction n rule: nat_induct_non_zero)
  case 1
  then show ?case by (simp add: push_off_def Let_def)
next
  case (Suc n)
  then show ?case using assms(1) by (simp add: push_off_def Let_def)
qed

lemma pop_offs_fields:
  assumes "0 \<le> k" and "noff c = k + int n" and "\<not> sie c" and "0 < n"
  shows "okR (pop_offs n c) (\<lambda>c'. noff c' = k \<and> sie c' = (k = 0 \<and> intena c))"
  using assms(2-)
proof (induction n arbitrary: c)
  case (Suc n)
  then show ?case using assms(1) Suc.IH [of "c\<lparr>noff := k + int n\<rparr>"]
    by (cases "n = 0") (auto simp: pop_off_def Let_def)
qed simp

text \<open>
  \<^verbatim>\<open>push_off\<close> and \<^verbatim>\<open>pop_off\<close> are matched: after \<open>n\<close> calls of the one and \<open>n\<close> of the other the
  nesting depth and the interrupt enable bit are what they were, and no call panics.
\<close>

theorem push_pop_matched:
  assumes "0 \<le> noff c" and "0 < noff c \<longrightarrow> \<not> sie c" and "0 < n"
  shows "okR (pop_offs n ((push_off ^^ n) c)) (\<lambda>c'. noff c' = noff c \<and> sie c' = sie c)"
  using push_offs_fields [OF assms] pop_offs_fields [OF assms(1), of "(push_off ^^ n) c" n] assms
  by (auto elim!: okR_mono)

theorem push_pop_matched_witness:
  "okR (pop_offs 3 ((push_off ^^ 3) \<lparr>cproc = None, noff = 0, intena = False, sie = True\<rparr>))
     (\<lambda>c'. noff c' = 0 \<and> sie c')"
  using push_pop_matched [of "\<lparr>cproc = None, noff = 0, intena = False, sie = True\<rparr>" 3] by simp


end
