(* ===== verification/Xv6_Proc.thy ===== *)
theory Xv6_Proc
  imports Xv6_Uvm Xv6_Spinlock
begin

text \<open>
  The process table of \<^verbatim>\<open>kernel/proc.c\<close>: allocation and release of slots, sleep and wakeup, kill, the
  scheduler's choice, and growing a process.  A process is named by its index in \<^verbatim>\<open>proc[]\<close>; \<open>me\<close> is
  the index that \<^verbatim>\<open>myproc()\<close> returns.  A C \<^verbatim>\<open>int\<close> is an \<open>int\<close>, and \<open>pids\<close> are taken from a 32-bit
  counter.  A sleep channel is named by the object whose address the code uses.  Each operation is one critical
  section of the locks it takes; \<^verbatim>\<open>sleep\<close> is split at \<^verbatim>\<open>sched()\<close>, where the process gives up the CPU.
  The operations that also touch files and inodes are in \<^verbatim>\<open>Xv6_Process\<close>.
\<close>

datatype procstate = UNUSED | USED | SLEEPING | RUNNABLE | RUNNING | ZOMBIE

datatype chan =
    Chan_ticks | Chan_proc nat | Chan_buf_lock nat | Chan_inode_lock nat
  | Chan_pipe_nread nat | Chan_pipe_nwrite nat | Chan_log | Chan_disk_free | Chan_disk_buf nat
  | Chan_cons_r | Chan_uart_tx

record ctx =
  ra :: u64
  sp :: u64
  sregs :: "u64 list"

record proc =
  state :: procstate
  chan :: "chan option"
  killed_flag :: bool
  xstate :: int
  pid :: u32
  parent :: "nat option"
  kstack :: u64
  sz :: u64
  pagetable :: u64
  trapframe :: u64
  pcontext :: ctx
  ofile :: "nat option list"
  cwd :: "nat option"
  pname :: "u8 list"
  trace_mask :: u32

definition context0 :: ctx where
  "context0 = \<lparr>ra = 0, sp = 0, sregs = replicate 12 0\<rparr>"

text \<open>\<^verbatim>\<open>proc[]\<close> starts zeroed.\<close>

definition proc0 :: proc where
  "proc0 = \<lparr>state = UNUSED, chan = None, killed_flag = False, xstate = 0, pid = 0, parent = None,
     kstack = 0, sz = 0, pagetable = 0, trapframe = 0, pcontext = context0,
     ofile = replicate NOFILE None, cwd = None, pname = replicate 16 0, trace_mask = 0\<rparr>"

record ptab =
  km :: kmem
  procs :: "proc list"
  nextpid :: u32
  initproc :: "nat option"

section \<open>The table\<close>

definition upd :: "nat \<Rightarrow> (proc \<Rightarrow> proc) \<Rightarrow> proc list \<Rightarrow> proc list" where
  "upd i f ps = (if i < length ps then ps[i := f (ps ! i)] else ps)"

definition procinit :: "proc list \<Rightarrow> proc list" where
  "procinit ps = map (\<lambda>(i, p). p\<lparr>state := UNUSED, kstack := KSTACK (of_nat i)\<rparr>) (enumerate 0 ps)"

definition allocpid :: "ptab \<Rightarrow> u32 \<times> ptab" where
  "allocpid s = (let p = nextpid s in (p, s\<lparr>nextpid := nextpid s + 1\<rparr>))"

definition freeproc :: "ptab \<Rightarrow> nat \<Rightarrow> ptab res" where
  "freeproc s i =
     (let p = procs s ! i in
      bindR (if trapframe p \<noteq> 0 then kfree (km s) (trapframe p) else Ok (km s)) (\<lambda>k1.
      bindR (if pagetable p \<noteq> 0 then proc_freepagetable k1 (pagetable p) (sz p) else Ok k1) (\<lambda>k2.
      Ok (s\<lparr>km := k2, procs := (procs s)[i := p\<lparr>trapframe := 0, pagetable := 0, sz := 0, pid := 0,
        parent := None, pname := (pname p)[0 := 0], chan := None, killed_flag := False, xstate := 0,
        state := UNUSED\<rparr>]\<rparr>))))"

fun find_unused :: "proc list \<Rightarrow> nat \<Rightarrow> nat option" where
  "find_unused [] i = None"
| "find_unused (p # ps) i = (if state p = UNUSED then Some i else find_unused ps (Suc i))"

text \<open>\<open>tramp\<close> and \<open>forkret\<close> are the addresses of the symbols \<^verbatim>\<open>trampoline\<close> and \<^verbatim>\<open>forkret\<close>.\<close>

definition allocproc :: "u64 \<Rightarrow> u64 \<Rightarrow> ptab \<Rightarrow> (nat option \<times> ptab) res" where
  "allocproc tramp forkret s =
     (case find_unused (procs s) 0 of
        None \<Rightarrow> Ok (None, s)
      | Some i \<Rightarrow>
          let (newpid, s1) = allocpid s;
              (tf, k1) = kalloc (km s1);
              s2 = s1\<lparr>km := k1, procs := upd i (\<lambda>p. p\<lparr>pid := newpid, state := USED, trapframe := tf\<rparr>) (procs s1)\<rparr>
          in if tf = 0 then bindR (freeproc s2 i) (\<lambda>s3. Ok (None, s3))
             else bindR (proc_pagetable (km s2) tramp tf) (\<lambda>(pt, k2).
               let s3 = s2\<lparr>km := k2, procs := upd i (\<lambda>p. p\<lparr>pagetable := pt\<rparr>) (procs s2)\<rparr>
               in if pt = 0 then bindR (freeproc s3 i) (\<lambda>s4. Ok (None, s4))
                  else Ok (Some i, s3\<lparr>procs := upd i (\<lambda>p. p\<lparr>pcontext :=
                    context0\<lparr>ra := forkret, sp := kstack p + PGSIZE\<rparr>\<rparr>) (procs s3)\<rparr>)))"

definition growproc :: "ptab \<Rightarrow> nat \<Rightarrow> int \<Rightarrow> (int \<times> ptab) res" where
  "growproc s me n =
     (let p = procs s ! me in
      if n > 0 then
        bindR (uvmalloc (km s) (pagetable p) (sz p) (sz p + of_int n) PTE_W) (\<lambda>(sz', k).
          if sz' = 0 then Ok (-1, s\<lparr>km := k\<rparr>)
          else Ok (0, s\<lparr>km := k, procs := upd me (\<lambda>p. p\<lparr>sz := sz'\<rparr>) (procs s)\<rparr>))
      else if n < 0 then
        bindR (uvmdealloc (km s) (pagetable p) (sz p) (sz p + of_int n)) (\<lambda>(sz', k).
          Ok (0, s\<lparr>km := k, procs := upd me (\<lambda>p. p\<lparr>sz := sz'\<rparr>) (procs s)\<rparr>))
      else Ok (0, s))"

section \<open>Sleep and wakeup\<close>

definition wakeup :: "nat option \<Rightarrow> chan \<Rightarrow> proc list \<Rightarrow> proc list" where
  "wakeup me ch ps = map (\<lambda>(i, p).
     if Some i \<noteq> me \<and> state p = SLEEPING \<and> chan p = Some ch then p\<lparr>state := RUNNABLE\<rparr> else p)
     (enumerate 0 ps)"

definition sleep_enter :: "nat \<Rightarrow> chan \<Rightarrow> proc list \<Rightarrow> proc list" where
  "sleep_enter me ch ps = upd me (\<lambda>p. p\<lparr>chan := Some ch, state := SLEEPING\<rparr>) ps"

definition sleep_exit :: "nat \<Rightarrow> proc list \<Rightarrow> proc list" where
  "sleep_exit me ps = upd me (\<lambda>p. p\<lparr>chan := None\<rparr>) ps"

fun kill :: "u32 \<Rightarrow> proc list \<Rightarrow> int \<times> proc list" where
  "kill pd [] = (-1, [])"
| "kill pd (p # ps) =
     (if pid p = pd
      then (0, (let q = p\<lparr>killed_flag := True\<rparr> in if state q = SLEEPING then q\<lparr>state := RUNNABLE\<rparr> else q) # ps)
      else let (r, ps') = kill pd ps in (r, p # ps'))"

definition setkilled :: "nat \<Rightarrow> proc list \<Rightarrow> proc list" where
  "setkilled i ps = upd i (\<lambda>p. p\<lparr>killed_flag := True\<rparr>) ps"

definition killed :: "nat \<Rightarrow> proc list \<Rightarrow> bool" where
  "killed i ps = killed_flag (ps ! i)"

section \<open>Copying to user or kernel addresses\<close>

text \<open>The kernel destination of \<^verbatim>\<open>either_copyout\<close> and the source of \<^verbatim>\<open>either_copyin\<close> are addresses of kernel
  memory, which the kernel maps one to one.\<close>

definition either_copyout :: "ptab \<Rightarrow> nat \<Rightarrow> bool \<Rightarrow> u64 \<Rightarrow> u8 list \<Rightarrow> (int \<times> ptab) res" where
  "either_copyout s me user_dst dst src =
     (if user_dst
      then bindR (copyout (km s) (pagetable (procs s ! me)) dst src) (\<lambda>(r, k). Ok (r, s\<lparr>km := k\<rparr>))
      else Ok (0, s\<lparr>km := (km s)\<lparr>mem := write_bytes (mem (km s)) dst src\<rparr>\<rparr>))"

definition either_copyin :: "ptab \<Rightarrow> nat \<Rightarrow> bool \<Rightarrow> u64 \<Rightarrow> nat \<Rightarrow> (int \<times> u8 list) res" where
  "either_copyin s me user_src src len =
     (if user_src then copyin (km s) (pagetable (procs s ! me)) src len
      else Ok (0, read_bytes (mem (km s)) src len))"

section \<open>Counting\<close>

definition kcollect_nproc :: "proc list \<Rightarrow> u64" where
  "kcollect_nproc ps = of_nat (length (filter (\<lambda>p. state p \<noteq> UNUSED) (take NCPU ps)))"

definition kcollect_load :: "proc list \<Rightarrow> u64" where
  "kcollect_load ps = of_nat (length (filter (\<lambda>p. state p = RUNNING \<or> state p = RUNNABLE) ps))"

section \<open>Lemmas on the table\<close>

lemma length_upd [simp]: "length (upd i f ps) = length ps"
  by (simp add: upd_def)

lemma nth_upd: "j < length ps \<Longrightarrow> upd i f ps ! j = (if i = j then f (ps ! j) else ps ! j)"
  by (auto simp: upd_def)

lemma length_wakeup [simp]: "length (wakeup me ch ps) = length ps"
  by (simp add: wakeup_def)

lemma nth_wakeup:
  "i < length ps \<Longrightarrow> wakeup me ch ps ! i =
     (if Some i \<noteq> me \<and> state (ps ! i) = SLEEPING \<and> chan (ps ! i) = Some ch
      then (ps ! i)\<lparr>state := RUNNABLE\<rparr> else ps ! i)"
  by (simp add: wakeup_def nth_enumerate_eq)

lemma length_kill [simp]: "length (snd (kill pd ps)) = length ps"
  by (induction ps) (auto simp: Let_def split: prod.split)

lemma kill_running: "i < length ps \<Longrightarrow> state (snd (kill pd ps) ! i) = RUNNING \<longleftrightarrow> state (ps ! i) = RUNNING"
  by (induction ps arbitrary: i) (auto simp: Let_def nth_Cons split: prod.split nat.split)

lemma find_unused_Some:
  "find_unused ps k = Some i \<Longrightarrow> k \<le> i \<and> i - k < length ps \<and> state (ps ! (i - k)) = UNUSED"
  by (induction ps k rule: find_unused.induct) (auto split: if_splits simp: Suc_diff_Suc nth_Cons')

lemma find_unused_None: "find_unused ps k = None \<longleftrightarrow> (\<forall>p \<in> set ps. state p \<noteq> UNUSED)"
  by (induction ps k rule: find_unused.induct) auto

lemma find_unused_first: "find_unused ps k = Some i \<Longrightarrow> j < i - k \<Longrightarrow> state (ps ! j) \<noteq> UNUSED"
proof (induction ps k arbitrary: j rule: find_unused.induct)
  case (2 p ps k)
  then show ?case by (cases j) (auto split: if_splits)
qed simp

lemma find_unused_cong: "map state xs = map state ys \<Longrightarrow> find_unused xs n = find_unused ys n"
proof (induction xs arbitrary: ys n)
  case (Cons x xs)
  then show ?case by (cases ys) auto
qed simp

text \<open>Used slots have pids of their own, all below the counter; unused ones have pid 0.\<close>

definition pid_ok :: "ptab \<Rightarrow> bool" where
  "pid_ok s \<longleftrightarrow> length (procs s) = NPROC \<and>
     (\<forall>i < NPROC. if state (procs s ! i) = UNUSED then pid (procs s ! i) = 0
        else 0 < pid (procs s ! i) \<and> pid (procs s ! i) < nextpid s) \<and>
     (\<forall>i < NPROC. \<forall>j < NPROC. state (procs s ! i) \<noteq> UNUSED \<and> pid (procs s ! i) = pid (procs s ! j) \<longrightarrow> i = j) \<and>
     0 < nextpid s"

lemma freeproc_procs:
  assumes "freeproc s i = Ok s'"
  shows "nextpid s' = nextpid s \<and> length (procs s') = length (procs s) \<and>
    (\<forall>j. j \<noteq> i \<longrightarrow> procs s' ! j = procs s ! j) \<and>
    (i < length (procs s) \<longrightarrow> state (procs s' ! i) = UNUSED \<and> pid (procs s' ! i) = 0 \<and>
       trapframe (procs s' ! i) = 0 \<and> pagetable (procs s' ! i) = 0 \<and> \<not> killed_flag (procs s' ! i))"
  using assms by (auto simp: freeproc_def Let_def bindR_eq_Ok)

lemma pid_ok_free:
  assumes "pid_ok s" and "nextpid s \<le> nextpid s'" and "length (procs s') = length (procs s)"
    and "\<And>j. j \<noteq> i \<Longrightarrow> procs s' ! j = procs s ! j"
    and "state (procs s' ! i) = UNUSED" and "pid (procs s' ! i) = 0"
  shows "pid_ok s'"
proof -
  have pos: "0 < nextpid s'" using assms(1,2) unfolding pid_ok_def by (metis less_le_trans)
  have old: "if state (procs s ! j) = UNUSED then pid (procs s ! j) = 0
      else 0 < pid (procs s ! j) \<and> pid (procs s ! j) < nextpid s'" if "j < NPROC" for j
  proof -
    have "if state (procs s ! j) = UNUSED then pid (procs s ! j) = 0
        else 0 < pid (procs s ! j) \<and> pid (procs s ! j) < nextpid s"
      using assms(1) that unfolding pid_ok_def by blast
    then show ?thesis using assms(2) by (auto split: if_splits)
  qed
  have len: "length (procs s') = NPROC" using assms(1,3) by (simp add: pid_ok_def)
  show ?thesis
    unfolding pid_ok_def
  proof (intro conjI allI impI)
    fix j :: nat
    assume j: "j < NPROC"
    show "if state (procs s' ! j) = UNUSED then pid (procs s' ! j) = 0
        else 0 < pid (procs s' ! j) \<and> pid (procs s' ! j) < nextpid s'"
      using old [OF j] assms(4-6) by (cases "j = i") auto
    fix k :: nat
    assume k: "k < NPROC" "state (procs s' ! j) \<noteq> UNUSED \<and> pid (procs s' ! j) = pid (procs s' ! k)"
    then have ji: "j \<noteq> i" using assms(5) by auto
    have "k \<noteq> i" using k old [OF j] assms(4) [OF ji] assms(6) by auto
    then show "j = k" using assms(1,4) k j ji unfolding pid_ok_def by metis
  qed (use pos len in auto)
qed

lemma pid_ok_new:
  assumes ok: "pid_ok s" and wrap: "nextpid s < nextpid s + 1" and i: "i < NPROC" "state (procs s ! i) = UNUSED"
    and len: "length (procs s') = length (procs s)" and np: "nextpid s' = nextpid s + 1"
    and oth: "\<And>j. j \<noteq> i \<Longrightarrow> procs s' ! j = procs s ! j"
    and new: "state (procs s' ! i) \<noteq> UNUSED" "pid (procs s' ! i) = nextpid s"
  shows "pid_ok s'"
proof -
  have pos: "0 < nextpid s" using ok by (simp add: pid_ok_def)
  have old: "if state (procs s ! j) = UNUSED then pid (procs s ! j) = 0
      else 0 < pid (procs s ! j) \<and> pid (procs s ! j) < nextpid s" if "j < NPROC" for j
    using ok that unfolding pid_ok_def by blast
  then have lt: "pid (procs s ! j) < nextpid s" if "j < NPROC" for j
    using that pos by (metis (full_types))
  show ?thesis
    unfolding pid_ok_def np
  proof (intro conjI allI impI)
    show "length (procs s') = NPROC" using ok len by (simp add: pid_ok_def)
    show "0 < nextpid s + 1" using pos wrap by (rule less_trans)
    fix j :: nat
    assume j: "j < NPROC"
    show "if state (procs s' ! j) = UNUSED then pid (procs s' ! j) = 0
        else 0 < pid (procs s' ! j) \<and> pid (procs s' ! j) < nextpid s + 1"
      using old [OF j] new oth [of j] pos wrap by (cases "j = i") (auto intro: less_trans)
    fix k :: nat
    assume k: "k < NPROC" "state (procs s' ! j) \<noteq> UNUSED \<and> pid (procs s' ! j) = pid (procs s' ! k)"
    show "j = k"
      using k j lt new oth ok unfolding pid_ok_def by (metis less_irrefl)
  qed
qed

lemma allocproc_cases:
  assumes "allocproc tramp fr s = Ok (r, s')" and "length (procs s) = NPROC"
  shows "(r = None \<and> find_unused (procs s) 0 = None \<and> s' = s) \<or>
    (\<exists>i. find_unused (procs s) 0 = Some i \<and> nextpid s' = nextpid s + 1 \<and>
       length (procs s') = NPROC \<and> (\<forall>j. j \<noteq> i \<longrightarrow> procs s' ! j = procs s ! j) \<and>
       (if r = None then state (procs s' ! i) = UNUSED \<and> pid (procs s' ! i) = 0
        else r = Some i \<and> state (procs s' ! i) = USED \<and> pid (procs s' ! i) = nextpid s \<and>
          trapframe (procs s' ! i) \<noteq> 0 \<and> pagetable (procs s' ! i) \<noteq> 0 \<and>
          killed_flag (procs s' ! i) = killed_flag (procs s ! i) \<and>
          pcontext (procs s' ! i) = context0\<lparr>ra := fr, sp := kstack (procs s ! i) + PGSIZE\<rparr>))"
proof (cases "find_unused (procs s) 0")
  case None
  then show ?thesis using assms by (simp add: allocproc_def)
next
  case (Some i)
  have i: "i < NPROC" using find_unused_Some [OF Some] assms(2) by simp
  obtain tf k1 where k: "kalloc (km s) = (tf, k1)" by (cases "kalloc (km s)")
  let ?s2 = "s\<lparr>nextpid := nextpid s + 1, km := k1,
    procs := upd i (\<lambda>p. p\<lparr>pid := nextpid s, state := USED, trapframe := tf\<rparr>) (procs s)\<rparr>"
  show ?thesis
  proof (cases "tf = 0")
    case True
    then obtain s3 where "freeproc ?s2 i = Ok s3" "r = None" "s' = s3"
      using assms Some k by (auto simp: allocproc_def allocpid_def Let_def bindR_eq_Ok)
    then show ?thesis
      using freeproc_procs [of ?s2 i s3] i assms(2) Some by (auto simp: upd_def)
  next
    case False
    then obtain pt k2 where p: "proc_pagetable k1 tramp tf = Ok (pt, k2)"
      using assms Some k by (auto simp: allocproc_def allocpid_def Let_def bindR_eq_Ok)
    let ?s3 = "?s2\<lparr>km := k2, procs := upd i (\<lambda>p. p\<lparr>pagetable := pt\<rparr>) (procs ?s2)\<rparr>"
    show ?thesis
    proof (cases "pt = 0")
      case True
      then obtain s4 where "freeproc ?s3 i = Ok s4" "r = None" "s' = s4"
        using assms Some k p False by (auto simp: allocproc_def allocpid_def Let_def bindR_eq_Ok)
      then show ?thesis
        using freeproc_procs [of ?s3 i s4] i assms(2) Some by (auto simp: upd_def)
    next
      case nz: False
      then show ?thesis
        using assms Some k p False i
        by (auto simp: allocproc_def allocpid_def Let_def upd_def)
    qed
  qed
qed

section \<open>Properties\<close>

text \<open>
  C34: \<^verbatim>\<open>allocproc\<close> keeps pids unique.  It either returns no process, leaving every used slot as it was, or
  the first unused slot, now with a pid that no other process has, a trapframe and a page table, and a
  context that starts in \<^verbatim>\<open>forkret\<close> on top of its own kernel stack.
\<close>

theorem allocproc_correct:
  assumes "pid_ok s" and "nextpid s < nextpid s + 1" and "allocproc tramp fr s = Ok (r, s')"
  shows "pid_ok s' \<and> (case r of
      None \<Rightarrow> \<forall>j < NPROC. state (procs s ! j) \<noteq> UNUSED \<longrightarrow> procs s' ! j = procs s ! j
    | Some i \<Rightarrow> i < NPROC \<and> state (procs s ! i) = UNUSED \<and> state (procs s' ! i) = USED \<and>
        pid (procs s' ! i) = nextpid s \<and> trapframe (procs s' ! i) \<noteq> 0 \<and> pagetable (procs s' ! i) \<noteq> 0 \<and>
        pcontext (procs s' ! i) = context0\<lparr>ra := fr, sp := kstack (procs s ! i) + PGSIZE\<rparr> \<and>
        (\<forall>j < NPROC. j \<noteq> i \<longrightarrow> procs s' ! j = procs s ! j))"
proof -
  have len: "length (procs s) = NPROC" using assms(1) by (simp add: pid_ok_def)
  show ?thesis
    using allocproc_cases [OF assms(3) len]
  proof (elim disjE exE)
    fix i
    assume a: "find_unused (procs s) 0 = Some i \<and> nextpid s' = nextpid s + 1 \<and>
       length (procs s') = NPROC \<and> (\<forall>j. j \<noteq> i \<longrightarrow> procs s' ! j = procs s ! j) \<and>
       (if r = None then state (procs s' ! i) = UNUSED \<and> pid (procs s' ! i) = 0
        else r = Some i \<and> state (procs s' ! i) = USED \<and> pid (procs s' ! i) = nextpid s \<and>
          trapframe (procs s' ! i) \<noteq> 0 \<and> pagetable (procs s' ! i) \<noteq> 0 \<and>
          killed_flag (procs s' ! i) = killed_flag (procs s ! i) \<and>
          pcontext (procs s' ! i) = context0\<lparr>ra := fr, sp := kstack (procs s ! i) + PGSIZE\<rparr>)"
    have i: "i < NPROC" "state (procs s ! i) = UNUSED"
      using find_unused_Some [of "procs s" 0 i] a len by auto
    show ?thesis
    proof (cases r)
      case None
      have "pid_ok s'"
        using a None len assms(2) by (intro pid_ok_free [OF assms(1), of s' i]) (auto intro: less_imp_le)
      then show ?thesis using None a i by auto
    next
      case (Some k)
      have "pid_ok s'"
        using a Some len by (intro pid_ok_new [OF assms(1,2) i]) auto
      then show ?thesis using Some a i by auto
    qed
  qed (use assms(1) in auto)
qed

definition ptab_ex :: ptab where
  "ptab_ex = \<lparr>km = \<lparr>mem = (\<lambda>_. 0), freelist = 0, kend = 0x80001234\<rparr>, procs = replicate NPROC proc0,
     nextpid = 1, initproc = None\<rparr>"

lemma pid_ok_ex: "pid_ok ptab_ex"
  by (simp add: pid_ok_def ptab_ex_def proc0_def)

lemma find_unused_ex: "find_unused (procs ptab_ex) 0 = Some 0"
proof -
  have "procs ptab_ex = proc0 # replicate 63 proc0"
    by (simp add: ptab_ex_def replicate_Suc [symmetric] del: replicate_Suc)
  then show ?thesis by (simp add: proc0_def)
qed

theorem allocproc_correct_witness:
  "\<exists>s'. allocproc 0 0 ptab_ex = Ok (None, s') \<and> pid_ok s'"
proof -
  obtain s' where s': "allocproc 0 0 ptab_ex = Ok (None, s')"
    using find_unused_ex
    by (simp add: allocproc_def allocpid_def ptab_ex_def kalloc_def Let_def freeproc_def upd_def proc0_def)
  then show ?thesis
    using allocproc_correct [OF pid_ok_ex _ s'] by (simp add: ptab_ex_def)
qed

lemma kill_none: "(\<And>p. p \<in> set ps \<Longrightarrow> pid p \<noteq> pd) \<Longrightarrow> kill pd ps = (-1, ps)"
  by (induction ps) auto

lemma kill_first:
  "i < length ps \<Longrightarrow> pid (ps ! i) = pd \<Longrightarrow> (\<And>j. j < i \<Longrightarrow> pid (ps ! j) \<noteq> pd) \<Longrightarrow>
   kill pd ps = (0, ps[i := (ps ! i)\<lparr>killed_flag := True,
     state := if state (ps ! i) = SLEEPING then RUNNABLE else state (ps ! i)\<rparr>])"
proof (induction ps arbitrary: i)
  case (Cons p ps)
  show ?case
  proof (cases i)
    case 0
    then show ?thesis using Cons.prems by (simp add: Let_def)
  next
    case (Suc j)
    have "pid p \<noteq> pd" using Cons.prems(3) [of 0] Suc by simp
    moreover have "kill pd ps = (0, ps[j := (ps ! j)\<lparr>killed_flag := True,
        state := if state (ps ! j) = SLEEPING then RUNNABLE else state (ps ! j)\<rparr>])"
    proof (rule Cons.IH)
      fix k
      assume "k < j"
      then show "pid (ps ! k) \<noteq> pd" using Cons.prems(3) [of "Suc k"] Suc by simp
    qed (use Cons.prems Suc in auto)
    ultimately show ?thesis using Suc by simp
  qed
qed simp

text \<open>
  C35: \<^verbatim>\<open>kill\<close> of the pid of a process marks exactly that process as killed and wakes it if it sleeps; of any
  other pid but 0 it returns -1 and changes nothing.
\<close>

theorem kill_correct:
  assumes "pid_ok s" and "pd \<noteq> 0"
  shows "(\<exists>i < NPROC. state (procs s ! i) \<noteq> UNUSED \<and> pid (procs s ! i) = pd \<and>
      kill pd (procs s) = (0, (procs s)[i := (procs s ! i)\<lparr>killed_flag := True,
        state := if state (procs s ! i) = SLEEPING then RUNNABLE else state (procs s ! i)\<rparr>])) \<or>
    ((\<forall>i < NPROC. pid (procs s ! i) \<noteq> pd) \<and> kill pd (procs s) = (-1, procs s))"
proof (cases "\<exists>i < NPROC. pid (procs s ! i) = pd")
  case True
  then obtain i where i: "i < NPROC" "pid (procs s ! i) = pd" by blast
  then have used: "state (procs s ! i) \<noteq> UNUSED" using assms unfolding pid_ok_def by metis
  have len: "length (procs s) = NPROC" using assms(1) by (simp add: pid_ok_def)
  have "pid (procs s ! j) \<noteq> pd" if "j < i" for j
  proof
    assume "pid (procs s ! j) = pd"
    then have "i = j" using assms(1) i used that unfolding pid_ok_def by (metis less_trans)
    then show False using that by simp
  qed
  then show ?thesis using kill_first [of i "procs s" pd] i used len by auto
next
  case False
  have len: "length (procs s) = NPROC" using assms(1) by (simp add: pid_ok_def)
  then show ?thesis
    using False kill_none [of "procs s" pd] by (auto simp: in_set_conv_nth)
qed

theorem kill_correct_witness: "kill 7 (procs ptab_ex) = (-1, procs ptab_ex)"
proof -
  have "pid (procs ptab_ex ! i) \<noteq> 7" if "i < NPROC" for i
    using that by (simp add: ptab_ex_def proc0_def)
  then show ?thesis using kill_correct [OF pid_ok_ex, of 7] by auto
qed

text \<open>
  \<^verbatim>\<open>kill(0)\<close> finds the first unused slot, since unused slots have pid 0, marks it as killed and returns 0;
  \<^verbatim>\<open>allocproc\<close> does not clear the mark, so the next process made in that slot starts out killed.
\<close>

lemma kill_zero_poisons:
  assumes "pid_ok s" and "find_unused (procs s) 0 = Some i"
    and "allocproc tramp fr (s\<lparr>procs := snd (kill 0 (procs s))\<rparr>) = Ok (Some j, s')"
  shows "fst (kill 0 (procs s)) = 0 \<and> j = i \<and> killed_flag (procs s' ! i)"
proof -
  have len: "length (procs s) = NPROC" using assms(1) by (simp add: pid_ok_def)
  have i: "i < NPROC" "state (procs s ! i) = UNUSED" using find_unused_Some [OF assms(2)] len by auto
  have "pid (procs s ! k) \<noteq> 0" if "k < i" for k
    using find_unused_first [OF assms(2), of k] assms(1) that i unfolding pid_ok_def
    by (metis (full_types) less_irrefl less_trans minus_nat.diff_0)
  moreover have "pid (procs s ! i) = 0" using assms(1) i unfolding pid_ok_def by metis
  ultimately have k: "kill 0 (procs s) = (0, (procs s)[i := (procs s ! i)\<lparr>killed_flag := True, state := UNUSED\<rparr>])"
    using kill_first [of i "procs s" 0] i len by simp
  let ?ps = "(procs s)[i := (procs s ! i)\<lparr>killed_flag := True, state := UNUSED\<rparr>]"
  have "map state ?ps = map state (procs s)" using i len by (simp add: map_update list_update_same_conv)
  then have "find_unused ?ps 0 = Some i" using assms(2) find_unused_cong by metis
  then show ?thesis
    using allocproc_cases [OF assms(3)] k i len by auto
qed

text \<open>
  \<^verbatim>\<open>kcollect_nproc\<close> looks at the first \<^verbatim>\<open>NCPU\<close> slots only, not at all \<^verbatim>\<open>NPROC\<close>: a process in slot 8 is
  not counted.
\<close>

lemma kcollect_nproc_misses:
  "kcollect_nproc (replicate 8 proc0 @ [proc0\<lparr>state := RUNNING\<rparr>] @ replicate 55 proc0) = 0"
  by (simp add: kcollect_nproc_def proc0_def)

end
