(* ===== verification/Xv6_Sched.thy ===== *)
theory Xv6_Sched
  imports Xv6_Proc
begin

text \<open>
  Scheduling in \<^verbatim>\<open>kernel/proc.c\<close>: what \<^verbatim>\<open>scheduler\<close>, \<^verbatim>\<open>sched\<close>, \<^verbatim>\<open>yield\<close>, \<^verbatim>\<open>sleep\<close> and \<^verbatim>\<open>wakeup\<close> do to the process
  table when they interleave on several CPUs.  \<open>sstep\<close> has one step for each critical section of
  \<^verbatim>\<open>p->lock\<close>; \<open>wstep\<close> takes \<^verbatim>\<open>sleep\<close> and \<^verbatim>\<open>wakeup\<close> apart into single accesses, for one process that
  waits for a condition under a lock and one that makes the condition true.
\<close>

section \<open>One CPU\<close>

definition scheduler_pick :: "nat \<Rightarrow> proc list \<Rightarrow> proc list option" where
  "scheduler_pick i ps =
     (if i < length ps \<and> state (ps ! i) = RUNNABLE then Some (upd i (\<lambda>p. p\<lparr>state := RUNNING\<rparr>) ps)
      else None)"

definition sched :: "nat \<Rightarrow> spinlock \<Rightarrow> cpu \<Rightarrow> proc \<Rightarrow> bool res" where
  "sched c lk cp p =
     (if \<not> holding lk c then Panic ''sched p->lock''
      else if noff cp \<noteq> 1 then Panic ''sched locks''
      else if state p = RUNNING then Panic ''sched running''
      else if sie cp then Panic ''sched interruptible''
      else Ok (intena cp))"

definition yield_enter :: "nat \<Rightarrow> proc list \<Rightarrow> proc list" where
  "yield_enter me ps = upd me (\<lambda>p. p\<lparr>state := RUNNABLE\<rparr>) ps"

text \<open>\<^verbatim>\<open>yield\<close> up to its context switch: the checks of \<^verbatim>\<open>sched\<close> are made with \<^verbatim>\<open>p->lock\<close> held.\<close>

definition yield :: "nat \<Rightarrow> nat \<Rightarrow> spinlock \<Rightarrow> cpu \<Rightarrow> proc list \<Rightarrow> (spinlock \<times> cpu \<times> bool \<times> proc list) res" where
  "yield c me lk cp ps =
     bindR (acquire c lk cp) (\<lambda>(lk1, cp1).
     let ps1 = yield_enter me ps in
     bindR (sched c lk1 cp1 (ps1 ! me)) (\<lambda>saved. Ok (lk1, cp1, saved, ps1)))"

section \<open>Several CPUs\<close>

record ssys =
  sprocs :: "proc list"
  running :: "nat \<Rightarrow> nat option"

inductive sstep :: "ssys \<Rightarrow> ssys \<Rightarrow> bool" where
  pick: "running s c = None \<Longrightarrow> scheduler_pick i (sprocs s) = Some ps \<Longrightarrow>
    sstep s (s\<lparr>sprocs := ps, running := (running s)(c := Some i)\<rparr>)"
| yields: "running s c = Some i \<Longrightarrow>
    sstep s (s\<lparr>sprocs := yield_enter i (sprocs s), running := (running s)(c := None)\<rparr>)"
| sleeps: "running s c = Some i \<Longrightarrow>
    sstep s (s\<lparr>sprocs := sleep_enter i ch (sprocs s), running := (running s)(c := None)\<rparr>)"
| tidies: "running s c = Some i \<Longrightarrow> sstep s (s\<lparr>sprocs := sleep_exit i (sprocs s)\<rparr>)"
| exits: "running s c = Some i \<Longrightarrow>
    sstep s (s\<lparr>sprocs := upd i (\<lambda>p. p\<lparr>xstate := st, state := ZOMBIE\<rparr>) (sprocs s),
      running := (running s)(c := None)\<rparr>)"
| wakes: "sstep s (s\<lparr>sprocs := wakeup (running s c) ch (sprocs s)\<rparr>)"
| kills: "running s c = Some i \<Longrightarrow> sstep s (s\<lparr>sprocs := snd (kill pd (sprocs s))\<rparr>)"
| allocs: "running s c = Some i \<Longrightarrow> find_unused (sprocs s) 0 = Some j \<Longrightarrow>
    sstep s (s\<lparr>sprocs := upd j (\<lambda>p. p\<lparr>pid := pd, state := USED\<rparr>) (sprocs s)\<rparr>)"
| readies: "running s c = Some i \<Longrightarrow> j < length (sprocs s) \<Longrightarrow> state (sprocs s ! j) = USED \<Longrightarrow>
    sstep s (s\<lparr>sprocs := upd j (\<lambda>p. p\<lparr>state := RUNNABLE\<rparr>) (sprocs s)\<rparr>)"
| frees: "running s c = Some i \<Longrightarrow> j < length (sprocs s) \<Longrightarrow> state (sprocs s ! j) \<in> {USED, ZOMBIE} \<Longrightarrow>
    sstep s (s\<lparr>sprocs := upd j (\<lambda>p. p\<lparr>pid := 0, parent := None, chan := None, killed_flag := False,
      xstate := 0, state := UNUSED\<rparr>) (sprocs s)\<rparr>)"

inductive sreach :: "ssys \<Rightarrow> bool" where
  init: "(\<And>p. p \<in> set (sprocs s) \<Longrightarrow> state p \<noteq> RUNNING) \<Longrightarrow> (\<And>c. running s c = None) \<Longrightarrow> sreach s"
| step: "sreach s \<Longrightarrow> sstep s s' \<Longrightarrow> sreach s'"

definition sinv :: "ssys \<Rightarrow> bool" where
  "sinv s \<longleftrightarrow>
     (\<forall>c i. running s c = Some i \<longrightarrow>
        i < length (sprocs s) \<and> state (sprocs s ! i) = RUNNING \<and> (\<forall>c'. running s c' = Some i \<longrightarrow> c' = c)) \<and>
     (\<forall>i < length (sprocs s). state (sprocs s ! i) = RUNNING \<longrightarrow> (\<exists>c. running s c = Some i))"

lemmas sched_defs = yield_enter_def sleep_enter_def sleep_exit_def scheduler_pick_def

text \<open>A step that neither starts nor stops a running process.\<close>

lemma sinv_same:
  assumes "sinv s" and "length (sprocs s') = length (sprocs s)" and "running s' = running s"
    and "\<And>i. i < length (sprocs s) \<Longrightarrow> state (sprocs s' ! i) = RUNNING \<longleftrightarrow> state (sprocs s ! i) = RUNNING"
  shows "sinv s'"
  using assms by (simp add: sinv_def)

lemma sinv_stop:
  assumes inv: "sinv s" and c: "running s c = Some i" and len: "length ps = length (sprocs s)"
    and st: "\<And>j. j < length ps \<Longrightarrow> state (ps ! j) = RUNNING \<longleftrightarrow> j \<noteq> i \<and> state (sprocs s ! j) = RUNNING"
  shows "sinv (s\<lparr>sprocs := ps, running := (running s)(c := None)\<rparr>)"
proof -
  let ?s = "s\<lparr>sprocs := ps, running := (running s)(c := None)\<rparr>"
  have only: "c' = c" if "running s c' = Some i" for c' using inv c that unfolding sinv_def by blast
  have run: "running s c' = Some j" "j \<noteq> i" "j < length ps" "state (sprocs s ! j) = RUNNING"
    if r: "running ?s c' = Some j" for c' j
  proof -
    show "running s c' = Some j" "j \<noteq> i" using r only [of c'] by (auto split: if_splits)
    then show "j < length ps" "state (sprocs s ! j) = RUNNING" using inv len unfolding sinv_def by auto
  qed
  show ?thesis
    unfolding sinv_def
  proof (intro conjI allI impI)
    fix c1 j c2
    assume "running ?s c1 = Some j" "running ?s c2 = Some j"
    then have "running s c1 = Some j" "running s c2 = Some j" using run(1) by blast+
    then show "c2 = c1" using inv unfolding sinv_def by blast
  next
    fix j
    assume "j < length (sprocs ?s)" "state (sprocs ?s ! j) = RUNNING"
    then have j: "j \<noteq> i" "j < length (sprocs s)" "state (sprocs s ! j) = RUNNING" using st [of j] len by auto
    then obtain c' where "running s c' = Some j" using inv unfolding sinv_def by blast
    then show "\<exists>c'. running ?s c' = Some j" using c j(1) by (intro exI [of _ c']) auto
  qed (use run st in auto)
qed

lemma sinv_step:
  assumes inv: "sinv s" and "sstep s s'"
  shows "sinv s'"
  using assms(2)
proof cases
  case (pick c i ps)
  have i: "i < length (sprocs s)" "state (sprocs s ! i) = RUNNABLE" "ps = upd i (\<lambda>p. p\<lparr>state := RUNNING\<rparr>) (sprocs s)"
    using pick by (auto simp: scheduler_pick_def split: if_splits)
  have no: "running s c' \<noteq> Some i" for c' using inv i unfolding sinv_def by auto
  have r: "running s' c' = Some j \<longleftrightarrow> (if c' = c then j = i else running s c' = Some j)" for c' j
    using pick by auto
  have st: "length (sprocs s') = length (sprocs s)"
    "j < length (sprocs s) \<Longrightarrow> state (sprocs s' ! j) = RUNNING \<longleftrightarrow> j = i \<or> state (sprocs s ! j) = RUNNING" for j
    using pick i by (auto simp: nth_upd)
  show ?thesis
    unfolding sinv_def st(1)
  proof (intro conjI allI impI)
    fix c1 j c2
    assume "running s' c1 = Some j" "running s' c2 = Some j"
    then show "c2 = c1" using no inv unfolding r sinv_def by (metis (full_types))
  next
    fix j
    assume "j < length (sprocs s)" "state (sprocs s' ! j) = RUNNING"
    then have "j = i \<or> (\<exists>c'. running s c' = Some j)" using st inv unfolding sinv_def by blast
    then show "\<exists>c'. running s' c' = Some j"
      using pick(2) unfolding r by (metis option.distinct(1))
  qed (use i no st inv in \<open>auto simp: r sinv_def split: if_splits\<close>)
next
  case (yields c i)
  then show ?thesis by (auto simp: sched_defs nth_upd intro!: sinv_stop [OF inv] split: if_splits)
next
  case (sleeps c i ch)
  then show ?thesis by (auto simp: sched_defs nth_upd intro!: sinv_stop [OF inv] split: if_splits)
next
  case (tidies c i)
  then show ?thesis by (auto simp: sched_defs nth_upd intro!: sinv_same [OF inv] split: if_splits)
next
  case (exits c i st)
  then show ?thesis by (auto simp: nth_upd intro!: sinv_stop [OF inv] split: if_splits)
next
  case (wakes c ch)
  then show ?thesis by (auto simp: nth_wakeup intro!: sinv_same [OF inv] split: if_splits)
next
  case (kills c i pd)
  then show ?thesis by (auto simp: kill_running intro!: sinv_same [OF inv])
next
  case (allocs c i j pd)
  then show ?thesis
    using find_unused_Some [OF allocs(3)] by (auto simp: nth_upd intro!: sinv_same [OF inv] split: if_splits)
next
  case (readies c i j)
  then show ?thesis by (auto simp: nth_upd intro!: sinv_same [OF inv] split: if_splits)
next
  case (frees c i j)
  then show ?thesis by (auto simp: nth_upd intro!: sinv_same [OF inv] split: if_splits)
qed

lemma sinv_reach: "sreach s \<Longrightarrow> sinv s"
proof (induction rule: sreach.induct)
  case (init s)
  then show ?case by (simp add: sinv_def)
next
  case (step s s')
  then show ?case using sinv_step by blast
qed

section \<open>Sleeping on a condition\<close>

text \<open>
  Process 0 runs \<^verbatim>\<open>acquire(lk); while(!cond) sleep(chan, lk); release(lk)\<close> and process 1 runs
  \<^verbatim>\<open>acquire(lk); cond = 1; wakeup(chan); release(lk)\<close>, as the kernel does everywhere.  \<open>lkh\<close> and \<open>plh\<close> are
  the holders of \<^verbatim>\<open>lk\<close> and of the sleeper's \<^verbatim>\<open>p->lock\<close>.  The program counters of the sleeper follow
  the statements of \<^verbatim>\<open>sleep\<close>; \<open>S_asleep\<close> is the time between its two context switches.
\<close>

datatype spc = S_start | S_test | S_plock | S_unlock | S_set | S_sched | S_asleep | S_tidy | S_prel
  | S_body | S_done

datatype wpc = W_start | W_set | W_plock | W_wake | W_prel | W_rel | W_done

record wsys =
  wps :: "proc list"
  cond :: bool
  lkh :: "nat option"
  plh :: "nat option"
  spc :: spc
  wpc :: wpc

fun sleeper :: "chan \<Rightarrow> wsys \<Rightarrow> wsys option" where
  "sleeper ch s = (case spc s of
     S_start \<Rightarrow> if lkh s = None then Some (s\<lparr>lkh := Some 0, spc := S_test\<rparr>) else None
   | S_test \<Rightarrow> Some (if cond s then s\<lparr>spc := S_body\<rparr> else s\<lparr>spc := S_plock\<rparr>)
   | S_plock \<Rightarrow> if plh s = None then Some (s\<lparr>plh := Some 0, spc := S_unlock\<rparr>) else None
   | S_unlock \<Rightarrow> Some (s\<lparr>lkh := None, spc := S_set\<rparr>)
   | S_set \<Rightarrow> Some (s\<lparr>wps := sleep_enter 0 ch (wps s), spc := S_sched\<rparr>)
   | S_sched \<Rightarrow> Some (s\<lparr>plh := None, spc := S_asleep\<rparr>)
   | S_asleep \<Rightarrow> if plh s = None
       then map_option (\<lambda>ps. s\<lparr>wps := ps, plh := Some 0, spc := S_tidy\<rparr>) (scheduler_pick 0 (wps s))
       else None
   | S_tidy \<Rightarrow> Some (s\<lparr>wps := sleep_exit 0 (wps s), spc := S_prel\<rparr>)
   | S_prel \<Rightarrow> Some (s\<lparr>plh := None, spc := S_start\<rparr>)
   | S_body \<Rightarrow> Some (s\<lparr>lkh := None, spc := S_done\<rparr>)
   | S_done \<Rightarrow> None)"

fun waker :: "chan \<Rightarrow> wsys \<Rightarrow> wsys option" where
  "waker ch s = (case wpc s of
     W_start \<Rightarrow> if lkh s = None then Some (s\<lparr>lkh := Some 1, wpc := W_set\<rparr>) else None
   | W_set \<Rightarrow> Some (s\<lparr>cond := True, wpc := W_plock\<rparr>)
   | W_plock \<Rightarrow> if plh s = None then Some (s\<lparr>plh := Some 1, wpc := W_wake\<rparr>) else None
   | W_wake \<Rightarrow> Some (s\<lparr>wps := wakeup (Some 1) ch (wps s), wpc := W_prel\<rparr>)
   | W_prel \<Rightarrow> Some (s\<lparr>plh := None, wpc := W_rel\<rparr>)
   | W_rel \<Rightarrow> Some (s\<lparr>lkh := None, wpc := W_done\<rparr>)
   | W_done \<Rightarrow> None)"

inductive wreach :: "chan \<Rightarrow> wsys \<Rightarrow> bool" for ch where
  init: "length (wps s) = 2 \<Longrightarrow> state (wps s ! 0) = RUNNING \<Longrightarrow> \<not> cond s \<Longrightarrow> lkh s = None \<Longrightarrow>
    plh s = None \<Longrightarrow> spc s = S_start \<Longrightarrow> wpc s = W_start \<Longrightarrow> wreach ch s"
| sleeper: "wreach ch s \<Longrightarrow> sleeper ch s = Some s' \<Longrightarrow> wreach ch s'"
| waker: "wreach ch s \<Longrightarrow> waker ch s = Some s' \<Longrightarrow> wreach ch s'"

definition winv :: "chan \<Rightarrow> wsys \<Rightarrow> bool" where
  "winv ch s \<longleftrightarrow>
     length (wps s) = 2 \<and>
     (lkh s = Some 0 \<longleftrightarrow> spc s \<in> {S_test, S_plock, S_unlock, S_body}) \<and>
     (lkh s = Some 1 \<longleftrightarrow> wpc s \<in> {W_set, W_plock, W_wake, W_prel, W_rel}) \<and>
     (plh s = Some 0 \<longleftrightarrow> spc s \<in> {S_unlock, S_set, S_sched, S_tidy, S_prel}) \<and>
     (plh s = Some 1 \<longleftrightarrow> wpc s \<in> {W_wake, W_prel}) \<and>
     (lkh s = None \<or> lkh s = Some 0 \<or> lkh s = Some 1) \<and> (plh s = None \<or> plh s = Some 0 \<or> plh s = Some 1) \<and>
     (cond s \<longleftrightarrow> wpc s \<notin> {W_start, W_set}) \<and>
     (spc s \<in> {S_plock, S_unlock} \<longrightarrow> wpc s = W_start) \<and>
     (spc s \<in> {S_set, S_sched} \<longrightarrow> wpc s \<in> {W_start, W_set, W_plock}) \<and>
     (spc s = S_sched \<longrightarrow> state (wps s ! 0) = SLEEPING \<and> chan (wps s ! 0) = Some ch) \<and>
     (spc s = S_asleep \<longrightarrow> state (wps s ! 0) = RUNNABLE \<or>
        state (wps s ! 0) = SLEEPING \<and> chan (wps s ! 0) = Some ch \<and> wpc s \<in> {W_start, W_set, W_plock, W_wake}) \<and>
     (spc s \<in> {S_start, S_test, S_plock, S_unlock, S_set, S_tidy, S_prel, S_body, S_done} \<longrightarrow> state (wps s ! 0) = RUNNING)"

lemma winv_sleeper: "winv ch s \<Longrightarrow> sleeper ch s = Some s' \<Longrightarrow> winv ch s'"
  by (cases s; cases "spc s"; cases "wpc s"; clarsimp simp: winv_def sched_defs nth_upd split: if_splits)

lemma winv_waker: "winv ch s \<Longrightarrow> waker ch s = Some s' \<Longrightarrow> winv ch s'"
  by (cases s; cases "wpc s"; cases "spc s"; clarsimp simp: winv_def nth_wakeup split: if_splits)

lemma winv_reach: "wreach ch s \<Longrightarrow> winv ch s"
proof (induction rule: wreach.induct)
  case (init s)
  then show ?case by (simp add: winv_def)
qed (blast intro: winv_sleeper winv_waker)+

section \<open>Properties\<close>

text \<open>
  C5: A process is in state \<^verbatim>\<open>RUNNING\<close> exactly while some CPU runs it, and no two CPUs run the same
  process, however \<^verbatim>\<open>scheduler\<close>, \<^verbatim>\<open>yield\<close>, \<^verbatim>\<open>sleep\<close>, \<^verbatim>\<open>wakeup\<close>, \<^verbatim>\<open>kill\<close>, \<^verbatim>\<open>fork\<close>, \<^verbatim>\<open>exit\<close> and \<^verbatim>\<open>wait\<close> interleave.
\<close>

theorem running_on_one_cpu:
  assumes "sreach s"
  shows "(\<forall>c c' i. running s c = Some i \<and> running s c' = Some i \<longrightarrow> c = c') \<and>
    (\<forall>i < length (sprocs s). state (sprocs s ! i) = RUNNING \<longleftrightarrow> (\<exists>c. running s c = Some i))"
  using sinv_reach [OF assms] unfolding sinv_def by blast

definition ssys_ex :: ssys where
  "ssys_ex = \<lparr>sprocs = [proc0\<lparr>state := RUNNING\<rparr>, proc0], running = (\<lambda>_. None)(3 := Some 0)\<rparr>"

lemma sreach_example: "sreach ssys_ex"
proof -
  let ?s = "\<lparr>sprocs = [proc0\<lparr>state := RUNNABLE\<rparr>, proc0], running = (\<lambda>_. None)\<rparr>"
  have "sreach ?s" by (rule sreach.init) (auto simp: proc0_def)
  moreover have "sstep ?s (?s\<lparr>sprocs := [proc0\<lparr>state := RUNNING\<rparr>, proc0],
      running := (running ?s)(3 := Some 0)\<rparr>)"
    by (rule sstep.pick) (simp_all add: scheduler_pick_def upd_def)
  ultimately show ?thesis using sreach.step by (fastforce simp: ssys_ex_def)
qed

lemma ssys_ex_state: "0 < length (sprocs ssys_ex)" "state (sprocs ssys_ex ! 0) = RUNNING"
  by (simp_all add: ssys_ex_def)

theorem running_on_one_cpu_witness: "\<exists>c. running ssys_ex c = Some 0"
  using running_on_one_cpu [OF sreach_example] ssys_ex_state by blast

text \<open>
  C3: No wakeup is lost.  Once the process that makes the condition true has returned from
  \<^verbatim>\<open>wakeup\<close> and released the lock, the sleeper is never left sleeping: it is past its loop, or it can
  take its next step, whatever the order in which the two ran so far.
\<close>

theorem no_lost_wakeup:
  assumes "wreach ch s" and "wpc s = W_done"
  shows "cond s \<and> (spc s = S_asleep \<longrightarrow> state (wps s ! 0) = RUNNABLE) \<and>
    (spc s = S_done \<or> (\<exists>s'. sleeper ch s = Some s'))"
proof -
  have "winv ch s" using winv_reach [OF assms(1)] .
  then show ?thesis
    using assms(2) by (cases s; cases "spc s"; clarsimp simp: winv_def scheduler_pick_def)
qed

fun run_all :: "chan \<Rightarrow> bool list \<Rightarrow> wsys \<Rightarrow> wsys option" where
  "run_all ch [] s = Some s"
| "run_all ch (b # bs) s = Option.bind (if b then sleeper ch s else waker ch s) (run_all ch bs)"

lemma run_all_reach: "wreach ch s \<Longrightarrow> run_all ch bs s = Some s' \<Longrightarrow> wreach ch s'"
proof (induction bs arbitrary: s)
  case (Cons b bs)
  then obtain s1 where "(if b then sleeper ch s else waker ch s) = Some s1" "run_all ch bs s1 = Some s'"
    by (auto simp: bind_eq_Some_conv)
  then show ?case using Cons by (metis wreach.sleeper wreach.waker)
qed simp

definition wsys0 :: wsys where
  "wsys0 = \<lparr>wps = [proc0\<lparr>state := RUNNING\<rparr>, proc0], cond = False, lkh = None, plh = None,
     spc = S_start, wpc = W_start\<rparr>"

theorem no_lost_wakeup_witness:
  "\<exists>s. run_all Chan_log ([True, True, True, True, False, False, True, True] @ replicate 4 False) wsys0 = Some s \<and>
     wpc s = W_done \<and> spc s = S_asleep \<and> state (wps s ! 0) = RUNNABLE"
proof -
  let ?bs = "[True, True, True, True, False, False, True, True] @ replicate 4 False"
  have "wreach Chan_log wsys0" by (rule wreach.init) (simp_all add: wsys0_def)
  moreover obtain s where s: "run_all Chan_log ?bs wsys0 = Some s" "wpc s = W_done" "spc s = S_asleep"
    by (simp add: wsys0_def sched_defs upd_def numeral_eq_Suc)
  ultimately show ?thesis using no_lost_wakeup [of Chan_log s] run_all_reach by blast
qed

end
