(* ===== verification/Xv6_Bio.thy ===== *)
theory Xv6_Bio
  imports Xv6_Sched
begin

text \<open>
  \<^verbatim>\<open>kernel/sleeplock.c\<close> and \<^verbatim>\<open>kernel/bio.c\<close>: sleep-locks and the buffer cache.  Buffers are indices into
  \<^verbatim>\<open>bcache.buf\<close>; index \<open>bhead\<close> is \<^verbatim>\<open>bcache.head\<close>.  The doubly linked LRU list is kept as the \<^verbatim>\<open>next\<close> and
  \<^verbatim>\<open>prev\<close> indices of the source, and refined to a list of buffers by \<open>ring\<close>.  The disk is an
  array of blocks; \<open>writes\<close> records the blocks written to it, oldest first, for the argument
  about crashes.  \<open>woken\<close> records the channels that were passed to \<^verbatim>\<open>wakeup\<close>.  \<open>curpid\<close> is the pid of the process that runs.  An operation that would have to
  wait for a sleep-lock has the outcome \<open>Sleeps\<close>.
\<close>

section \<open>Sleep-locks\<close>

record sleeplock =
  slocked :: bool
  spid :: u32

definition initsleeplock :: sleeplock where
  "initsleeplock = \<lparr>slocked = False, spid = 0\<rparr>"

definition acquiresleep :: "u32 \<Rightarrow> sleeplock \<Rightarrow> sleeplock res" where
  "acquiresleep p lk = (if slocked lk then Sleeps ''sleep lock'' else Ok (lk\<lparr>slocked := True, spid := p\<rparr>))"

definition releasesleep :: "sleeplock \<Rightarrow> sleeplock" where
  "releasesleep lk = lk\<lparr>slocked := False, spid := 0\<rparr>"

definition holdingsleep :: "u32 \<Rightarrow> sleeplock \<Rightarrow> bool" where
  "holdingsleep p lk \<longleftrightarrow> slocked lk \<and> spid lk = p"

section \<open>The buffer cache\<close>

abbreviation (input) BSIZE :: nat where
  "BSIZE \<equiv> 1024"

record buf =
  valid :: bool
  dev :: u32
  blockno :: u32
  block :: sleeplock
  refcnt :: u32
  prev :: nat
  nxt :: nat
  data :: "u8 list"

abbreviation (input) bhead :: nat where
  "bhead \<equiv> NBUF"

record bio =
  bufs :: "nat \<Rightarrow> buf"
  disk :: "u32 \<Rightarrow> u8 list"
  writes :: "(u32 \<times> u8 list) list"
  curpid :: u32
  woken :: "chan list"

definition wake :: "chan \<Rightarrow> bio \<Rightarrow> bio" where
  "wake ch s = s\<lparr>woken := woken s @ [ch]\<rparr>"

definition updb :: "nat \<Rightarrow> (buf \<Rightarrow> buf) \<Rightarrow> bio \<Rightarrow> bio" where
  "updb i f s = s\<lparr>bufs := (bufs s)(i := f (bufs s i))\<rparr>"

text \<open>The statements that put a buffer right after the head are those of \<^verbatim>\<open>binit\<close> and of \<^verbatim>\<open>brelse\<close>.\<close>

definition insert_head :: "nat \<Rightarrow> bio \<Rightarrow> bio" where
  "insert_head b s =
     (let s1 = updb b (\<lambda>x. x\<lparr>nxt := nxt (bufs s bhead)\<rparr>) s;
          s2 = updb b (\<lambda>x. x\<lparr>prev := bhead\<rparr>) s1;
          s3 = updb (nxt (bufs s2 bhead)) (\<lambda>x. x\<lparr>prev := b\<rparr>) s2
      in updb bhead (\<lambda>x. x\<lparr>nxt := b\<rparr>) s3)"

definition unlink_buf :: "nat \<Rightarrow> bio \<Rightarrow> bio" where
  "unlink_buf b s =
     (let s1 = updb (nxt (bufs s b)) (\<lambda>x. x\<lparr>prev := prev (bufs s b)\<rparr>) s
      in updb (prev (bufs s1 b)) (\<lambda>x. x\<lparr>nxt := nxt (bufs s1 b)\<rparr>) s1)"

primrec binit_from :: "nat \<Rightarrow> bio \<Rightarrow> bio" where
  "binit_from 0 s = s"
| "binit_from (Suc k) s =
     (let b = NBUF - Suc k
      in binit_from k (insert_head b (updb b (\<lambda>x. x\<lparr>block := initsleeplock\<rparr>) s)))"

definition binit :: "bio \<Rightarrow> bio" where
  "binit s = binit_from NBUF (updb bhead (\<lambda>x. x\<lparr>prev := bhead, nxt := bhead\<rparr>) s)"

text \<open>
  The two loops of \<^verbatim>\<open>bget\<close> follow the links until they are back at the head.  The first argument
  bounds the number of steps; the list has \<^verbatim>\<open>NBUF\<close> buffers.
\<close>

primrec scan :: "nat \<Rightarrow> (buf \<Rightarrow> nat) \<Rightarrow> (buf \<Rightarrow> bool) \<Rightarrow> bio \<Rightarrow> nat \<Rightarrow> nat option res" where
  "scan 0 step P s b = (if b = bhead then Ok None else Diverges)"
| "scan (Suc k) step P s b =
     (if b = bhead then Ok None
      else if P (bufs s b) then Ok (Some b)
      else scan k step P s (step (bufs s b)))"

definition lock_buf :: "nat \<Rightarrow> bio \<Rightarrow> (nat \<times> bio) res" where
  "lock_buf b s =
     bindR (acquiresleep (curpid s) (block (bufs s b))) (\<lambda>lk. Ok (b, updb b (\<lambda>x. x\<lparr>block := lk\<rparr>) s))"

definition bget :: "u32 \<Rightarrow> u32 \<Rightarrow> bio \<Rightarrow> (nat \<times> bio) res" where
  "bget dv bn s =
     bindR (scan NBUF nxt (\<lambda>x. dev x = dv \<and> blockno x = bn) s (nxt (bufs s bhead))) (\<lambda>found.
     case found of
       Some b \<Rightarrow> lock_buf b (updb b (\<lambda>x. x\<lparr>refcnt := refcnt x + 1\<rparr>) s)
     | None \<Rightarrow>
         bindR (scan NBUF prev (\<lambda>x. refcnt x = 0) s (prev (bufs s bhead))) (\<lambda>unused.
         case unused of
           Some b \<Rightarrow> lock_buf b (updb b (\<lambda>x. x\<lparr>dev := dv, blockno := bn, valid := False, refcnt := 1\<rparr>) s)
         | None \<Rightarrow> Panic ''bget: no buffers''))"

text \<open>
  \<^verbatim>\<open>virtio_disk_rw\<close> moves one block between a buffer and the disk; \<^verbatim>\<open>Xv6_Virtio\<close> models the driver.
\<close>

definition disk_rw :: "nat \<Rightarrow> bool \<Rightarrow> bio \<Rightarrow> bio" where
  "disk_rw b wr s =
     (let x = bufs s b in
      if wr then s\<lparr>disk := (disk s)(blockno x := data x), writes := writes s @ [(blockno x, data x)]\<rparr>
      else updb b (\<lambda>x. x\<lparr>data := disk s (blockno x)\<rparr>) s)"

definition bread :: "u32 \<Rightarrow> u32 \<Rightarrow> bio \<Rightarrow> (nat \<times> bio) res" where
  "bread dv bn s =
     bindR (bget dv bn s) (\<lambda>(b, s1).
       Ok (b, if \<not> valid (bufs s1 b) then updb b (\<lambda>x. x\<lparr>valid := True\<rparr>) (disk_rw b False s1) else s1))"

definition bwrite :: "nat \<Rightarrow> bio \<Rightarrow> bio res" where
  "bwrite b s =
     (if \<not> holdingsleep (curpid s) (block (bufs s b)) then Panic ''bwrite'' else Ok (disk_rw b True s))"

definition brelse :: "nat \<Rightarrow> bio \<Rightarrow> bio res" where
  "brelse b s =
     (if \<not> holdingsleep (curpid s) (block (bufs s b)) then Panic ''brelse''
      else
        let s1 = wake (Chan_buf_lock b) (updb b (\<lambda>x. x\<lparr>block := releasesleep (block x)\<rparr>) s);
            s2 = updb b (\<lambda>x. x\<lparr>refcnt := refcnt x - 1\<rparr>) s1
        in Ok (if refcnt (bufs s2 b) = 0 then insert_head b (unlink_buf b s2) else s2))"

definition bpin :: "nat \<Rightarrow> bio \<Rightarrow> bio" where
  "bpin b s = updb b (\<lambda>x. x\<lparr>refcnt := refcnt x + 1\<rparr>) s"

definition bunpin :: "nat \<Rightarrow> bio \<Rightarrow> bio" where
  "bunpin b s = updb b (\<lambda>x. x\<lparr>refcnt := refcnt x - 1\<rparr>) s"

text \<open>The statements of the file system that change the contents of a buffer.\<close>

definition set_data :: "nat \<Rightarrow> u8 list \<Rightarrow> bio \<Rightarrow> bio" where
  "set_data b bs s = updb b (\<lambda>x. x\<lparr>data := bs\<rparr>) s"

section \<open>The linked list as a list\<close>

fun links :: "(nat \<Rightarrow> nat) \<Rightarrow> (nat \<Rightarrow> nat) \<Rightarrow> nat list \<Rightarrow> bool" where
  "links nx pv (a # b # xs) \<longleftrightarrow> nx a = b \<and> pv b = a \<and> links nx pv (b # xs)"
| "links nx pv xs \<longleftrightarrow> True"

definition ring :: "bio \<Rightarrow> nat list \<Rightarrow> bool" where
  "ring s xs \<longleftrightarrow> links (\<lambda>b. nxt (bufs s b)) (\<lambda>b. prev (bufs s b)) (bhead # xs @ [bhead]) \<and>
     distinct xs \<and> set xs = {..<NBUF}"

lemma links_append: "links nx pv (xs @ a # ys) \<longleftrightarrow> links nx pv (xs @ [a]) \<and> links nx pv (a # ys)"
proof (induction xs)
  case (Cons x xs)
  then show ?case by (cases xs) auto
qed simp

lemma links_nx: "links nx pv xs \<Longrightarrow> a \<notin> set (butlast xs) \<Longrightarrow> links (nx(a := b)) pv xs"
  by (induction nx pv xs rule: links.induct) auto

lemma links_pv: "links nx pv xs \<Longrightarrow> b \<notin> set (tl xs) \<Longrightarrow> links nx (pv(b := a)) xs"
  by (induction nx pv xs rule: links.induct) (auto split: if_splits)

lemma links_cong:
  "links nx pv xs \<Longrightarrow> (\<And>a. a \<in> set (butlast xs) \<Longrightarrow> nx' a = nx a) \<Longrightarrow>
   (\<And>a. a \<in> set (tl xs) \<Longrightarrow> pv' a = pv a) \<Longrightarrow> links nx' pv' xs"
proof (induction nx pv xs rule: links.induct)
  case (1 nx pv a b xs)
  have "links nx' pv' (b # xs)"
    using 1 by (intro "1.IH") (auto dest: in_set_butlastD)
  then show ?case using 1 by auto
qed auto

lemma bufs_updb [simp]: "bufs (updb i f s) j = (if j = i then f (bufs s i) else bufs s j)"
  by (simp add: updb_def)

lemma updb_rest [simp]: "disk (updb i f s) = disk s" "writes (updb i f s) = writes s"
  "curpid (updb i f s) = curpid s" "woken (updb i f s) = woken s"
  by (simp_all add: updb_def)

lemma wake_rest [simp]: "bufs (wake ch s) = bufs s" "disk (wake ch s) = disk s" "writes (wake ch s) = writes s"
  "curpid (wake ch s) = curpid s"
  by (simp_all add: wake_def)

text \<open>Two buffers agree up to their links.\<close>

definition same_buf :: "buf \<Rightarrow> buf \<Rightarrow> bool" where
  "same_buf x y \<longleftrightarrow> valid x = valid y \<and> dev x = dev y \<and> blockno x = blockno y \<and> block x = block y \<and>
     refcnt x = refcnt y \<and> data x = data y"

lemma insert_head_rest [simp]:
  "same_buf (bufs (insert_head b s) x) (bufs s x)" "disk (insert_head b s) = disk s"
  "writes (insert_head b s) = writes s" "curpid (insert_head b s) = curpid s" "woken (insert_head b s) = woken s"
  by (simp_all add: insert_head_def Let_def same_buf_def)

lemma unlink_buf_rest [simp]:
  "same_buf (bufs (unlink_buf b s) x) (bufs s x)" "disk (unlink_buf b s) = disk s"
  "writes (unlink_buf b s) = writes s" "curpid (unlink_buf b s) = curpid s" "woken (unlink_buf b s) = woken s"
  by (simp_all add: unlink_buf_def Let_def same_buf_def)

lemma scan_next:
  assumes "links (\<lambda>b. nxt (bufs s b)) pv (a # xs @ [bhead])" and "bhead \<notin> set xs" and "length xs \<le> k"
  shows "scan k nxt P s (nxt (bufs s a)) = Ok (find (\<lambda>b. P (bufs s b)) xs)"
  using assms
proof (induction xs arbitrary: a k)
  case Nil
  then show ?case by (cases k) auto
next
  case (Cons x xs)
  then obtain j where k: "k = Suc j" by (cases k) auto
  show ?case using Cons.prems Cons.IH [of x j] k by simp
qed

lemma scan_prev:
  assumes "links nx (\<lambda>b. prev (bufs s b)) (bhead # xs @ [a])" and "bhead \<notin> set xs" and "length xs \<le> k"
  shows "scan k prev P s (prev (bufs s a)) = Ok (find (\<lambda>b. P (bufs s b)) (rev xs))"
  using assms
proof (induction xs arbitrary: a k rule: rev_induct)
  case Nil
  then show ?case by (cases k) auto
next
  case (snoc x xs)
  then obtain j where k: "k = Suc j" by (cases k) auto
  have "links nx (\<lambda>b. prev (bufs s b)) ((bhead # xs) @ [x])" "prev (bufs s a) = x"
    using snoc.prems(1) links_append [of nx "\<lambda>b. prev (bufs s b)" "bhead # xs" x "[a]"] by simp_all
  then show ?case using snoc.prems snoc.IH [of x j] k by simp
qed

lemma ring_scan:
  assumes "ring s xs"
  shows "scan NBUF nxt P s (nxt (bufs s bhead)) = Ok (find (\<lambda>b. P (bufs s b)) xs)"
    and "scan NBUF prev P s (prev (bufs s bhead)) = Ok (find (\<lambda>b. P (bufs s b)) (rev xs))"
proof -
  have "length xs = NBUF" using assms distinct_card [of xs] by (simp add: ring_def)
  moreover have "bhead \<notin> set xs" using assms by (simp add: ring_def)
  ultimately show "scan NBUF nxt P s (nxt (bufs s bhead)) = Ok (find (\<lambda>b. P (bufs s b)) xs)"
    "scan NBUF prev P s (prev (bufs s bhead)) = Ok (find (\<lambda>b. P (bufs s b)) (rev xs))"
    using assms scan_next [of s _ bhead xs NBUF P] scan_prev [of _ s xs bhead NBUF P]
    by (auto simp: ring_def)
qed

lemma links_unlink:
  assumes l: "links nx pv (h # xs @ b # ys @ [h])" and d: "distinct (xs @ b # ys)" "h \<notin> set (xs @ b # ys)"
  shows "links (nx(pv b := nx b)) (pv(nx b := pv b)) (h # xs @ ys @ [h])"
proof -
  obtain A p where A: "h # xs = A @ [p]" by (metis list.distinct(1) rev_exhaust)
  obtain n C where C: "ys @ [h] = n # C" by (metis append_is_Nil_conv list.exhaust not_Cons_self2)
  have L: "links nx pv ((A @ [p]) @ b # n # C)" using l A C by (metis append_Cons append_assoc)
  have pb: "pv b = p" "nx b = n" and lA: "links nx pv (A @ [p])" and lC: "links nx pv (n # C)"
    using L links_append [of nx pv A p "b # n # C"] by simp_all
  have pA: "p \<notin> set A" and nx: "n \<notin> set xs"
    using A C d by (cases A; cases ys; auto)+
  have pys: "p \<notin> set ys" using A d by (cases A) auto
  have nC: "n \<notin> set C" using C d by (cases ys) auto
  have butl: "butlast (n # C) = ys" "tl (A @ [p]) = xs" using C A by (metis butlast_snoc, metis list.sel(3))
  have "links (nx(p := n)) (pv(n := p)) (A @ [p])"
    using lA pA nx butl by (intro links_pv links_nx) auto
  moreover have "links (nx(p := n)) (pv(n := p)) (n # C)"
    using lC pys nC butl by (intro links_pv links_nx) auto
  ultimately have "links (nx(p := n)) (pv(n := p)) (A @ p # n # C)"
    using links_append [of "nx(p := n)" "pv(n := p)" A p "n # C"] by simp
  then show ?thesis using A C pb by (metis append_Cons append_assoc append_Nil)
qed

lemma links_insert:
  assumes l: "links nx pv (h # zs @ [h])" and d: "b \<notin> set zs" "b \<noteq> h" "h \<notin> set zs" "distinct zs"
  shows "links (nx(b := nx h, h := b)) (pv(b := h, nx h := b)) (h # b # zs @ [h])"
proof -
  obtain n C where C: "zs @ [h] = n # C" by (metis append_is_Nil_conv list.exhaust not_Cons_self2)
  have n: "nx h = n" and lC: "links nx pv (n # C)" using l C by simp_all
  have nb: "n \<noteq> b" using C d by (cases zs) auto
  have "butlast (n # C) = zs" using C by (metis butlast_snoc)
  moreover have "n \<notin> set C" "b \<notin> set C" using C d by (cases zs; auto)+
  ultimately have "links (nx(b := n, h := b)) (pv(b := h, n := b)) (n # C)"
    using lC d by (intro links_pv links_nx) auto
  then show ?thesis using C n nb d by simp
qed

lemma ring_release:
  assumes r: "ring s xs" and b: "b < NBUF"
  shows "ring (insert_head b (unlink_buf b s)) (b # remove1 b xs)"
proof -
  have "b \<in> set xs" using r b by (simp add: ring_def)
  then obtain ys zs where x: "xs = ys @ b # zs" "b \<notin> set ys" by (metis split_list_first)
  have d: "distinct (ys @ b # zs)" "bhead \<notin> set (ys @ b # zs)" using r x by (auto simp: ring_def)
  let ?nx = "\<lambda>c. nxt (bufs s c)" and ?pv = "\<lambda>c. prev (bufs s c)"
  have l: "links ?nx ?pv (bhead # ys @ b # zs @ [bhead])" using r x by (simp add: ring_def)
  have nb: "?nx b \<noteq> b"
  proof
    assume e: "?nx b = b"
    have "links ?nx ?pv (b # zs @ [bhead])"
      using l links_append [of ?nx ?pv "bhead # ys" b "zs @ [bhead]"] by simp
    then show False using d e b by (cases zs) auto
  qed
  let ?s1 = "unlink_buf b s"
  have n1: "(\<lambda>c. nxt (bufs ?s1 c)) = ?nx(?pv b := ?nx b)" "(\<lambda>c. prev (bufs ?s1 c)) = ?pv(?nx b := ?pv b)"
    using nb by (auto simp: unlink_buf_def Let_def fun_eq_iff)
  have l1: "links (\<lambda>c. nxt (bufs ?s1 c)) (\<lambda>c. prev (bufs ?s1 c)) (bhead # (ys @ zs) @ [bhead])"
    using links_unlink [OF l d] unfolding n1 by simp
  have hb: "nxt (bufs ?s1 bhead) \<noteq> b"
  proof
    assume "nxt (bufs ?s1 bhead) = b"
    then have "b \<in> set ((ys @ zs) @ [bhead])" using l1 by (cases "ys @ zs") auto
    then show False using d b by auto
  qed
  let ?s2 = "insert_head b ?s1"
  have n2: "(\<lambda>c. nxt (bufs ?s2 c)) = (\<lambda>c. nxt (bufs ?s1 c))(b := nxt (bufs ?s1 bhead), bhead := b)"
    "(\<lambda>c. prev (bufs ?s2 c)) = (\<lambda>c. prev (bufs ?s1 c))(b := bhead, nxt (bufs ?s1 bhead) := b)"
    using b hb by (auto simp: insert_head_def Let_def fun_eq_iff)
  have "links (\<lambda>c. nxt (bufs ?s2 c)) (\<lambda>c. prev (bufs ?s2 c)) (bhead # b # (ys @ zs) @ [bhead])"
    unfolding n2 using links_insert [OF l1, of b] d b by auto
  moreover have "remove1 b xs = ys @ zs" using x by (simp add: remove1_append)
  moreover have "set (b # ys @ zs) = {..<NBUF}" using r x by (auto simp: ring_def)
  ultimately show ?thesis using d by (simp add: ring_def)
qed

lemma ring_cong:
  assumes "ring s xs" and "\<And>b. nxt (bufs s' b) = nxt (bufs s b) \<and> prev (bufs s' b) = prev (bufs s b)"
  shows "ring s' xs"
  using assms by (simp add: ring_def)

section \<open>What the cache holds\<close>

text \<open>
  \<open>blk d s n\<close> is block \<open>n\<close> of device \<open>d\<close> as the kernel sees it: the contents of its buffer when there is
  a valid one, and the block on disk otherwise.
\<close>

definition cached :: "u32 \<Rightarrow> bio \<Rightarrow> u32 \<Rightarrow> nat option" where
  "cached d s n = find (\<lambda>b. dev (bufs s b) = d \<and> blockno (bufs s b) = n) [0..<NBUF]"

definition blk :: "u32 \<Rightarrow> bio \<Rightarrow> u32 \<Rightarrow> u8 list" where
  "blk d s n = (case cached d s n of None \<Rightarrow> disk s n
     | Some b \<Rightarrow> if valid (bufs s b) then data (bufs s b) else disk s n)"

definition held :: "bio \<Rightarrow> nat set" where
  "held s = {b. b < NBUF \<and> slocked (block (bufs s b))}"

text \<open>
  The invariant of the cache between the operations of one process: \<open>P\<close> are the buffers that the log
  has pinned.  A reference count is one for a pin and one for the holder of the lock, and a buffer
  that nobody refers to agrees with the disk.
\<close>

definition binv :: "u32 \<Rightarrow> nat set \<Rightarrow> bio \<Rightarrow> bool" where
  "binv d P s \<longleftrightarrow>
     (\<exists>xs. ring s xs) \<and> P \<subseteq> {..<NBUF} \<and>
     (\<forall>i < NBUF. \<forall>j < NBUF. dev (bufs s i) = d \<and> dev (bufs s j) = d \<and>
        blockno (bufs s i) = blockno (bufs s j) \<longrightarrow> i = j) \<and>
     (\<forall>b < NBUF. refcnt (bufs s b) = of_bool (slocked (block (bufs s b))) + of_bool (b \<in> P)) \<and>
     (\<forall>b < NBUF. slocked (block (bufs s b)) \<longrightarrow>
        spid (block (bufs s b)) = curpid s \<and> valid (bufs s b) \<and> dev (bufs s b) = d) \<and>
     (\<forall>b \<in> P. valid (bufs s b) \<and> dev (bufs s b) = d) \<and>
     (\<forall>b < NBUF. b \<notin> P \<and> \<not> slocked (block (bufs s b)) \<and> valid (bufs s b) \<and> dev (bufs s b) = d \<longrightarrow>
        data (bufs s b) = disk s (blockno (bufs s b)))"

lemma cached_Some:
  assumes "binv d P s"
  shows "cached d s n = Some b \<longleftrightarrow> b < NBUF \<and> dev (bufs s b) = d \<and> blockno (bufs s b) = n"
proof -
  have u: "i = j" if "i < NBUF" "j < NBUF" "dev (bufs s i) = d" "dev (bufs s j) = d"
      "blockno (bufs s i) = blockno (bufs s j)" for i j
    using assms that unfolding binv_def by blast
  show ?thesis
    unfolding cached_def find_Some_iff
  proof
    assume r: "b < NBUF \<and> dev (bufs s b) = d \<and> blockno (bufs s b) = n"
    then have "dev (bufs s j) = d \<and> blockno (bufs s j) = n \<Longrightarrow> \<not> j < b" for j
      using u [of b j] by force
    then show "\<exists>i < length [0..<NBUF]. (dev (bufs s ([0..<NBUF] ! i)) = d \<and> blockno (bufs s ([0..<NBUF] ! i)) = n) \<and>
        b = [0..<NBUF] ! i \<and> (\<forall>j < i. \<not> (dev (bufs s ([0..<NBUF] ! j)) = d \<and> blockno (bufs s ([0..<NBUF] ! j)) = n))"
      using r by (intro exI [of _ b]) auto
  qed auto
qed

lemma cached_None:
  "cached d s n = None \<longleftrightarrow> (\<forall>b < NBUF. \<not> (dev (bufs s b) = d \<and> blockno (bufs s b) = n))"
  by (auto simp: cached_def find_None_iff)

lemma blk_buf:
  assumes "binv d P s" and "b < NBUF" and "dev (bufs s b) = d" and "valid (bufs s b)"
  shows "blk d s (blockno (bufs s b)) = data (bufs s b)"
  using assms cached_Some [OF assms(1), of "blockno (bufs s b)" b] by (simp add: blk_def)

lemma binvD:
  assumes "binv d P s"
  shows "\<exists>xs. ring s xs" and "P \<subseteq> {..<NBUF}"
    and "i < NBUF \<Longrightarrow> j < NBUF \<Longrightarrow> dev (bufs s i) = d \<Longrightarrow> dev (bufs s j) = d \<Longrightarrow>
      blockno (bufs s i) = blockno (bufs s j) \<Longrightarrow> i = j"
    and "b < NBUF \<Longrightarrow> refcnt (bufs s b) = of_bool (slocked (block (bufs s b))) + of_bool (b \<in> P)"
    and "b < NBUF \<Longrightarrow> slocked (block (bufs s b)) \<Longrightarrow> spid (block (bufs s b)) = curpid s"
    and "b < NBUF \<Longrightarrow> slocked (block (bufs s b)) \<Longrightarrow> valid (bufs s b) \<and> dev (bufs s b) = d"
    and "b \<in> P \<Longrightarrow> valid (bufs s b) \<and> dev (bufs s b) = d"
    and "b < NBUF \<Longrightarrow> b \<notin> P \<Longrightarrow> \<not> slocked (block (bufs s b)) \<Longrightarrow> valid (bufs s b) \<Longrightarrow> dev (bufs s b) = d \<Longrightarrow>
      data (bufs s b) = disk s (blockno (bufs s b))"
  using assms by (auto simp: binv_def)

lemma binv_open:
  assumes inv: "binv d P s" and b: "b < NBUF" "\<not> slocked (block (bufs s b))"
    and ch: "cached d s n = Some b \<or> cached d s n = None \<and> b \<notin> P"
    and x: "nxt x = nxt (bufs s b)" "prev x = prev (bufs s b)" "dev x = d" "blockno x = n" "valid x"
      "slocked (block x)" "spid (block x) = curpid s" "refcnt x = 1 + of_bool (b \<in> P)" "data x = blk d s n"
    and s': "s' = s\<lparr>bufs := (bufs s)(b := x)\<rparr>"
  shows "binv d P s' \<and> (\<forall>m. blk d s' m = blk d s m) \<and> held s' = insert b (held s)"
proof -
  have bf: "bufs s' c = (if c = b then x else bufs s c)" for c using s' by simp
  have rest: "disk s' = disk s" "curpid s' = curpid s" using s' by simp_all
  have n_only: "c = b" if "c < NBUF" "dev (bufs s c) = d" "blockno (bufs s c) = n" for c
    using ch that cached_Some [OF inv, of n] cached_None [of d s n] by (metis option.inject)
  have P: "P \<subseteq> {..<NBUF}" using binvD(2) [OF inv] .
  have inv': "binv d P s'"
    unfolding binv_def
  proof (intro conjI allI impI ballI)
    obtain xs where "ring s xs" using binvD(1) [OF inv] by blast
    then have "ring s' xs" by (rule ring_cong) (simp add: bf x)
    then show "\<exists>xs. ring s' xs" by blast
    fix i j
    assume ij: "i < NBUF" "j < NBUF" "dev (bufs s' i) = d \<and> dev (bufs s' j) = d \<and> blockno (bufs s' i) = blockno (bufs s' j)"
    show "i = j"
    proof (cases "i = b \<or> j = b")
      case True
      then show ?thesis using ij n_only [of i] n_only [of j] x by (auto simp: bf split: if_splits)
    next
      case False
      then show ?thesis using ij binvD(3) [OF inv, of i j] by (simp add: bf)
    qed
  next
    fix c assume c: "c < NBUF"
    show "refcnt (bufs s' c) = of_bool (slocked (block (bufs s' c))) + of_bool (c \<in> P)"
      using binvD(4) [OF inv c] x by (simp add: bf)
    assume "c \<notin> P \<and> \<not> slocked (block (bufs s' c)) \<and> valid (bufs s' c) \<and> dev (bufs s' c) = d"
    then show "data (bufs s' c) = disk s' (blockno (bufs s' c))"
      using binvD(8) [OF inv c] x by (auto simp: bf rest split: if_splits)
  qed (use binvD(5-7) [OF inv] x P in \<open>auto simp: bf rest split: if_splits\<close>)
  have same: "blk d s' m = blk d s m" for m
  proof (cases "m = n")
    case True
    have "cached d s' n = Some b" using cached_Some [OF inv'] b x by (simp add: bf)
    then show ?thesis using True x by (simp add: blk_def [of d s'] bf)
  next
    case mn: False
    show ?thesis
    proof (cases "cached d s' m")
      case (Some c)
      then have c: "c < NBUF" "c \<noteq> b" "dev (bufs s c) = d" "blockno (bufs s c) = m"
        using cached_Some [OF inv', of m c] x mn by (auto simp: bf split: if_splits)
      then have "cached d s m = Some c" using cached_Some [OF inv, of m c] by simp
      then show ?thesis using Some c by (simp add: blk_def bf rest)
    next
      case None
      then have no: "c < NBUF \<Longrightarrow> c \<noteq> b \<Longrightarrow> \<not> (dev (bufs s c) = d \<and> blockno (bufs s c) = m)" for c
        using cached_None [of d s' m] by (auto simp: bf split: if_splits)
      show ?thesis
      proof (cases "cached d s m")
        case None
        then show ?thesis using \<open>cached d s' m = None\<close> by (simp add: blk_def rest)
      next
        case (Some c)
        then have c: "c < NBUF" "dev (bufs s c) = d" "blockno (bufs s c) = m" using cached_Some [OF inv, of m c] by auto
        then have cb: "c = b" using no by blast
        then have "cached d s n = None \<and> b \<notin> P" using ch c mn cached_Some [OF inv, of n b] by auto
        then have "valid (bufs s b) \<Longrightarrow> data (bufs s b) = disk s m" using binvD(8) [OF inv b(1)] b c cb by auto
        then show ?thesis using \<open>cached d s' m = None\<close> Some cb by (auto simp: blk_def rest)
      qed
    qed
  qed
  have "held s' = insert b (held s)" using b x by (auto simp: held_def bf split: if_splits)
  then show ?thesis using inv' same by blast
qed

lemma refcnt_zero: "(of_bool p + of_bool q :: u32) = 0 \<longleftrightarrow> \<not> p \<and> \<not> q"
  by (cases p; cases q) simp_all

lemma find_SomeD: "find P xs = Some x \<Longrightarrow> x \<in> set xs \<and> P x"
  by (induction xs) (auto split: if_splits)

lemma lock_buf_free:
  "\<not> slocked (block (bufs s b)) \<Longrightarrow>
   lock_buf b s = Ok (b, updb b (\<lambda>x. x\<lparr>block := (block x)\<lparr>slocked := True, spid := curpid s\<rparr>\<rparr>) s)"
  by (simp add: lock_buf_def acquiresleep_def updb_def)

lemma unused_buf:
  assumes "binv d P s" and "card (P \<union> held s) < NBUF"
  shows "\<exists>b < NBUF. refcnt (bufs s b) = 0"
proof (rule ccontr)
  assume a: "\<not> (\<exists>b < NBUF. refcnt (bufs s b) = 0)"
  have "{..<NBUF} \<subseteq> P \<union> held s"
  proof
    fix b
    assume b: "b \<in> {..<NBUF}"
    then have "refcnt (bufs s b) \<noteq> 0" using a by auto
    then show "b \<in> P \<union> held s" using binvD(4) [OF assms(1), of b] b by (auto simp: held_def split: if_splits)
  qed
  moreover have "finite (P \<union> held s)"
    using binvD(2) [OF assms(1)] finite_subset by (auto simp: held_def)
  ultimately have "card {..<NBUF} \<le> card (P \<union> held s)" by (intro card_mono)
  then show False using assms(2) by simp
qed

text \<open>What \<^verbatim>\<open>bread\<close> does, whether the block is cached or not.\<close>

definition opened :: "u32 \<Rightarrow> nat set \<Rightarrow> u32 \<Rightarrow> bio \<Rightarrow> nat \<Rightarrow> bio \<Rightarrow> bool" where
  "opened d P n s b s' \<longleftrightarrow>
     binv d P s' \<and> b < NBUF \<and> b \<notin> held s \<and> held s' = insert b (held s) \<and>
     blockno (bufs s' b) = n \<and> data (bufs s' b) = blk d s n \<and> (\<forall>m. blk d s' m = blk d s m) \<and>
     (\<forall>c. c \<noteq> b \<longrightarrow> bufs s' c = bufs s c) \<and> (b \<in> P \<longrightarrow> blockno (bufs s b) = n) \<and>
     disk s' = disk s \<and> writes s' = writes s \<and> curpid s' = curpid s \<and> woken s' = woken s"

lemma bread_spec:
  assumes inv: "binv d P s" and ok: "\<And>b. cached d s n = Some b \<Longrightarrow> \<not> slocked (block (bufs s b))"
    and room: "cached d s n = None \<Longrightarrow> card (P \<union> held s) < NBUF"
  shows "okR (bread d n s) (\<lambda>(b, s'). opened d P n s b s')"
proof -
  obtain xs where xs: "ring s xs" using binvD(1) [OF inv] by blast
  let ?lk = "\<lambda>x. (block x)\<lparr>slocked := True, spid := curpid s\<rparr>"
  show ?thesis
  proof (cases "cached d s n")
    case (Some b)
    have b: "b < NBUF" "dev (bufs s b) = d" "blockno (bufs s b) = n" using cached_Some [OF inv] Some by auto
    have un: "\<not> slocked (block (bufs s b))" using ok Some by blast
    have "find (\<lambda>c. dev (bufs s c) = d \<and> blockno (bufs s c) = n) xs = Some c \<Longrightarrow> c = b" for c
      using binvD(3) [OF inv, of c b] b xs by (auto simp: find_Some_iff ring_def) (metis lessThan_iff nth_mem)
    moreover have "find (\<lambda>c. dev (bufs s c) = d \<and> blockno (bufs s c) = n) xs \<noteq> None"
      using b xs by (auto simp: find_None_iff ring_def)
    ultimately have f: "find (\<lambda>c. dev (bufs s c) = d \<and> blockno (bufs s c) = n) xs = Some b" by blast
    let ?x = "(bufs s b)\<lparr>refcnt := refcnt (bufs s b) + 1, block := ?lk (bufs s b)\<rparr>"
    define x where "x = (if valid (bufs s b) then ?x else ?x\<lparr>data := disk s n, valid := True\<rparr>)"
    have e: "bread d n s = Ok (b, s\<lparr>bufs := (bufs s)(b := x)\<rparr>)"
      unfolding bread_def bget_def ring_scan(1) [OF xs, of "\<lambda>x. dev x = d \<and> blockno x = n"] f
      using un b by (auto simp: lock_buf_free disk_rw_def x_def updb_def Let_def)
    have "data x = blk d s n" using Some by (simp add: x_def blk_def)
    then have "binv d P (s\<lparr>bufs := (bufs s)(b := x)\<rparr>) \<and> (\<forall>m. blk d (s\<lparr>bufs := (bufs s)(b := x)\<rparr>) m = blk d s m) \<and>
        held (s\<lparr>bufs := (bufs s)(b := x)\<rparr>) = insert b (held s)"
      using b un Some binvD(4) [OF inv b(1)] by (intro binv_open [OF inv b(1) un _ _ _ _ _ _ _ _ _ _ refl]) (auto simp: x_def)
    moreover have "b \<notin> held s" "blockno x = n" using un b by (simp_all add: held_def x_def)
    ultimately show ?thesis using b \<open>data x = blk d s n\<close> by (simp add: e opened_def)
  next
    case None
    have "find (\<lambda>c. dev (bufs s c) = d \<and> blockno (bufs s c) = n) xs = None"
      using None xs cached_None [of d s n] by (auto simp: find_None_iff ring_def)
    note f1 = this
    obtain c where c: "c < NBUF" "refcnt (bufs s c) = 0" using unused_buf [OF inv room [OF None]] by blast
    then have "find (\<lambda>c. refcnt (bufs s c) = 0) (rev xs) \<noteq> None"
      using xs by (auto simp: find_None_iff ring_def)
    then obtain b where f2: "find (\<lambda>c. refcnt (bufs s c) = 0) (rev xs) = Some b" by blast
    then have "b \<in> set (rev xs)" "refcnt (bufs s b) = 0" using find_SomeD by fast+
    then have b: "b < NBUF" "refcnt (bufs s b) = 0" using xs by (auto simp: ring_def)
    then have un: "\<not> slocked (block (bufs s b))" "b \<notin> P" using binvD(4) [OF inv b(1)] by (simp_all add: refcnt_zero)
    define x where "x = (bufs s b)\<lparr>dev := d, blockno := n, valid := False, refcnt := 1, block := ?lk (bufs s b),
      data := disk s n, valid := True\<rparr>"
    have e: "bread d n s = Ok (b, s\<lparr>bufs := (bufs s)(b := x)\<rparr>)"
      unfolding bread_def bget_def ring_scan(1) [OF xs, of "\<lambda>x. dev x = d \<and> blockno x = n"] f1
        ring_scan(2) [OF xs, of "\<lambda>x. refcnt x = 0"] f2
      using un b by (simp add: ring_scan(2) [OF xs] f2 lock_buf_free disk_rw_def x_def updb_def Let_def)
    have "data x = blk d s n" using None by (simp add: x_def blk_def)
    then have "binv d P (s\<lparr>bufs := (bufs s)(b := x)\<rparr>) \<and> (\<forall>m. blk d (s\<lparr>bufs := (bufs s)(b := x)\<rparr>) m = blk d s m) \<and>
        held (s\<lparr>bufs := (bufs s)(b := x)\<rparr>) = insert b (held s)"
      using b un None by (intro binv_open [OF inv b(1) un(1) _ _ _ _ _ _ _ _ _ _ refl]) (auto simp: x_def)
    moreover have "b \<notin> held s" "blockno x = n" using un b by (simp_all add: held_def x_def)
    ultimately show ?thesis using b un \<open>data x = blk d s n\<close> by (simp add: e opened_def)
  qed
qed

lemma bread_open:
  assumes "binv d P s" and "\<And>b. b \<in> held s \<Longrightarrow> blockno (bufs s b) \<noteq> n" and "card (P \<union> held s) < NBUF"
  shows "okR (bread d n s) (\<lambda>(b, s'). opened d P n s b s')"
proof (rule bread_spec [OF assms(1)])
  show "\<not> slocked (block (bufs s b))" if "cached d s n = Some b" for b
    using cached_Some [OF assms(1), of n b] that assms(2) by (auto simp: held_def)
qed (use assms in simp)

text \<open>The operations on a buffer that is held.\<close>

lemma heldD: "binv d P s \<Longrightarrow> b \<in> held s \<Longrightarrow> b < NBUF \<and> slocked (block (bufs s b)) \<and>
    valid (bufs s b) \<and> dev (bufs s b) = d \<and> holdingsleep (curpid s) (block (bufs s b))"
  using binvD(5,6) [of d P s b] by (simp add: held_def holdingsleep_def)

lemma cached_cong:
  "(\<And>b. b < NBUF \<Longrightarrow> dev (bufs s' b) = dev (bufs s b) \<and> blockno (bufs s' b) = blockno (bufs s b)) \<Longrightarrow>
   cached d s' n = cached d s n"
  unfolding cached_def by (rule find_cong) auto

lemma held_cong: "(\<And>b. b < NBUF \<Longrightarrow> slocked (block (bufs s' b)) = slocked (block (bufs s b))) \<Longrightarrow> held s' = held s"
  by (auto simp: held_def)

text \<open>A change of one held buffer that keeps its identity, its links and its lock.\<close>

lemma binv_held_update:
  assumes inv: "binv d P s" and b: "b \<in> held s"
    and s': "\<And>c. bufs s' c = (if c = b then x else bufs s c)" and cp: "curpid s' = curpid s"
    and dk: "\<And>n. n \<noteq> blockno (bufs s b) \<Longrightarrow> disk s' n = disk s n"
    and x: "nxt x = nxt (bufs s b)" "prev x = prev (bufs s b)" "dev x = d" "blockno x = blockno (bufs s b)"
      "valid x" "block x = block (bufs s b)" "refcnt x = 1 + of_bool (b \<in> Q)"
    and Q: "Q \<subseteq> insert b P" "P - {b} \<subseteq> Q"
  shows "binv d Q s' \<and> held s' = held s \<and> blk d s' (blockno (bufs s b)) = data x \<and>
    (\<forall>n. n \<noteq> blockno (bufs s b) \<longrightarrow> blk d s' n = blk d s n)"
proof -
  note hb = heldD [OF inv b]
  have QP: "c \<in> Q \<longleftrightarrow> c \<in> P" if "c \<noteq> b" for c using Q that by auto
  have Qsub: "Q \<subseteq> {..<NBUF}" using Q(1) binvD(2) [OF inv] hb by auto
  have inv': "binv d Q s'"
    unfolding binv_def
  proof (intro conjI allI impI ballI)
    obtain xs where "ring s xs" using binvD(1) [OF inv] by blast
    then have "ring s' xs" by (rule ring_cong) (simp add: s' x)
    then show "\<exists>xs. ring s' xs" by blast
    show "Q \<subseteq> {..<NBUF}" by (rule Qsub)
  next
    fix i j
    assume "i < NBUF" "j < NBUF" "dev (bufs s' i) = d \<and> dev (bufs s' j) = d \<and> blockno (bufs s' i) = blockno (bufs s' j)"
    then show "i = j" using binvD(3) [OF inv, of i j] hb x by (auto simp: s' split: if_splits)
  next
    fix c assume c: "c < NBUF"
    show "refcnt (bufs s' c) = of_bool (slocked (block (bufs s' c))) + of_bool (c \<in> Q)"
      using binvD(4) [OF inv c] x hb QP by (simp add: s')
    assume a: "c \<notin> Q \<and> \<not> slocked (block (bufs s' c)) \<and> valid (bufs s' c) \<and> dev (bufs s' c) = d"
    then have cb: "c \<noteq> b" using x hb by (auto simp: s')
    then have "blockno (bufs s c) \<noteq> blockno (bufs s b)" using binvD(3) [OF inv c, of b] hb a by (auto simp: s')
    then show "data (bufs s' c) = disk s' (blockno (bufs s' c))"
      using binvD(8) [OF inv c] a cb QP by (simp add: s' dk)
  next
    fix c assume "c \<in> Q"
    then show "valid (bufs s' c)" "dev (bufs s' c) = d" using binvD(7) [OF inv, of c] x QP by (auto simp: s')
  qed (use binvD(5,6) [OF inv] x hb in \<open>auto simp: s' cp split: if_splits\<close>)
  have ch: "cached d s' n = cached d s n" for n by (rule cached_cong) (use x hb in \<open>simp add: s'\<close>)
  have "cached d s (blockno (bufs s b)) = Some b" using cached_Some [OF inv] hb by simp
  moreover have "cached d s n \<noteq> Some b" if "n \<noteq> blockno (bufs s b)" for n using cached_Some [OF inv, of n b] that by simp
  ultimately have "blk d s' (blockno (bufs s b)) = data x"
    "n \<noteq> blockno (bufs s b) \<Longrightarrow> blk d s' n = blk d s n" for n
    using x dk by (auto simp: blk_def ch s' split: option.split)
  moreover have "held s' = held s" by (rule held_cong) (use x in \<open>simp add: s'\<close>)
  ultimately show ?thesis using inv' by blast
qed

lemma set_data_spec:
  assumes "binv d P s" and "b \<in> held s"
  shows "binv d P (set_data b bs s) \<and> held (set_data b bs s) = held s \<and>
    blk d (set_data b bs s) = (blk d s)(blockno (bufs s b) := bs)"
proof -
  have "refcnt (bufs s b) = 1 + of_bool (b \<in> P)" using binvD(4) [OF assms(1), of b] heldD [OF assms] by simp
  then have "binv d P (set_data b bs s) \<and> held (set_data b bs s) = held s \<and>
      blk d (set_data b bs s) (blockno (bufs s b)) = data ((bufs s b)\<lparr>data := bs\<rparr>) \<and>
      (\<forall>n. n \<noteq> blockno (bufs s b) \<longrightarrow> blk d (set_data b bs s) n = blk d s n)"
    using heldD [OF assms] by (intro binv_held_update [OF assms]) (auto simp: set_data_def)
  then show ?thesis by (auto simp: fun_eq_iff)
qed

lemma bwrite_spec:
  assumes "binv d P s" and "b \<in> held s"
  shows "okR (bwrite b s) (\<lambda>s'. binv d P s' \<and> held s' = held s \<and> blk d s' = blk d s \<and> bufs s' = bufs s \<and>
    disk s' = (disk s)(blockno (bufs s b) := data (bufs s b)) \<and>
    writes s' = writes s @ [(blockno (bufs s b), data (bufs s b))] \<and> curpid s' = curpid s \<and> woken s' = woken s)"
proof -
  let ?s = "disk_rw b True s"
  have r: "refcnt (bufs s b) = 1 + of_bool (b \<in> P)" using binvD(4) [OF assms(1), of b] heldD [OF assms] by simp
  then have "binv d P ?s \<and> held ?s = held s \<and> blk d ?s (blockno (bufs s b)) = data (bufs s b) \<and>
      (\<forall>n. n \<noteq> blockno (bufs s b) \<longrightarrow> blk d ?s n = blk d s n)"
    using heldD [OF assms] by (intro binv_held_update [OF assms]) (auto simp: disk_rw_def Let_def)
  moreover have "blk d s (blockno (bufs s b)) = data (bufs s b)"
    using blk_buf [OF assms(1)] heldD [OF assms] by simp
  ultimately have "binv d P ?s \<and> held ?s = held s \<and> blk d ?s = blk d s" by (auto simp: fun_eq_iff) metis
  then show ?thesis using heldD [OF assms] by (simp add: bwrite_def disk_rw_def Let_def)
qed

lemma bpin_spec:
  assumes "binv d P s" and "b \<in> held s" and "b \<notin> P"
  shows "binv d (insert b P) (bpin b s) \<and> held (bpin b s) = held s \<and> blk d (bpin b s) = blk d s"
proof -
  have "refcnt (bufs s b) = 1" using binvD(4) [OF assms(1), of b] heldD [OF assms(1,2)] assms(3) by simp
  then have "binv d (insert b P) (bpin b s) \<and> held (bpin b s) = held s \<and>
      blk d (bpin b s) (blockno (bufs s b)) = data ((bufs s b)\<lparr>refcnt := 2\<rparr>) \<and>
      (\<forall>n. n \<noteq> blockno (bufs s b) \<longrightarrow> blk d (bpin b s) n = blk d s n)"
    using heldD [OF assms(1,2)] by (intro binv_held_update [OF assms(1,2)]) (auto simp: bpin_def)
  moreover have "blk d s (blockno (bufs s b)) = data (bufs s b)"
    using blk_buf [OF assms(1)] heldD [OF assms(1,2)] by simp
  ultimately show ?thesis by (auto simp: fun_eq_iff) metis
qed

lemma bunpin_spec:
  assumes "binv d P s" and "b \<in> held s" and "b \<in> P"
  shows "binv d (P - {b}) (bunpin b s) \<and> held (bunpin b s) = held s \<and> blk d (bunpin b s) = blk d s"
proof -
  have "refcnt (bufs s b) = 2" using binvD(4) [OF assms(1), of b] heldD [OF assms(1,2)] assms(3) by simp
  then have "binv d (P - {b}) (bunpin b s) \<and> held (bunpin b s) = held s \<and>
      blk d (bunpin b s) (blockno (bufs s b)) = data ((bufs s b)\<lparr>refcnt := 1\<rparr>) \<and>
      (\<forall>n. n \<noteq> blockno (bufs s b) \<longrightarrow> blk d (bunpin b s) n = blk d s n)"
    using heldD [OF assms(1,2)] by (intro binv_held_update [OF assms(1,2)]) (auto simp: bunpin_def)
  moreover have "blk d s (blockno (bufs s b)) = data (bufs s b)"
    using blk_buf [OF assms(1)] heldD [OF assms(1,2)] by simp
  ultimately show ?thesis by (auto simp: fun_eq_iff) metis
qed

lemma updb_wake: "updb b f (wake ch s) = wake ch (updb b f s)"
  by (simp add: updb_def wake_def)

lemma updb_updb: "updb b f (updb b g s) = updb b (\<lambda>x. f (g x)) s"
  by (simp add: updb_def)

lemma binv_same:
  assumes inv: "binv d P s" and r: "\<exists>xs. ring s' xs" and b: "\<And>c. same_buf (bufs s' c) (bufs s c)"
    and dk: "disk s' = disk s" and cp: "curpid s' = curpid s"
  shows "binv d P s' \<and> held s' = held s \<and> blk d s' = blk d s"
proof -
  have f: "valid (bufs s' c) = valid (bufs s c)" "dev (bufs s' c) = dev (bufs s c)"
    "blockno (bufs s' c) = blockno (bufs s c)" "block (bufs s' c) = block (bufs s c)"
    "refcnt (bufs s' c) = refcnt (bufs s c)" "data (bufs s' c) = data (bufs s c)" for c
    using b [of c] by (simp_all add: same_buf_def)
  have "cached d s' n = cached d s n" for n by (rule cached_cong) (simp add: f)
  then have "blk d s' = blk d s" by (auto simp: blk_def f dk fun_eq_iff split: option.split)
  moreover have "binv d P s'" using inv r by (simp add: binv_def f dk cp)
  ultimately show ?thesis by (simp add: held_def f)
qed

lemma same_buf_trans: "same_buf x y \<Longrightarrow> same_buf y z \<Longrightarrow> same_buf x z"
  by (simp add: same_buf_def)

text \<open>Giving up the lock of a buffer and its reference, before the list is touched.\<close>

lemma binv_close:
  assumes inv: "binv d P s" and b: "b \<in> held s"
    and clean: "b \<in> P \<or> data (bufs s b) = disk s (blockno (bufs s b))"
    and s': "s' = wake ch (updb b (\<lambda>x. x\<lparr>block := releasesleep (block x), refcnt := refcnt x - 1\<rparr>) s)"
  shows "binv d P s' \<and> held s' = held s - {b} \<and> blk d s' = blk d s"
proof -
  note hb = heldD [OF inv b]
  have r: "refcnt (bufs s b) = 1 + of_bool (b \<in> P)" using binvD(4) [OF inv, of b] hb by simp
  have bf: "bufs s' c = (if c = b then (bufs s b)\<lparr>block := releasesleep (block (bufs s b)),
      refcnt := refcnt (bufs s b) - 1\<rparr> else bufs s c)" for c
    by (simp add: s')
  have rest: "disk s' = disk s" "curpid s' = curpid s" by (simp_all add: s')
  have f: "valid (bufs s' c) = valid (bufs s c)" "dev (bufs s' c) = dev (bufs s c)"
    "blockno (bufs s' c) = blockno (bufs s c)" "data (bufs s' c) = data (bufs s c)" for c
    by (simp_all add: bf)
  have "binv d P s'"
    unfolding binv_def
  proof (intro conjI allI impI ballI)
    obtain xs where "ring s xs" using binvD(1) [OF inv] by blast
    then have "ring s' xs" by (rule ring_cong) (simp add: bf)
    then show "\<exists>xs. ring s' xs" by blast
    show "P \<subseteq> {..<NBUF}" using binvD(2) [OF inv] .
  next
    fix i j
    assume "i < NBUF" "j < NBUF" "dev (bufs s' i) = d \<and> dev (bufs s' j) = d \<and> blockno (bufs s' i) = blockno (bufs s' j)"
    then show "i = j" using binvD(3) [OF inv, of i j] by (simp add: f)
  next
    fix c assume c: "c < NBUF"
    show "refcnt (bufs s' c) = of_bool (slocked (block (bufs s' c))) + of_bool (c \<in> P)"
      using binvD(4) [OF inv c] r by (simp add: bf releasesleep_def)
    assume "c \<notin> P \<and> \<not> slocked (block (bufs s' c)) \<and> valid (bufs s' c) \<and> dev (bufs s' c) = d"
    then show "data (bufs s' c) = disk s' (blockno (bufs s' c))"
      using binvD(8) [OF inv c] clean by (cases "c = b") (auto simp: f rest bf)
  next
    fix c assume "c \<in> P"
    then show "valid (bufs s' c)" "dev (bufs s' c) = d" using binvD(7) [OF inv, of c] by (simp_all add: f)
  qed (use binvD(5,6) [OF inv] in \<open>auto simp: bf rest releasesleep_def split: if_splits\<close>)
  moreover have "cached d s' n = cached d s n" for n by (rule cached_cong) (simp add: bf)
  then have "blk d s' = blk d s" by (auto simp: blk_def bf rest fun_eq_iff split: option.split)
  moreover have "held s' = held s - {b}" by (auto simp: held_def bf releasesleep_def split: if_splits)
  ultimately show ?thesis by blast
qed

definition closed :: "u32 \<Rightarrow> nat set \<Rightarrow> bio \<Rightarrow> nat \<Rightarrow> bio \<Rightarrow> bool" where
  "closed d P s b s' \<longleftrightarrow>
     binv d P s' \<and> held s' = held s - {b} \<and> blk d s' = blk d s \<and>
     (\<forall>c. valid (bufs s' c) = valid (bufs s c) \<and> dev (bufs s' c) = dev (bufs s c) \<and>
        blockno (bufs s' c) = blockno (bufs s c) \<and> data (bufs s' c) = data (bufs s c)) \<and>
     disk s' = disk s \<and> writes s' = writes s \<and> curpid s' = curpid s \<and> woken s' = woken s @ [Chan_buf_lock b]"

lemma brelse_spec:
  assumes inv: "binv d P s" and b: "b \<in> held s"
    and clean: "b \<in> P \<or> data (bufs s b) = disk s (blockno (bufs s b))"
  shows "okR (brelse b s) (closed d P s b)"
proof -
  note hb = heldD [OF inv b]
  define s1 where "s1 = wake (Chan_buf_lock b)
    (updb b (\<lambda>x. x\<lparr>block := releasesleep (block x), refcnt := refcnt x - 1\<rparr>) s)"
  have c: "binv d P s1" "held s1 = held s - {b}" "blk d s1 = blk d s"
    using binv_close [OF inv b clean s1_def] by blast+
  have f: "valid (bufs s1 c) = valid (bufs s c)" "dev (bufs s1 c) = dev (bufs s c)"
      "blockno (bufs s1 c) = blockno (bufs s c)" "data (bufs s1 c) = data (bufs s c)" for c
    by (simp_all add: s1_def)
  have r: "disk s1 = disk s" "writes s1 = writes s" "curpid s1 = curpid s" "woken s1 = woken s @ [Chan_buf_lock b]"
    by (simp_all add: s1_def wake_def)
  have eq: "brelse b s = Ok (if refcnt (bufs s1 b) = 0 then insert_head b (unlink_buf b s1) else s1)"
    using hb by (simp add: brelse_def Let_def updb_wake updb_updb s1_def)
  show ?thesis
  proof (cases "refcnt (bufs s1 b) = 0")
    case True
    define s2 where "s2 = insert_head b (unlink_buf b s1)"
    obtain xs where "ring s1 xs" using binvD(1) [OF c(1)] by blast
    then have ring: "\<exists>xs. ring s2 xs" using ring_release hb unfolding s2_def by blast
    have sb: "same_buf (bufs s2 x) (bufs s1 x)" for x
      unfolding s2_def by (rule same_buf_trans [OF insert_head_rest(1) unlink_buf_rest(1)])
    have r2: "disk s2 = disk s1" "writes s2 = writes s1" "curpid s2 = curpid s1" "woken s2 = woken s1"
      by (simp_all add: s2_def)
    have "binv d P s2 \<and> held s2 = held s1 \<and> blk d s2 = blk d s1"
      by (rule binv_same [OF c(1) ring sb r2(1,3)])
    moreover have "valid (bufs s2 x) = valid (bufs s x)" "dev (bufs s2 x) = dev (bufs s x)"
        "blockno (bufs s2 x) = blockno (bufs s x)" "data (bufs s2 x) = data (bufs s x)" for x
      using sb [of x] f [of x] by (simp_all add: same_buf_def)
    ultimately show ?thesis using True c r r2 unfolding eq s2_def [symmetric] by (simp add: closed_def)
  next
    case False
    then show ?thesis using c f r unfolding eq by (simp add: closed_def)
  qed
qed

lemma blk_clean:
  assumes inv: "binv d P s" and no: "\<And>b. b \<in> P \<union> held s \<Longrightarrow> blockno (bufs s b) \<noteq> n"
  shows "blk d s n = disk s n"
proof (cases "cached d s n")
  case None
  then show ?thesis by (simp add: blk_def)
next
  case (Some b)
  then have b: "b < NBUF" "dev (bufs s b) = d" "blockno (bufs s b) = n" using cached_Some [OF inv] by auto
  then have "b \<notin> P" "\<not> slocked (block (bufs s b))" using no by (auto simp: held_def)
  then show ?thesis using Some b binvD(8) [OF inv b(1)] by (auto simp: blk_def)
qed

section \<open>Initialisation\<close>

lemma insert_head_links:
  assumes l: "links (\<lambda>c. nxt (bufs s c)) (\<lambda>c. prev (bufs s c)) (bhead # zs @ [bhead])"
    and d: "b \<notin> set zs" "b \<noteq> bhead" "bhead \<notin> set zs" "distinct zs"
  shows "links (\<lambda>c. nxt (bufs (insert_head b s) c)) (\<lambda>c. prev (bufs (insert_head b s) c)) (bhead # b # zs @ [bhead])"
proof -
  have hb: "nxt (bufs s bhead) \<noteq> b"
  proof
    assume "nxt (bufs s bhead) = b"
    then have "b \<in> set (zs @ [bhead])" using l by (cases zs) auto
    then show False using d by auto
  qed
  have "(\<lambda>c. nxt (bufs (insert_head b s) c)) = (\<lambda>c. nxt (bufs s c))(b := nxt (bufs s bhead), bhead := b)"
    "(\<lambda>c. prev (bufs (insert_head b s) c)) = (\<lambda>c. prev (bufs s c))(b := bhead, nxt (bufs s bhead) := b)"
    using d(2) hb by (auto simp: insert_head_def Let_def fun_eq_iff)
  then show ?thesis using links_insert [OF l d] by simp
qed

lemma binit_from_links:
  assumes "links (\<lambda>c. nxt (bufs s c)) (\<lambda>c. prev (bufs s c)) (bhead # rev [0..<NBUF - k] @ [bhead])" and "k \<le> NBUF"
  shows "links (\<lambda>c. nxt (bufs (binit_from k s) c)) (\<lambda>c. prev (bufs (binit_from k s) c)) (bhead # rev [0..<NBUF] @ [bhead])"
  using assms
proof (induction k arbitrary: s)
  case 0
  then show ?case by simp
next
  case (Suc k)
  let ?b = "NBUF - Suc k" and ?s = "updb (NBUF - Suc k) (\<lambda>x. x\<lparr>block := initsleeplock\<rparr>) s"
  have u: "rev [0..<NBUF - k] = ?b # rev [0..<?b]"
  proof -
    have "NBUF - k = Suc ?b" using Suc.prems(2) by simp
    then show ?thesis by (simp only: upt_Suc_append le0 rev_append) simp
  qed
  have "links (\<lambda>c. nxt (bufs ?s c)) (\<lambda>c. prev (bufs ?s c)) (bhead # rev [0..<?b] @ [bhead])"
    by (rule links_cong [OF Suc.prems(1)]) auto
  then have "links (\<lambda>c. nxt (bufs (insert_head ?b ?s) c)) (\<lambda>c. prev (bufs (insert_head ?b ?s) c))
      (bhead # ?b # rev [0..<?b] @ [bhead])"
    using Suc.prems(2) by (intro insert_head_links) auto
  then show ?case using Suc.IH [of "insert_head ?b ?s"] Suc.prems(2) u by (simp add: Let_def)
qed

lemma binit_from_bufs:
  "same_buf ((bufs (binit_from k s) c)\<lparr>block := x\<rparr>) ((bufs s c)\<lparr>block := x\<rparr>) \<and>
   (block (bufs (binit_from k s) c) = block (bufs s c) \<or> block (bufs (binit_from k s) c) = initsleeplock) \<and>
   disk (binit_from k s) = disk s \<and> writes (binit_from k s) = writes s \<and> curpid (binit_from k s) = curpid s"
proof (induction k arbitrary: s)
  case 0
  then show ?case by (simp add: same_buf_def)
next
  case (Suc k)
  let ?b = "NBUF - Suc k" and ?s = "updb (NBUF - Suc k) (\<lambda>x. x\<lparr>block := initsleeplock\<rparr>) s"
  have "same_buf (bufs (insert_head ?b ?s) c) (bufs ?s c)" by (rule insert_head_rest(1))
  then show ?case using Suc.IH [of "insert_head ?b ?s"] by (auto simp: Let_def same_buf_def)
qed

text \<open>The cache as the kernel finds it: zeroed.\<close>

definition zeroed :: "bio \<Rightarrow> bool" where
  "zeroed s \<longleftrightarrow> (\<forall>b. \<not> valid (bufs s b) \<and> dev (bufs s b) = 0 \<and> refcnt (bufs s b) = 0 \<and>
     \<not> slocked (block (bufs s b)))"

lemma binit_spec:
  assumes z: "zeroed s" and d: "d \<noteq> 0"
  shows "binv d {} (binit s) \<and> held (binit s) = {} \<and> blk d (binit s) = disk s \<and> disk (binit s) = disk s \<and>
    writes (binit s) = writes s \<and> curpid (binit s) = curpid s"
proof -
  let ?s = "updb bhead (\<lambda>x. x\<lparr>prev := bhead, nxt := bhead\<rparr>) s"
  have "links (\<lambda>c. nxt (bufs ?s c)) (\<lambda>c. prev (bufs ?s c)) (bhead # rev [0..<NBUF - NBUF] @ [bhead])" by simp
  then have "ring (binit s) (rev [0..<NBUF])"
    using binit_from_links [of ?s NBUF] by (auto simp: ring_def binit_def)
  moreover have f: "\<not> valid (bufs (binit s) c)" "dev (bufs (binit s) c) = 0" "refcnt (bufs (binit s) c) = 0"
      "\<not> slocked (block (bufs (binit s) c))" for c
    using binit_from_bufs [where k = NBUF and s = ?s and c = c] z
    by (auto simp: same_buf_def zeroed_def binit_def initsleeplock_def split: if_splits)
  moreover have r: "disk (binit s) = disk s" "writes (binit s) = writes s" "curpid (binit s) = curpid s"
    using binit_from_bufs [where k = NBUF and s = ?s] by (simp_all add: binit_def)
  ultimately have "binv d {} (binit s)" "held (binit s) = {}" using d by (auto simp: binv_def held_def)
  moreover have "cached d (binit s) n = None" for n using f d cached_None by auto
  then have "blk d (binit s) = disk s" by (simp add: blk_def r fun_eq_iff)
  ultimately show ?thesis using r by blast
qed

section \<open>Properties\<close>

text \<open>
  C16: \<^verbatim>\<open>bread\<close> returns a locked buffer with the current contents of the block, whether it was cached or
  had to be read, without changing any block as the kernel sees it or any block on disk; and it keeps the
  invariant, so no block is ever in two buffers and no unwritten change is dropped.
\<close>

theorem bread_correct:
  assumes "binv d P s" and "\<And>b. b \<in> held s \<Longrightarrow> blockno (bufs s b) \<noteq> n" and "card (P \<union> held s) < NBUF"
  shows "okR (bread d n s) (\<lambda>(b, s'). binv d P s' \<and> b < NBUF \<and> holdingsleep (curpid s) (block (bufs s' b)) \<and>
    dev (bufs s' b) = d \<and> blockno (bufs s' b) = n \<and> data (bufs s' b) = blk d s n \<and>
    blk d s' = blk d s \<and> disk s' = disk s \<and> held s' = insert b (held s))"
proof -
  have r: "okR (bread d n s) (\<lambda>(b, s'). opened d P n s b s')" by (rule bread_open) (use assms in auto)
  show ?thesis
  proof (rule okR_mono [OF r], simp only: split_paired_all prod.case)
    fix b s'
    assume o: "opened d P n s b s'"
    then have "b \<in> held s'" "binv d P s'" by (simp_all add: opened_def)
    then have "dev (bufs s' b) = d" "holdingsleep (curpid s') (block (bufs s' b))" using heldD by blast+
    then show "binv d P s' \<and> b < NBUF \<and> holdingsleep (curpid s) (block (bufs s' b)) \<and>
      dev (bufs s' b) = d \<and> blockno (bufs s' b) = n \<and> data (bufs s' b) = blk d s n \<and>
      blk d s' = blk d s \<and> disk s' = disk s \<and> held s' = insert b (held s)"
      using o by (auto simp: opened_def)
  qed
qed

definition bio0 :: bio where
  "bio0 = \<lparr>bufs = (\<lambda>_. \<lparr>valid = False, dev = 0, blockno = 0, block = initsleeplock, refcnt = 0, prev = 0, nxt = 0,
       data = replicate BSIZE 0\<rparr>),
     disk = (\<lambda>n. replicate BSIZE (ucast n)), writes = [], curpid = 4, woken = []\<rparr>"

lemma bio0_inv: "binv 1 {} (binit bio0)" "held (binit bio0) = {}" "blk 1 (binit bio0) = disk bio0"
  using binit_spec [of bio0 1] by (auto simp: zeroed_def bio0_def initsleeplock_def)

theorem bread_correct_witness:
  "okR (bread 1 7 (binit bio0)) (\<lambda>(b, s'). data (bufs s' b) = replicate BSIZE 7 \<and> blockno (bufs s' b) = 7)"
  by (rule okR_mono [OF bread_correct [OF bio0_inv(1), of 7]])
    (auto simp: bio0_inv, simp add: bio0_def)

text \<open>
  C24: On a block that is not cached, \<^verbatim>\<open>bget\<close> recycles the least recently released buffer that nobody refers to;
  it panics exactly when there is none.
\<close>

theorem bget_recycles_lru:
  assumes "ring s xs" and "cached dv s bn = None"
  shows "bget dv bn s = (case find (\<lambda>b. refcnt (bufs s b) = 0) (rev xs) of
      None \<Rightarrow> Panic ''bget: no buffers''
    | Some b \<Rightarrow> lock_buf b (updb b (\<lambda>x. x\<lparr>dev := dv, blockno := bn, valid := False, refcnt := 1\<rparr>) s))"
proof -
  have "find (\<lambda>b. dev (bufs s b) = dv \<and> blockno (bufs s b) = bn) xs = None"
    using assms cached_None [of dv s bn] by (auto simp: find_None_iff ring_def)
  then show ?thesis using ring_scan [OF assms(1)] by (simp add: bget_def)
qed

lemma bio0_ring: "ring (binit bio0) (rev [0..<NBUF])"
proof -
  let ?s = "updb bhead (\<lambda>x. x\<lparr>prev := bhead, nxt := bhead\<rparr>) bio0"
  show ?thesis using binit_from_links [of ?s NBUF] by (auto simp: ring_def binit_def)
qed

lemma bio0_unused: "refcnt (bufs (binit bio0) b) = 0"
  using binit_from_bufs [where k = NBUF and s = "updb bhead (\<lambda>x. x\<lparr>prev := bhead, nxt := bhead\<rparr>) bio0" and c = b]
  by (auto simp: same_buf_def binit_def bio0_def split: if_splits)

theorem bget_recycles_lru_witness:
  "bget 1 7 (binit bio0) =
     lock_buf 0 (updb 0 (\<lambda>x. x\<lparr>dev := 1, blockno := 7, valid := False, refcnt := 1\<rparr>) (binit bio0))"
proof -
  have "cached 1 (binit bio0) 7 = None"
    using binit_from_bufs [where k = NBUF and s = "updb bhead (\<lambda>x. x\<lparr>prev := bhead, nxt := bhead\<rparr>) bio0"]
    by (auto simp: cached_None same_buf_def binit_def bio0_def split: if_splits)
  moreover have "find (\<lambda>b. refcnt (bufs (binit bio0) b) = 0) (rev (rev [0..<NBUF])) = Some 0"
    by (simp add: bio0_unused upt_rec)
  ultimately show ?thesis using bget_recycles_lru [OF bio0_ring] by simp
qed

text \<open>
  C26: \<^verbatim>\<open>brelse\<close> of the last reference unlocks the buffer and moves it to the front of the LRU list, leaving the
  order of the others as it is: the relinking of the source is a move to the front.
\<close>

theorem brelse_moves_to_front:
  assumes "ring s xs" and "b < NBUF" and "holdingsleep (curpid s) (block (bufs s b))" and "refcnt (bufs s b) = 1"
  shows "okR (brelse b s) (\<lambda>s'. ring s' (b # remove1 b xs) \<and> \<not> slocked (block (bufs s' b)) \<and> refcnt (bufs s' b) = 0)"
proof -
  let ?s = "updb b (\<lambda>x. x\<lparr>refcnt := refcnt x - 1\<rparr>)
    (wake (Chan_buf_lock b) (updb b (\<lambda>x. x\<lparr>block := releasesleep (block x)\<rparr>) s))"
  have "ring ?s xs" by (rule ring_cong [OF assms(1)]) simp
  then have r: "ring (insert_head b (unlink_buf b ?s)) (b # remove1 b xs)" using assms(2) by (rule ring_release)
  have "same_buf (bufs (insert_head b (unlink_buf b ?s)) b) (bufs ?s b)"
    by (rule same_buf_trans [OF insert_head_rest(1) unlink_buf_rest(1)])
  then have "\<not> slocked (block (bufs (insert_head b (unlink_buf b ?s)) b)) \<and>
      refcnt (bufs (insert_head b (unlink_buf b ?s)) b) = 0"
    using assms(4) by (simp add: same_buf_def releasesleep_def)
  then show ?thesis using r assms(3,4) by (simp add: brelse_def Let_def)
qed

definition bio1 :: bio where
  "bio1 = updb 3 (\<lambda>x. x\<lparr>refcnt := 1, block := \<lparr>slocked = True, spid = 4\<rparr>\<rparr>) (binit bio0)"

theorem brelse_moves_to_front_witness:
  "okR (brelse 3 bio1) (\<lambda>s'. ring s' (3 # remove1 3 (rev [0..<NBUF])))"
proof -
  have "ring bio1 (rev [0..<NBUF])" by (rule ring_cong [OF bio0_ring]) (simp add: bio1_def)
  moreover have "curpid bio1 = 4"
    using binit_from_bufs [where k = NBUF and s = "updb bhead (\<lambda>x. x\<lparr>prev := bhead, nxt := bhead\<rparr>) bio0"]
    by (simp add: bio1_def binit_def bio0_def)
  ultimately show ?thesis
    by (intro okR_mono [OF brelse_moves_to_front [of bio1 "rev [0..<NBUF]" 3]])
      (auto simp: bio1_def holdingsleep_def)
qed

end
