(* ===== verification/Xv6_Cache.thy ===== *)
theory Xv6_Cache
  imports Xv6_Bio
begin

text \<open>
  The buffer cache of \<^verbatim>\<open>Xv6_Bio\<close> as the log and the file system use it: what each operation does to the
  contents of the blocks, stated over block numbers, the contract \<open>block_cache\<close> that the log relies on, and
  the proof that \<^verbatim>\<open>kernel/bio.c\<close> keeps it.
\<close>

section \<open>The cache in terms of block numbers\<close>

text \<open>
  The layers above think of blocks and not of buffers: \<open>B\<close> are the numbers of the blocks that are pinned
  and \<open>H\<close> gives the block in each buffer that is locked.
\<close>

definition cst :: "u32 \<Rightarrow> u32 set \<Rightarrow> (nat \<rightharpoonup> u32) \<Rightarrow> bio \<Rightarrow> bool" where
  "cst d B H s \<longleftrightarrow> (\<exists>P. binv d P s \<and> B = (\<lambda>b. blockno (bufs s b)) ` P) \<and>
     held s = dom H \<and> (\<forall>b n. H b = Some n \<longrightarrow> blockno (bufs s b) = n)"

lemma cstE:
  assumes "cst d B H s"
  obtains P where "binv d P s" "B = (\<lambda>b. blockno (bufs s b)) ` P" "held s = dom H"
    "\<And>b n. H b = Some n \<Longrightarrow> blockno (bufs s b) = n" "inj_on (\<lambda>b. blockno (bufs s b)) (P \<union> held s)"
    "card P = card B" "finite P" "finite (held s)"
proof -
  obtain P where P: "binv d P s" "B = (\<lambda>b. blockno (bufs s b)) ` P" "held s = dom H"
      "\<And>b n. H b = Some n \<Longrightarrow> blockno (bufs s b) = n"
    using assms by (auto simp: cst_def)
  have fin: "finite P" "finite (held s)"
    using binvD(2) [OF P(1)] finite_subset by (auto simp: held_def)
  have inj: "inj_on (\<lambda>b. blockno (bufs s b)) (P \<union> held s)"
    using binvD(2) [OF P(1)] binvD(7) [OF P(1)] heldD [OF P(1)]
    by (intro inj_onI binvD(3) [OF P(1)]) auto
  then have "card P = card B" using P(2) by (metis card_image inj_on_Un)
  then show thesis using that P inj fin by blast
qed

lemma cst_clean:
  assumes "cst d B H s" and "n \<notin> B" and "n \<notin> ran H"
  shows "blk d s n = disk s n"
proof (rule cstE [OF assms(1)])
  fix P
  assume P: "binv d P s" "B = (\<lambda>b. blockno (bufs s b)) ` P" "held s = dom H"
    "\<And>b n. H b = Some n \<Longrightarrow> blockno (bufs s b) = n"
  show ?thesis by (rule blk_clean [OF P(1)]) (use assms P in \<open>auto simp: ran_def\<close>)
qed

lemma cst_data: "cst d B H s \<Longrightarrow> H b = Some n \<Longrightarrow> data (bufs s b) = blk d s n"
proof (erule cstE)
  fix P
  assume P: "binv d P s" "held s = dom H" "\<And>b n. H b = Some n \<Longrightarrow> blockno (bufs s b) = n" and b: "H b = Some n"
  have "b \<in> held s" using P(2) b by auto
  then show ?thesis using blk_buf [OF P(1)] heldD [OF P(1)] P(3) [OF b] by auto
qed

lemma cst_bread:
  assumes c: "cst d B H s" and n: "n \<notin> ran H" and room: "n \<in> B \<or> card B + card (dom H) < NBUF"
  shows "okR (bread d n s) (\<lambda>(b, s'). cst d B (H(b \<mapsto> n)) s' \<and> b \<notin> dom H \<and> blk d s' = blk d s \<and>
    disk s' = disk s \<and> writes s' = writes s \<and> curpid s' = curpid s \<and> woken s' = woken s)"
proof (rule cstE [OF c])
  fix P
  assume P: "binv d P s" "B = (\<lambda>b. blockno (bufs s b)) ` P" "held s = dom H"
    "\<And>b n. H b = Some n \<Longrightarrow> blockno (bufs s b) = n" "card P = card B"
  have "okR (bread d n s) (\<lambda>(b, s'). opened d P n s b s')"
  proof (rule bread_spec [OF P(1)])
    fix b
    assume b: "cached d s n = Some b"
    then have "b < NBUF" "blockno (bufs s b) = n" using cached_Some [OF P(1)] by auto
    moreover have "b \<notin> dom H" using P(4) n \<open>blockno (bufs s b) = n\<close> by (auto simp: ran_def)
    ultimately show "\<not> slocked (block (bufs s b))" using P(3) by (auto simp: held_def)
  next
    assume no: "cached d s n = None"
    have "n \<notin> B"
    proof
      assume "n \<in> B"
      then obtain b where "b \<in> P" "blockno (bufs s b) = n" using P(2) by auto
      then show False using no cached_None [of d s n] binvD(2,7) [OF P(1)] by auto
    qed
    then show "card (P \<union> held s) < NBUF" using room P(3,5) card_Un_le [of P "held s"] by auto
  qed
  then show ?thesis
  proof (rule okR_mono, simp only: split_paired_all prod.case)
    fix b s'
    assume o: "opened d P n s b s'"
    have "blockno (bufs s' c) = blockno (bufs s c)" if "c \<in> P" for c
      using o that by (cases "c = b") (auto simp: opened_def)
    then have "B = (\<lambda>b. blockno (bufs s' b)) ` P" using P(2) by (auto simp: image_iff)
    moreover have "b \<notin> dom H" "held s' = dom (H(b \<mapsto> n))" using o P(3) by (auto simp: opened_def)
    moreover have "blockno (bufs s' c) = m" if "(H(b \<mapsto> n)) c = Some m" for c m
      using that o P(4) by (cases "c = b") (auto simp: opened_def)
    ultimately show "cst d B (H(b \<mapsto> n)) s' \<and> b \<notin> dom H \<and> blk d s' = blk d s \<and>
        disk s' = disk s \<and> writes s' = writes s \<and> curpid s' = curpid s \<and> woken s' = woken s"
      using o by (auto simp: cst_def opened_def fun_eq_iff)
  qed
qed

lemma cst_set_data:
  assumes "cst d B H s" and "H b = Some n"
  shows "cst d B H (set_data b bs s) \<and> blk d (set_data b bs s) = (blk d s)(n := bs)"
proof (rule cstE [OF assms(1)])
  fix P
  assume P: "binv d P s" "B = (\<lambda>b. blockno (bufs s b)) ` P" "held s = dom H"
    "\<And>b n. H b = Some n \<Longrightarrow> blockno (bufs s b) = n"
  have "blockno (bufs (set_data b bs s) c) = blockno (bufs s c)" for c by (simp add: set_data_def)
  then show ?thesis
    using set_data_spec [OF P(1), of b bs] P assms(2) by (auto simp: cst_def)
qed

lemma set_data_rest [simp]:
  "disk (set_data b bs s) = disk s" "writes (set_data b bs s) = writes s" "curpid (set_data b bs s) = curpid s"
  "woken (set_data b bs s) = woken s"
  by (simp_all add: set_data_def)

lemma cst_bwrite:
  assumes "cst d B H s" and "H b = Some n"
  shows "okR (bwrite b s) (\<lambda>s'. cst d B H s' \<and> blk d s' = blk d s \<and> disk s' = (disk s)(n := blk d s n) \<and>
    writes s' = writes s @ [(n, blk d s n)] \<and> curpid s' = curpid s \<and> woken s' = woken s)"
proof (rule cstE [OF assms(1)])
  fix P
  assume P: "binv d P s" "B = (\<lambda>b. blockno (bufs s b)) ` P" "held s = dom H"
    "\<And>b n. H b = Some n \<Longrightarrow> blockno (bufs s b) = n"
  have b: "b \<in> held s" "blockno (bufs s b) = n" using P(3,4) assms(2) by auto
  then show ?thesis
    by (intro okR_mono [OF bwrite_spec [OF P(1) b(1)]])
      (use P cst_data [OF assms] in \<open>auto simp: cst_def\<close>)
qed

lemma cst_brelse:
  assumes "cst d B H s" and "H b = Some n" and "n \<in> B \<or> blk d s n = disk s n"
  shows "okR (brelse b s) (\<lambda>s'. cst d B (H(b := None)) s' \<and> blk d s' = blk d s \<and> disk s' = disk s \<and>
    writes s' = writes s \<and> curpid s' = curpid s \<and> woken s' = woken s @ [Chan_buf_lock b])"
proof (rule cstE [OF assms(1)])
  fix P
  assume P: "binv d P s" "B = (\<lambda>b. blockno (bufs s b)) ` P" "held s = dom H"
    "\<And>b n. H b = Some n \<Longrightarrow> blockno (bufs s b) = n" "inj_on (\<lambda>b. blockno (bufs s b)) (P \<union> held s)"
  have b: "b \<in> held s" "blockno (bufs s b) = n" using P(3,4) assms(2) by auto
  have "b \<in> P \<or> data (bufs s b) = disk s (blockno (bufs s b))"
  proof (cases "n \<in> B")
    case True
    then obtain c where c: "c \<in> P" "blockno (bufs s c) = n" using P(2) by auto
    then have "c = b" using inj_onD [OF P(5), of c b] b by auto
    then show ?thesis using c by simp
  next
    case False
    then show ?thesis using assms(3) cst_data [OF assms(1,2)] b by simp
  qed
  then show ?thesis
    by (intro okR_mono [OF brelse_spec [OF P(1) b(1)]]) (use P in \<open>auto simp: cst_def closed_def split: if_splits\<close>)
qed

lemma cst_bpin:
  assumes "cst d B H s" and "H b = Some n" and "n \<notin> B"
  shows "cst d (insert n B) H (bpin b s) \<and> blk d (bpin b s) = blk d s"
proof (rule cstE [OF assms(1)])
  fix P
  assume P: "binv d P s" "B = (\<lambda>b. blockno (bufs s b)) ` P" "held s = dom H"
    "\<And>b n. H b = Some n \<Longrightarrow> blockno (bufs s b) = n"
  have b: "b \<in> held s" "blockno (bufs s b) = n" "b \<notin> P" using P(2-4) assms(2,3) by auto
  have "blockno (bufs (bpin b s) c) = blockno (bufs s c)" for c by (simp add: bpin_def)
  then show ?thesis using bpin_spec [OF P(1) b(1,3)] b P by (auto simp: cst_def intro!: exI [of _ "insert b P"])
qed

lemma cst_bunpin:
  assumes "cst d B H s" and "H b = Some n" and "n \<in> B"
  shows "cst d (B - {n}) H (bunpin b s) \<and> blk d (bunpin b s) = blk d s"
proof (rule cstE [OF assms(1)])
  fix P
  assume P: "binv d P s" "B = (\<lambda>b. blockno (bufs s b)) ` P" "held s = dom H"
    "\<And>b n. H b = Some n \<Longrightarrow> blockno (bufs s b) = n" "inj_on (\<lambda>b. blockno (bufs s b)) (P \<union> held s)"
  obtain c where c: "c \<in> P" "blockno (bufs s c) = n" using P(2) assms(3) by auto
  have b: "b \<in> held s" "blockno (bufs s b) = n" using P(3,4) assms(2) by auto
  then have bP: "b \<in> P" using inj_onD [OF P(5), of c b] c by auto
  have "blockno (bufs s x) \<noteq> n" if "x \<in> P" "x \<noteq> b" for x using inj_onD [OF P(5), of x b] b that by auto
  then have "B - {n} = (\<lambda>b. blockno (bufs s b)) ` (P - {b})" using P(2) b by auto
  moreover have "blockno (bufs (bunpin b s) c) = blockno (bufs s c)" for c by (simp add: bunpin_def)
  ultimately show ?thesis
    using bunpin_spec [OF P(1) b(1) bP] P by (auto simp: cst_def intro!: exI [of _ "P - {b}"])
qed

lemma pin_rest [simp]:
  "disk (bpin b s) = disk s" "writes (bpin b s) = writes s" "curpid (bpin b s) = curpid s" "woken (bpin b s) = woken s"
  "disk (bunpin b s) = disk s" "writes (bunpin b s) = writes s" "curpid (bunpin b s) = curpid s"
  "woken (bunpin b s) = woken s"
  by (simp_all add: bpin_def bunpin_def)

lemma wake_inv [simp]:
  "binv d P (wake ch s) = binv d P s" "held (wake ch s) = held s" "blk d (wake ch s) = blk d s"
  "cst d B H (wake ch s) = cst d B H s"
  by (simp_all add: binv_def held_def blk_def [abs_def] cached_def ring_def cst_def wake_def cong: option.case_cong if_cong)

section \<open>The contract of the cache\<close>

text \<open>
  What the layers above rely on.  \<open>view\<close> is the contents of the blocks as the kernel sees them, \<open>store\<close>
  the disk, \<open>trace\<close> the writes to it; \<open>inv B H\<close> is the invariant when the blocks \<open>B\<close> are pinned and \<open>H\<close> gives
  the blocks of the locked buffers; \<open>cap\<close> is the number of buffers.
\<close>

locale block_cache =
  fixes rd :: "u32 \<Rightarrow> 's \<Rightarrow> (nat \<times> 's) res"
    and wr :: "nat \<Rightarrow> 's \<Rightarrow> 's res"
    and rl :: "nat \<Rightarrow> 's \<Rightarrow> 's res"
    and put :: "nat \<Rightarrow> u8 list \<Rightarrow> 's \<Rightarrow> 's"
    and cont :: "'s \<Rightarrow> nat \<Rightarrow> u8 list"
    and inv :: "u32 set \<Rightarrow> (nat \<rightharpoonup> u32) \<Rightarrow> 's \<Rightarrow> bool"
    and view :: "'s \<Rightarrow> u32 \<Rightarrow> u8 list"
    and store :: "'s \<Rightarrow> u32 \<Rightarrow> u8 list"
    and trace :: "'s \<Rightarrow> (u32 \<times> u8 list) list"
    and cap :: nat
  assumes read_ok: "inv B H s \<Longrightarrow> n \<notin> ran H \<Longrightarrow> n \<in> B \<or> card B + card (dom H) < cap \<Longrightarrow>
      okR (rd n s) (\<lambda>(b, s'). inv B (H(b \<mapsto> n)) s' \<and> b \<notin> dom H \<and> view s' = view s \<and> store s' = store s \<and>
        trace s' = trace s)"
    and cont_ok: "inv B H s \<Longrightarrow> H b = Some n \<Longrightarrow> cont s b = view s n"
    and put_ok: "inv B H s \<Longrightarrow> H b = Some n \<Longrightarrow> inv B H (put b bs s) \<and> view (put b bs s) = (view s)(n := bs) \<and>
      store (put b bs s) = store s \<and> trace (put b bs s) = trace s"
    and write_ok: "inv B H s \<Longrightarrow> H b = Some n \<Longrightarrow> okR (wr b s) (\<lambda>s'. inv B H s' \<and> view s' = view s \<and>
      store s' = (store s)(n := view s n) \<and> trace s' = trace s @ [(n, view s n)])"
    and relse_ok: "inv B H s \<Longrightarrow> H b = Some n \<Longrightarrow> n \<in> B \<or> view s n = store s n \<Longrightarrow>
      okR (rl b s) (\<lambda>s'. inv B (H(b := None)) s' \<and> view s' = view s \<and> store s' = store s \<and> trace s' = trace s)"
    and clean: "inv B H s \<Longrightarrow> n \<notin> B \<Longrightarrow> n \<notin> ran H \<Longrightarrow> view s n = store s n"
begin

text \<open>A block that is in a locked buffer is rewritten on disk.\<close>

lemma rewrite_held:
  assumes i: "inv B H s" and b: "H b = Some n"
  shows "okR (wr b (put b bs s)) (\<lambda>s'. inv B H s' \<and> view s' = (view s)(n := bs) \<and>
    store s' = (store s)(n := bs) \<and> trace s' = trace s @ [(n, bs)])"
proof -
  note p = put_ok [OF i b, of bs]
  show ?thesis by (rule okR_mono [OF write_ok [of B H _ b n]]) (use p b in auto)
qed

text \<open>Reading a block, \<open>k\<close> being what is done with its contents.\<close>

lemma inspect_block:
  assumes i: "inv B Map.empty s" and room: "n \<in> B \<or> card B < cap"
  shows "okR (bindR (rd n s) (\<lambda>(b, s1). bindR (rl b s1) (\<lambda>s2. Ok (k (cont s1 b) s2))))
    (\<lambda>r. \<exists>s2. r = k (view s n) s2 \<and> inv B Map.empty s2 \<and> view s2 = view s \<and> store s2 = store s \<and> trace s2 = trace s)"
proof (rule okR_bindI2 [OF read_ok [OF i]])
  fix b s1
  assume o: "inv B [b \<mapsto> n] s1 \<and> b \<notin> dom Map.empty \<and> view s1 = view s \<and> store s1 = store s \<and> trace s1 = trace s"
  then have "n \<in> B \<or> view s1 n = store s1 n" using clean [OF i, of n] by auto
  then have "okR (rl b s1) (\<lambda>s2. inv B Map.empty s2 \<and> view s2 = view s \<and> store s2 = store s \<and> trace s2 = trace s)"
    using o by (intro okR_mono [OF relse_ok [of B "[b \<mapsto> n]" s1 b n]]) auto
  then have "okR (rl b s1) (\<lambda>s2. \<exists>s2'. k (cont s1 b) s2 = k (view s n) s2' \<and> inv B Map.empty s2' \<and>
      view s2' = view s \<and> store s2' = store s \<and> trace s2' = trace s)"
    using cont_ok [of B "[b \<mapsto> n]" s1 b n] o by (auto elim!: okR_mono)
  then show "okR (case (b, s1) of (b, s1) \<Rightarrow> bindR (rl b s1) (\<lambda>s2. Ok (k (cont s1 b) s2)))
      (\<lambda>r. \<exists>s2. r = k (view s n) s2 \<and> inv B Map.empty s2 \<and> view s2 = view s \<and> store s2 = store s \<and> trace s2 = trace s)"
    by simp
qed (use room in auto)

text \<open>Rewriting one block on disk: read it, change the buffer, write it, release it.\<close>

lemma update_block:
  assumes i: "inv B Map.empty s" and room: "n \<in> B \<or> card B < cap"
  shows "okR (bindR (rd n s) (\<lambda>(b, s1). bindR (wr b (put b (f (cont s1 b)) s1)) (rl b)))
    (\<lambda>s'. inv B Map.empty s' \<and> view s' = (view s)(n := f (view s n)) \<and>
      store s' = (store s)(n := f (view s n)) \<and> trace s' = trace s @ [(n, f (view s n))])"
proof (rule okR_bindI2 [OF read_ok [OF i]])
  fix b s1
  assume o: "inv B [b \<mapsto> n] s1 \<and> b \<notin> dom Map.empty \<and> view s1 = view s \<and> store s1 = store s \<and> trace s1 = trace s"
  then have w: "okR (wr b (put b (f (cont s1 b)) s1)) (\<lambda>s2. inv B [b \<mapsto> n] s2 \<and> view s2 = (view s)(n := f (view s n)) \<and>
      store s2 = (store s)(n := f (view s n)) \<and> trace s2 = trace s @ [(n, f (view s n))])"
    using cont_ok [of B "[b \<mapsto> n]" s1 b n] rewrite_held [of B "[b \<mapsto> n]" s1 b n "f (view s n)"] by simp
  have "okR (bindR (wr b (put b (f (cont s1 b)) s1)) (rl b)) (\<lambda>s'. inv B Map.empty s' \<and>
      view s' = (view s)(n := f (view s n)) \<and> store s' = (store s)(n := f (view s n)) \<and>
      trace s' = trace s @ [(n, f (view s n))])"
    by (rule okR_bindI [OF w], rule okR_mono [OF relse_ok [of B "[b \<mapsto> n]" _ b n]]) auto
  then show "okR (case (b, s1) of (b, s1) \<Rightarrow> bindR (wr b (put b (f (cont s1 b)) s1)) (rl b)) (\<lambda>s'. inv B Map.empty s' \<and>
      view s' = (view s)(n := f (view s n)) \<and> store s' = (store s)(n := f (view s n)) \<and>
      trace s' = trace s @ [(n, f (view s n))])" by simp
qed (use room in auto)

text \<open>Two blocks are read, and the first is overwritten with the second one.\<close>

lemma read_two:
  assumes i: "inv B Map.empty s" and nm: "n \<noteq> m" and room: "n \<in> B \<or> card B < cap" "m \<in> B \<or> Suc (card B) < cap"
    and k: "\<And>a b s'. a \<noteq> b \<Longrightarrow> inv B [a \<mapsto> n, b \<mapsto> m] s' \<Longrightarrow> view s' = view s \<Longrightarrow> store s' = store s \<Longrightarrow>
      trace s' = trace s \<Longrightarrow> okR (k a b s') Q"
  shows "okR (bindR (rd n s) (\<lambda>(a, s1). bindR (rd m s1) (\<lambda>(b, s2). k a b s2))) Q"
proof (rule okR_bindI2 [OF read_ok [OF i]])
  fix a s1
  assume o: "inv B [a \<mapsto> n] s1 \<and> a \<notin> dom Map.empty \<and> view s1 = view s \<and> store s1 = store s \<and> trace s1 = trace s"
  have "okR (bindR (rd m s1) (\<lambda>(b, s2). k a b s2)) Q"
  proof (rule okR_bindI2 [OF read_ok [of B "[a \<mapsto> n]" s1 m]])
    fix b s2
    assume "inv B ([a \<mapsto> n](b \<mapsto> m)) s2 \<and> b \<notin> dom [a \<mapsto> n] \<and> view s2 = view s1 \<and> store s2 = store s1 \<and> trace s2 = trace s1"
    then show "okR (case (b, s2) of (b, s2) \<Rightarrow> k a b s2) Q" using o by (auto intro!: k)
  qed (use o nm room in auto)
  then show "okR (case (a, s1) of (a, s1) \<Rightarrow> bindR (rd m s1) (\<lambda>(b, s2). k a b s2)) Q" by simp
qed (use room in auto)

end

interpretation bcache: block_cache "bread d" bwrite brelse set_data "\<lambda>s b. data (bufs s b)" "cst d" "blk d" disk writes NBUF
proof unfold_locales
  fix B H s n
  assume a: "cst d B H s" "n \<notin> ran H" "n \<in> B \<or> card B + card (dom H) < NBUF"
  show "okR (bread d n s) (\<lambda>(b, s'). cst d B (H(b \<mapsto> n)) s' \<and> b \<notin> dom H \<and> blk d s' = blk d s \<and>
      disk s' = disk s \<and> writes s' = writes s)"
    by (rule okR_mono [OF cst_bread [OF a]]) auto
next
  fix B H s b n bs
  assume a: "cst d B H s" "H b = Some n"
  show "data (bufs s b) = blk d s n" by (rule cst_data [OF a])
  show "cst d B H (set_data b bs s) \<and> blk d (set_data b bs s) = (blk d s)(n := bs) \<and>
      disk (set_data b bs s) = disk s \<and> writes (set_data b bs s) = writes s"
    using cst_set_data [OF a] by simp
  show "okR (bwrite b s) (\<lambda>s'. cst d B H s' \<and> blk d s' = blk d s \<and> disk s' = (disk s)(n := blk d s n) \<and>
      writes s' = writes s @ [(n, blk d s n)])"
    by (rule okR_mono [OF cst_bwrite [OF a]]) auto
  assume "n \<in> B \<or> blk d s n = disk s n"
  then show "okR (brelse b s) (\<lambda>s'. cst d B (H(b := None)) s' \<and> blk d s' = blk d s \<and> disk s' = disk s \<and> writes s' = writes s)"
    by (intro okR_mono [OF cst_brelse [OF a]]) auto
next
  fix B H s n
  assume "cst d B H s" "n \<notin> B" "n \<notin> ran H"
  then show "blk d s n = disk s n" by (rule cst_clean)
qed


end
