(* ===== verification/Xv6_Log.thy ===== *)
theory Xv6_Log
  imports Xv6_Cache
begin

text \<open>
  \<^verbatim>\<open>kernel/log.c\<close>: the redo log.  The state holds the fields of \<^verbatim>\<open>struct log\<close> and the buffer cache below it.
  The spinlock \<^verbatim>\<open>log.lock\<close> makes the parts of \<^verbatim>\<open>begin_op\<close>, \<^verbatim>\<open>end_op\<close> and \<^verbatim>\<open>log_write\<close> between \<^verbatim>\<open>acquire\<close> and
  \<^verbatim>\<open>release\<close> atomic.  A caller that has to wait in \<^verbatim>\<open>begin_op\<close> has the outcome \<open>Sleeps\<close>.  The array
  \<^verbatim>\<open>log.lh.block\<close> is a function of the index; indices that are used stay below \<^verbatim>\<open>LOGSIZE\<close> by the invariant.
\<close>

section \<open>The code\<close>

abbreviation (input) MAXOPBLOCKS :: nat where
  "MAXOPBLOCKS \<equiv> 10"

abbreviation (input) LOGSIZE :: nat where
  "LOGSIZE \<equiv> 30"

record logst =
  lstart :: u32
  lsize :: int
  outstanding :: int
  committing :: bool
  ldev :: u32
  lh_n :: int
  lh_block :: "nat \<Rightarrow> u32"
  bc :: bio

definition upd_bc :: "(bio \<Rightarrow> bio) \<Rightarrow> logst \<Rightarrow> logst" where
  "upd_bc f l = l\<lparr>bc := f (bc l)\<rparr>"

text \<open>One iteration of the loop of \<^verbatim>\<open>install_trans\<close>, and of that of \<^verbatim>\<open>write_log\<close>.\<close>

definition install_one :: "bool \<Rightarrow> logst \<Rightarrow> nat \<Rightarrow> bio \<Rightarrow> bio res" where
  "install_one recovering l tail s =
     bindR (bread (ldev l) (lstart l + of_nat tail + 1) s) (\<lambda>(lbuf, s).
     bindR (bread (ldev l) (lh_block l tail) s) (\<lambda>(dbuf, s).
     bindR (bwrite dbuf (set_data dbuf (data (bufs s lbuf)) s)) (\<lambda>s.
     bindR (brelse lbuf (if recovering then s else bunpin dbuf s)) (brelse dbuf))))"

definition install_trans :: "bool \<Rightarrow> logst \<Rightarrow> logst res" where
  "install_trans recovering l =
     bindR (forR [0..<nat (lh_n l)] (install_one recovering l) (bc l)) (\<lambda>s. Ok (l\<lparr>bc := s\<rparr>))"

definition write_one :: "logst \<Rightarrow> nat \<Rightarrow> bio \<Rightarrow> bio res" where
  "write_one l tail s =
     bindR (bread (ldev l) (lstart l + of_nat tail + 1) s) (\<lambda>(to, s).
     bindR (bread (ldev l) (lh_block l tail) s) (\<lambda>(from, s).
     bindR (bwrite to (set_data to (data (bufs s from)) s)) (\<lambda>s.
     bindR (brelse from s) (brelse to))))"

definition write_log :: "logst \<Rightarrow> logst res" where
  "write_log l = bindR (forR [0..<nat (lh_n l)] (write_one l) (bc l)) (\<lambda>s. Ok (l\<lparr>bc := s\<rparr>))"

text \<open>\<^verbatim>\<open>struct logheader\<close> in a block: \<^verbatim>\<open>n\<close> at offset 0 and \<^verbatim>\<open>block[i]\<close> at offset \<open>4 + 4 * i\<close>.\<close>

definition head_n :: "u8 list \<Rightarrow> int" where
  "head_n bs = sint (get32 0 bs)"

definition head_block :: "u8 list \<Rightarrow> nat \<Rightarrow> u32" where
  "head_block bs i = get32 (4 + 4 * i) bs"

definition read_head :: "logst \<Rightarrow> logst res" where
  "read_head l =
     bindR (bread (ldev l) (lstart l) (bc l)) (\<lambda>(b, s).
     let d = data (bufs s b); n = head_n d in
     bindR (brelse b s) (\<lambda>s.
     Ok (l\<lparr>lh_n := n, lh_block := (\<lambda>i. if i < nat n then head_block d i else lh_block l i), bc := s\<rparr>)))"

fun put_blocks :: "nat \<Rightarrow> (nat \<Rightarrow> u32) \<Rightarrow> u8 list \<Rightarrow> u8 list" where
  "put_blocks 0 blks bs = bs"
| "put_blocks (Suc n) blks bs = put32 (4 + 4 * n) (blks n) (put_blocks n blks bs)"

definition put_head :: "int \<Rightarrow> (nat \<Rightarrow> u32) \<Rightarrow> u8 list \<Rightarrow> u8 list" where
  "put_head n blks bs = put_blocks (nat n) blks (put32 0 (word_of_int n) bs)"

definition write_head :: "logst \<Rightarrow> logst res" where
  "write_head l =
     bindR (bread (ldev l) (lstart l) (bc l)) (\<lambda>(b, s).
     bindR (bwrite b (set_data b (put_head (lh_n l) (lh_block l) (data (bufs s b))) s)) (\<lambda>s.
     bindR (brelse b s) (\<lambda>s. Ok (l\<lparr>bc := s\<rparr>))))"

definition recover_from_log :: "logst \<Rightarrow> logst res" where
  "recover_from_log l =
     bindR (read_head l) (\<lambda>l.
     bindR (install_trans True l) (\<lambda>l. write_head (l\<lparr>lh_n := 0\<rparr>)))"

text \<open>\<^verbatim>\<open>sizeof(struct logheader)\<close> is \<open>4 + 4 * LOGSIZE\<close>; the superblock fields are arguments.\<close>

definition initlog :: "u32 \<Rightarrow> u32 \<Rightarrow> u32 \<Rightarrow> logst \<Rightarrow> logst res" where
  "initlog dv logstart nlog l =
     (if 4 + 4 * LOGSIZE \<ge> BSIZE then Panic ''initlog: too big logheader''
      else recover_from_log (l\<lparr>lstart := logstart, lsize := sint nlog, ldev := dv\<rparr>))"

definition begin_op :: "logst \<Rightarrow> logst res" where
  "begin_op l =
     (if committing l then Sleeps ''log''
      else if lh_n l + (outstanding l + 1) * int MAXOPBLOCKS > int LOGSIZE then Sleeps ''log''
      else Ok (l\<lparr>outstanding := outstanding l + 1\<rparr>))"

definition commit :: "logst \<Rightarrow> logst res" where
  "commit l =
     (if lh_n l > 0 then
        bindR (write_log l) (\<lambda>l.
        bindR (write_head l) (\<lambda>l.
        bindR (install_trans False l) (\<lambda>l. write_head (l\<lparr>lh_n := 0\<rparr>))))
      else Ok l)"

text \<open>The first critical section of \<^verbatim>\<open>end_op\<close> returns \<^verbatim>\<open>do_commit\<close>; the second one follows the commit.\<close>

definition end_op_enter :: "logst \<Rightarrow> (bool \<times> logst) res" where
  "end_op_enter l =
     (let l1 = l\<lparr>outstanding := outstanding l - 1\<rparr> in
      if committing l1 then Panic ''log.committing''
      else if outstanding l1 = 0 then Ok (True, l1\<lparr>committing := True\<rparr>)
      else Ok (False, upd_bc (wake Chan_log) l1))"

definition end_op_leave :: "logst \<Rightarrow> logst" where
  "end_op_leave l = upd_bc (wake Chan_log) (l\<lparr>committing := False\<rparr>)"

definition end_op :: "logst \<Rightarrow> logst res" where
  "end_op l =
     bindR (end_op_enter l) (\<lambda>(do_commit, l).
       if do_commit then bindR (commit l) (\<lambda>l. Ok (end_op_leave l)) else Ok l)"

text \<open>The loop of \<^verbatim>\<open>log_write\<close> stops at the first entry for the block, or at \<^verbatim>\<open>log.lh.n\<close>.\<close>

definition log_find :: "logst \<Rightarrow> u32 \<Rightarrow> nat" where
  "log_find l n = (case find (\<lambda>i. lh_block l i = n) [0..<nat (lh_n l)] of None \<Rightarrow> nat (lh_n l) | Some i \<Rightarrow> i)"

definition log_write :: "nat \<Rightarrow> logst \<Rightarrow> logst res" where
  "log_write b l =
     (if lh_n l \<ge> int LOGSIZE \<or> lh_n l \<ge> lsize l - 1 then Panic ''too big a transaction''
      else if outstanding l < 1 then Panic ''log_write outside of trans''
      else
        let i = log_find l (blockno (bufs (bc l) b));
            l1 = l\<lparr>lh_block := (lh_block l)(i := blockno (bufs (bc l) b))\<rparr>
        in Ok (if int i = lh_n l1 then (upd_bc (bpin b) l1)\<lparr>lh_n := lh_n l1 + 1\<rparr> else l1))"

section \<open>The effect of the steps on the blocks\<close>

abbreviation log_blk :: "logst \<Rightarrow> nat \<Rightarrow> u32" where
  "log_blk l i \<equiv> lstart l + of_nat i + 1"

definition put_block :: "u32 \<Rightarrow> u8 list \<Rightarrow> bio \<Rightarrow> bio \<Rightarrow> u32 \<Rightarrow> bool" where
  "put_block n bs s s' d \<longleftrightarrow> blk d s' = (blk d s)(n := bs) \<and> disk s' = (disk s)(n := bs) \<and> writes s' = writes s @ [(n, bs)]"

lemma write_one_spec:
  assumes c: "cst (ldev l) B Map.empty s" and r: "card B < NBUF" "lh_block l i \<in> B" "log_blk l i \<noteq> lh_block l i"
  shows "okR (write_one l i s) (\<lambda>s'. cst (ldev l) B Map.empty s' \<and>
    put_block (log_blk l i) (blk (ldev l) s (lh_block l i)) s s' (ldev l))"
  unfolding write_one_def
proof (rule bcache.read_two [OF c])
  fix a b :: nat and s' :: bio
  let ?H = "[a \<mapsto> log_blk l i, b \<mapsto> lh_block l i]" and ?v = "blk (ldev l) s (lh_block l i)" and ?d = "ldev l"
  assume o: "a \<noteq> b" "cst ?d B ?H s'" "blk ?d s' = blk ?d s" "disk s' = disk s" "writes s' = writes s"
  have "data (bufs s' b) = ?v" using cst_data [OF o(2), of b "lh_block l i"] o by simp
  then have w: "okR (bwrite a (set_data a (data (bufs s' b)) s')) (\<lambda>s''. cst ?d B ?H s'' \<and> put_block (log_blk l i) ?v s s'' ?d)"
    using bcache.rewrite_held [OF o(2), of a "log_blk l i" ?v] o by (simp add: put_block_def)
  have "okR (bindR (brelse b x) (brelse a)) (\<lambda>s''. cst ?d B Map.empty s'' \<and> put_block (log_blk l i) ?v s s'' ?d)"
    if x: "cst ?d B ?H x \<and> put_block (log_blk l i) ?v s x ?d" for x
  proof (rule okR_bindI [OF cst_brelse [of ?d B ?H x b "lh_block l i"]])
    fix y
    assume y: "cst ?d B (?H(b := None)) y \<and> blk ?d y = blk ?d x \<and> disk y = disk x \<and> writes y = writes x \<and>
      curpid y = curpid x \<and> woken y = woken x @ [Chan_buf_lock b]"
    show "okR (brelse a y) (\<lambda>s''. cst ?d B Map.empty s'' \<and> put_block (log_blk l i) ?v s s'' ?d)"
      by (rule okR_mono [OF cst_brelse [of ?d B "?H(b := None)" y a "log_blk l i"]])
        (use x y o(1) in \<open>auto simp: put_block_def\<close>)
  qed (use x r o(1) in auto)
  then show "okR (bindR (bwrite a (set_data a (data (bufs s' b)) s')) (\<lambda>x. bindR (brelse b x) (brelse a)))
      (\<lambda>s''. cst ?d B Map.empty s'' \<and> put_block (log_blk l i) ?v s s'' ?d)"
    by (rule okR_bindI [OF w])
qed (use r in auto)

lemma install_one_spec:
  assumes c: "cst (ldev l) B Map.empty s" and ne: "log_blk l i \<noteq> lh_block l i"
    and r: "if rec then B = {} else card B < NBUF \<and> lh_block l i \<in> B \<and> log_blk l i \<notin> B"
  shows "okR (install_one rec l i s) (\<lambda>s'. cst (ldev l) (B - {lh_block l i}) Map.empty s' \<and>
    put_block (lh_block l i) (blk (ldev l) s (log_blk l i)) s s' (ldev l))"
  unfolding install_one_def
proof (rule bcache.read_two [OF c])
  fix a b :: nat and s' :: bio
  let ?H = "[a \<mapsto> log_blk l i, b \<mapsto> lh_block l i]" and ?v = "blk (ldev l) s (log_blk l i)" and ?d = "ldev l"
    and ?B = "B - {lh_block l i}"
  assume o: "a \<noteq> b" "cst ?d B ?H s'" "blk ?d s' = blk ?d s" "disk s' = disk s" "writes s' = writes s"
  have "data (bufs s' a) = ?v" using cst_data [OF o(2), of a "log_blk l i"] o by simp
  then have w: "okR (bwrite b (set_data b (data (bufs s' a)) s')) (\<lambda>s''. cst ?d B ?H s'' \<and> put_block (lh_block l i) ?v s s'' ?d)"
    using bcache.rewrite_held [OF o(2), of b "lh_block l i" ?v] o by (simp add: put_block_def)
  have "?v = disk s (log_blk l i)" using cst_clean [OF c, of "log_blk l i"] r by (auto split: if_splits)
  have "okR (bindR (brelse a (if rec then x else bunpin b x)) (brelse b))
      (\<lambda>s''. cst ?d ?B Map.empty s'' \<and> put_block (lh_block l i) ?v s s'' ?d)"
    if x: "cst ?d B ?H x \<and> put_block (lh_block l i) ?v s x ?d" for x
  proof -
    define z where "z = (if rec then x else bunpin b x)"
    have z: "cst ?d ?B ?H z \<and> put_block (lh_block l i) ?v s z ?d"
      using x r o(1) cst_bunpin [of ?d B ?H x b "lh_block l i"] by (auto simp: z_def put_block_def split: if_splits)
    have "okR (bindR (brelse a z) (brelse b)) (\<lambda>s''. cst ?d ?B Map.empty s'' \<and> put_block (lh_block l i) ?v s s'' ?d)"
    proof (rule okR_bindI [OF cst_brelse [of ?d ?B ?H z a "log_blk l i"]])
      fix y
      assume y: "cst ?d ?B (?H(a := None)) y \<and> blk ?d y = blk ?d z \<and> disk y = disk z \<and> writes y = writes z \<and>
        curpid y = curpid z \<and> woken y = woken z @ [Chan_buf_lock a]"
      have e: "?H(a := None, b := None) = Map.empty" by (simp add: fun_eq_iff)
      show "okR (brelse b y) (\<lambda>s''. cst ?d ?B Map.empty s'' \<and> put_block (lh_block l i) ?v s s'' ?d)"
        by (rule okR_mono [OF cst_brelse [of ?d ?B "?H(a := None)" y b "lh_block l i"]])
          (use z y o(1) in \<open>auto simp: put_block_def e\<close>)
    qed (use z o(1) ne \<open>?v = disk s (log_blk l i)\<close> in \<open>auto simp: put_block_def\<close>)
    then show ?thesis by (simp add: z_def)
  qed
  then show "okR (bindR (bwrite b (set_data b (data (bufs s' a)) s'))
      (\<lambda>x. bindR (brelse a (if rec then x else bunpin b x)) (brelse b)))
      (\<lambda>s''. cst ?d ?B Map.empty s'' \<and> put_block (lh_block l i) ?v s s'' ?d)"
    by (rule okR_bindI [OF w])
qed (use r ne in \<open>auto split: if_splits\<close>)

section \<open>Sequences of block writes\<close>

fun replay :: "(u32 \<times> u8 list) list \<Rightarrow> (u32 \<Rightarrow> u8 list) \<Rightarrow> u32 \<Rightarrow> u8 list" where
  "replay [] D = D"
| "replay ((n, bs) # ws) D = replay ws (D(n := bs))"

lemma replay_append [simp]: "replay (xs @ ys) D = replay ys (replay xs D)"
  by (induction xs arbitrary: D) auto

lemma replay_other: "n \<notin> fst ` set ws \<Longrightarrow> replay ws D n = D n"
  by (induction ws arbitrary: D) auto

lemma replay_fun: "n \<in> fst ` set ws \<Longrightarrow> (\<And>m bs. (m, bs) \<in> set ws \<Longrightarrow> bs = f m) \<Longrightarrow> replay ws D n = f n"
proof (induction ws arbitrary: D)
  case (Cons w ws)
  obtain m bs where w: "w = (m, bs)" by (cases w) auto
  show ?case
  proof (cases "n \<in> fst ` set ws")
    case True
    have "replay ws (D(m := bs)) n = f n" by (rule Cons.IH [OF True]) (use Cons.prems(2) w in auto)
    then show ?thesis using w by (simp only: replay.simps)
  next
    case False
    then have "n = m" using Cons.prems(1) w by auto
    then show ?thesis using False Cons.prems(2) w by (simp add: replay_other)
  qed
qed simp

definition puts :: "(u32 \<times> u8 list) list \<Rightarrow> bio \<Rightarrow> bio \<Rightarrow> u32 \<Rightarrow> bool" where
  "puts ws s s' d \<longleftrightarrow> blk d s' = replay ws (blk d s) \<and> disk s' = replay ws (disk s) \<and> writes s' = writes s @ ws"

lemma puts_Nil [simp]: "puts [] s s d"
  by (simp add: puts_def)

lemma puts_step: "puts ws s s' d \<Longrightarrow> put_block n bs s' s'' d \<Longrightarrow> puts (ws @ [(n, bs)]) s s'' d"
  by (simp add: puts_def put_block_def)

lemma puts_trans: "puts ws s s' d \<Longrightarrow> puts vs s' s'' d \<Longrightarrow> puts (ws @ vs) s s'' d"
  by (simp add: puts_def)

definition log_writes :: "logst \<Rightarrow> (u32 \<Rightarrow> u8 list) \<Rightarrow> nat \<Rightarrow> (u32 \<times> u8 list) list" where
  "log_writes l V n = map (\<lambda>i. (log_blk l i, V (lh_block l i))) [0..<n]"

definition home_writes :: "logst \<Rightarrow> (u32 \<Rightarrow> u8 list) \<Rightarrow> nat \<Rightarrow> (u32 \<times> u8 list) list" where
  "home_writes l V n = map (\<lambda>i. (lh_block l i, V (log_blk l i))) [0..<n]"

lemma writes_Suc [simp]:
  "log_writes l V (Suc n) = log_writes l V n @ [(log_blk l n, V (lh_block l n))]"
  "home_writes l V (Suc n) = home_writes l V n @ [(lh_block l n, V (log_blk l n))]"
  by (simp_all add: log_writes_def home_writes_def)

lemma set_writes:
  "fst ` set (log_writes l V n) = log_blk l ` {..<n}" "fst ` set (home_writes l V n) = lh_block l ` {..<n}"
  by (simp_all add: log_writes_def home_writes_def image_image atLeast0LessThan)

lemma writes_0 [simp]: "log_writes l V 0 = []" "home_writes l V 0 = []"
  by (simp_all add: log_writes_def home_writes_def)

section \<open>The geometry of the log\<close>

text \<open>The log has its header block and, as \<^verbatim>\<open>mkfs\<close> makes it with \<^verbatim>\<open>nlog = LOGSIZE\<close>, room for \<open>LOGCAP\<close> blocks.\<close>

abbreviation (input) LOGCAP :: nat where
  "LOGCAP \<equiv> 29"

definition log_area :: "u32 \<Rightarrow> u32 set" where
  "log_area st = (\<lambda>i. st + of_nat i) ` {..LOGCAP}"

definition homes_ok :: "u32 \<Rightarrow> nat \<Rightarrow> (nat \<Rightarrow> u32) \<Rightarrow> bool" where
  "homes_ok st n blks \<longleftrightarrow> n \<le> LOGCAP \<and> (\<forall>i < n. blks i \<notin> log_area st)"

lemma log_blk_area: "i < LOGCAP \<Longrightarrow> st + of_nat i + 1 \<in> log_area st"
proof -
  assume i: "i < LOGCAP"
  have "st + of_nat i + 1 = st + of_nat (Suc i)" by simp
  then show ?thesis unfolding log_area_def using i by (metis Suc_leI atMost_iff image_eqI)
qed

lemma start_area [simp]: "st \<in> log_area st"
  by (auto simp: log_area_def image_iff intro!: bexI [of _ 0])

lemma area_not_start: "m \<notin> log_area st \<Longrightarrow> m \<noteq> st"
  using start_area by blast

lemma log_blk_inj: "i < LOGCAP \<Longrightarrow> j < LOGCAP \<Longrightarrow> (st :: u32) + of_nat i + 1 = st + of_nat j + 1 \<longleftrightarrow> i = j"
  by (auto simp: word_of_nat_eq_iff take_bit_eq_mod)

lemma log_blk_start: "i < LOGCAP \<Longrightarrow> (st :: u32) + of_nat i + 1 \<noteq> st"
proof -
  assume i: "i < LOGCAP"
  have "(of_nat (Suc i) :: u32) \<noteq> 0" using i by (simp only: word_of_nat_eq_0_iff) (auto dest!: dvd_imp_le)
  then show ?thesis by (simp add: add.assoc add.commute [of 1])
qed

lemma homes_ok_ne: "homes_ok st n blks \<Longrightarrow> i < n \<Longrightarrow> j < LOGCAP \<Longrightarrow> blks i \<noteq> st + of_nat j + 1 \<and> blks i \<noteq> st"
  using log_blk_area [of j st] start_area [of st] by (auto simp: homes_ok_def)

lemma homes_ok_start: "homes_ok st n blks \<Longrightarrow> st \<notin> blks ` {..<n}"
  unfolding homes_ok_def using start_area by (metis imageE lessThan_iff)

section \<open>The loops\<close>

lemma image_below: "(\<And>j. j < n \<Longrightarrow> x \<noteq> f j) \<Longrightarrow> i < (n :: nat) \<Longrightarrow> x \<notin> f ` {..<i}"
  by (metis imageE lessThan_iff order.strict_trans)

lemma write_log_spec:
  assumes c: "cst (ldev l) (lh_block l ` {..<n}) Map.empty (bc l)" and n: "lh_n l = int n" "n < NBUF"
    and h: "homes_ok (lstart l) n (lh_block l)"
  shows "okR (write_log l) (\<lambda>l'. \<exists>s. l' = l\<lparr>bc := s\<rparr> \<and> cst (ldev l) (lh_block l ` {..<n}) Map.empty s \<and>
    puts (log_writes l (blk (ldev l) (bc l)) n) (bc l) s (ldev l))"
proof -
  let ?V = "blk (ldev l) (bc l)" and ?B = "lh_block l ` {..<n}"
  have loop: "okR (forR [0..<n] (write_one l) (bc l)) (\<lambda>s. cst (ldev l) ?B Map.empty s \<and> puts (log_writes l ?V n) (bc l) s (ldev l))"
  proof (rule okR_forR_upto [where P = "\<lambda>i s. cst (ldev l) ?B Map.empty s \<and> puts (log_writes l ?V i) (bc l) s (ldev l)"])
    fix i s
    assume i: "i < n" and s: "cst (ldev l) ?B Map.empty s \<and> puts (log_writes l ?V i) (bc l) s (ldev l)"
    have "lh_block l i \<noteq> log_blk l j" if "j < n" for j
      using homes_ok_ne [OF h i, of j] that h by (simp add: homes_ok_def)
    then have "lh_block l i \<notin> log_blk l ` {..<i}" using i by (rule image_below)
    then have "blk (ldev l) s (lh_block l i) = ?V (lh_block l i)"
      using s by (simp add: puts_def replay_other set_writes)
    moreover have "card ?B < NBUF" using card_image_le [of "{..<n}" "lh_block l"] n by simp
    moreover have "log_blk l i \<noteq> lh_block l i" using homes_ok_ne [OF h i, of i] i h by (auto simp: homes_ok_def)
    ultimately show "okR (write_one l i s) (\<lambda>s. cst (ldev l) ?B Map.empty s \<and> puts (log_writes l ?V (Suc i)) (bc l) s (ldev l))"
      using i s by (intro okR_mono [OF write_one_spec [of l ?B s i]]) (auto intro: puts_step)
  qed (use c in simp)
  show ?thesis unfolding write_log_def n(1) nat_int okR_bindR by (rule okR_mono [OF loop]) auto
qed

lemma install_trans_spec:
  assumes c: "cst (ldev l) B Map.empty (bc l)" and n: "lh_n l = int n \<or> lh_n l \<le> 0 \<and> n = 0"
    and B: "if rec then B = {} else n < NBUF \<and> B = lh_block l ` {..<n} \<and> inj_on (lh_block l) {..<n}"
    and h: "homes_ok (lstart l) n (lh_block l)"
  shows "okR (install_trans rec l) (\<lambda>l'. \<exists>s. l' = l\<lparr>bc := s\<rparr> \<and> cst (ldev l) {} Map.empty s \<and>
    puts (home_writes l (blk (ldev l) (bc l)) n) (bc l) s (ldev l))"
proof -
  let ?V = "blk (ldev l) (bc l)" and ?B = "\<lambda>i. B - lh_block l ` {..<i}"
  have nat: "nat (lh_n l) = n" using n by auto
  have loop: "okR (forR [0..<n] (install_one rec l) (bc l))
      (\<lambda>s. cst (ldev l) (?B n) Map.empty s \<and> puts (home_writes l ?V n) (bc l) s (ldev l))"
  proof (rule okR_forR_upto [where P = "\<lambda>i s. cst (ldev l) (?B i) Map.empty s \<and> puts (home_writes l ?V i) (bc l) s (ldev l)"])
    fix i s
    assume i: "i < n" and s: "cst (ldev l) (?B i) Map.empty s \<and> puts (home_writes l ?V i) (bc l) s (ldev l)"
    have i': "i < LOGCAP" using h i by (simp add: homes_ok_def)
    have out: "lh_block l j \<noteq> log_blk l i" if "j < n" for j using homes_ok_ne [OF h that i'] by simp
    have "log_blk l i \<notin> lh_block l ` {..<i}" using not_sym [OF out] i by (rule image_below)
    then have v: "blk (ldev l) s (log_blk l i) = ?V (log_blk l i)"
      using s by (simp add: puts_def replay_other set_writes)
    have "\<not> rec \<Longrightarrow> card (?B i) < NBUF \<and> lh_block l i \<in> ?B i \<and> log_blk l i \<notin> ?B i"
    proof -
      assume r: "\<not> rec"
      then have "card (?B i) \<le> card {..<n}"
        using B card_mono [of B "?B i"] card_image_le [of "{..<n}" "lh_block l"] by auto
      moreover have "lh_block l i \<notin> lh_block l ` {..<i}" using B r i by (auto dest: inj_onD)
      moreover have "log_blk l i \<notin> B" using B r out by force
      ultimately show ?thesis using B r i by auto
    qed
    then have g: "if rec then ?B i = {} else card (?B i) < NBUF \<and> lh_block l i \<in> ?B i \<and> log_blk l i \<notin> ?B i"
      using B by (auto split: if_splits)
    have "?B i - {lh_block l i} = ?B (Suc i)" by (auto simp: lessThan_Suc)
    then show "okR (install_one rec l i s)
        (\<lambda>s. cst (ldev l) (?B (Suc i)) Map.empty s \<and> puts (home_writes l ?V (Suc i)) (bc l) s (ldev l))"
      using s v out [OF i] by (intro okR_mono [OF install_one_spec [of l "?B i" s i rec]])
        (use g in \<open>auto intro: puts_step\<close>)
  qed (use c in simp)
  have e: "?B n = {}" using B by (auto split: if_splits)
  show ?thesis unfolding install_trans_def nat okR_bindR by (rule okR_mono [OF loop [unfolded e]]) auto
qed

section \<open>The header block\<close>

lemma length_put_blocks [simp]:
  "4 + 4 * n \<le> length bs \<Longrightarrow> length (put_blocks n blks bs) = length bs"
  by (induction n) auto

lemma get32_put_blocks:
  "4 + 4 * n \<le> length bs \<Longrightarrow> get32 0 (put_blocks n blks bs) = get32 0 bs"
  by (induction n) (auto simp: get_put_disj)

lemma head_block_put_blocks:
  "4 + 4 * n \<le> length bs \<Longrightarrow> i < n \<Longrightarrow> head_block (put_blocks n blks bs) i = blks i"
  by (induction n) (auto simp: head_block_def get_put_disj less_Suc_eq)

lemma length_put_head [simp]: "length bs = BSIZE \<Longrightarrow> n \<le> int LOGSIZE \<Longrightarrow> length (put_head n blks bs) = BSIZE"
  by (simp add: put_head_def nat_le_iff)

lemma head_n_put_head:
  assumes "length bs = BSIZE" and "0 \<le> n" and "n \<le> int LOGSIZE"
  shows "head_n (put_head n blks bs) = n"
proof -
  have "4 + 4 * nat n \<le> length (put32 0 (word_of_int n) bs)" using assms by simp
  then show ?thesis
    using assms by (simp add: head_n_def put_head_def get32_put_blocks int_word_sint)
qed

lemma head_block_put_head:
  assumes "length bs = BSIZE" and "n \<le> int LOGSIZE" and "i < nat n"
  shows "head_block (put_head n blks bs) i = blks i"
proof -
  have "4 + 4 * nat n \<le> length (put32 0 (word_of_int n) bs)" using assms by simp
  then show ?thesis using assms(3) by (simp add: put_head_def head_block_put_blocks)
qed

lemma read_head_spec:
  assumes c: "cst (ldev l) B Map.empty (bc l)" and B: "card B < NBUF"
  shows "okR (read_head l) (\<lambda>l'. \<exists>s. let d = blk (ldev l) (bc l) (lstart l) in
    l' = l\<lparr>lh_n := head_n d, lh_block := (\<lambda>i. if i < nat (head_n d) then head_block d i else lh_block l i), bc := s\<rparr> \<and>
    cst (ldev l) B Map.empty s \<and> puts [] (bc l) s (ldev l))"
  using bcache.inspect_block [OF c, where n = "lstart l" and k = "\<lambda>d s. l\<lparr>lh_n := head_n d,
      lh_block := (\<lambda>i. if i < nat (head_n d) then head_block d i else lh_block l i), bc := s\<rparr>"] B
  by (simp only: read_head_def Let_def puts_def replay.simps append_Nil2) (auto elim!: okR_mono simp del: okR_bindR)

lemma write_head_spec:
  assumes c: "cst (ldev l) B Map.empty (bc l)" and B: "card B < NBUF"
  shows "okR (write_head l) (\<lambda>l'. \<exists>s. l' = l\<lparr>bc := s\<rparr> \<and> cst (ldev l) B Map.empty s \<and>
    puts [(lstart l, put_head (lh_n l) (lh_block l) (blk (ldev l) (bc l) (lstart l)))] (bc l) s (ldev l))"
proof -
  have eq: "write_head l = bindR (bindR (bread (ldev l) (lstart l) (bc l)) (\<lambda>(b, s).
      bindR (bwrite b (set_data b (put_head (lh_n l) (lh_block l) (data (bufs s b))) s)) (brelse b)))
      (\<lambda>s. Ok (l\<lparr>bc := s\<rparr>))"
    unfolding write_head_def by (simp add: case_prod_beta')
  show ?thesis unfolding eq
    by (rule okR_bindI [OF bcache.update_block [OF c]]) (use B in \<open>auto simp: puts_def\<close>)
qed

section \<open>Committing a transaction\<close>

text \<open>
  The invariant of the log: the blocks of the transaction are pairwise different, lie outside the log, and
  are exactly the blocks pinned in the cache; the header on disk is that of an empty log.  At most
  \<open>NBUF - 1\<close> blocks can be in a transaction, because writing a block of the log needs a buffer of its own.
\<close>

definition linv :: "(nat \<rightharpoonup> u32) \<Rightarrow> logst \<Rightarrow> bool" where
  "linv H l \<longleftrightarrow> 0 \<le> lh_n l \<and> lh_n l < int NBUF \<and> inj_on (lh_block l) {..<nat (lh_n l)} \<and>
     homes_ok (lstart l) (nat (lh_n l)) (lh_block l) \<and>
     cst (ldev l) (lh_block l ` {..<nat (lh_n l)}) H (bc l) \<and> lstart l \<notin> ran H \<and>
     head_n (disk (bc l) (lstart l)) = 0 \<and> length (disk (bc l) (lstart l)) = BSIZE"

definition home_puts :: "logst \<Rightarrow> (u32 \<Rightarrow> u8 list) \<Rightarrow> nat \<Rightarrow> (u32 \<times> u8 list) list" where
  "home_puts l V n = map (\<lambda>i. (lh_block l i, V (lh_block l i))) [0..<n]"

lemma set_home_puts: "fst ` set (home_puts l V n) = lh_block l ` {..<n}"
  by (simp add: home_puts_def image_image atLeast0LessThan)

definition commit_writes :: "logst \<Rightarrow> (u32 \<times> u8 list) list" where
  "commit_writes l =
     (let V = blk (ldev l) (bc l); n = nat (lh_n l); h = put_head (lh_n l) (lh_block l) (V (lstart l)) in
      log_writes l V n @ [(lstart l, h)] @ home_puts l V n @ [(lstart l, put_head 0 (lh_block l) h)])"

lemma replay_log_writes: "n \<le> LOGCAP \<Longrightarrow> i < n \<Longrightarrow> replay (log_writes l V n) D (log_blk l i) = V (lh_block l i)"
proof (induction n)
  case (Suc n)
  show ?case
  proof (cases "i = n")
    case False
    then have "log_blk l i \<noteq> log_blk l n" using Suc.prems log_blk_inj [of i n "lstart l"] by simp
    then show ?thesis using Suc False by simp
  qed simp
qed simp

lemma log_area_upto: "n \<le> LOGCAP \<Longrightarrow> log_blk l ` {..<n} \<subseteq> log_area (lstart l)"
  using log_blk_area [of _ "lstart l"] by auto

lemma start_not_log: "n \<le> LOGCAP \<Longrightarrow> lstart l \<notin> log_blk l ` {..<n}"
proof
  assume n: "n \<le> LOGCAP" and "lstart l \<in> log_blk l ` {..<n}"
  then obtain i where i: "i < n" "lstart l = log_blk l i" by blast
  then show False using n log_blk_start [of i "lstart l"] by auto
qed

lemma commit_spec:
  assumes inv: "linv Map.empty l" and pos: "0 < lh_n l"
  shows "okR (commit l) (\<lambda>l'. \<exists>s. l' = l\<lparr>lh_n := 0, bc := s\<rparr> \<and> cst (ldev l) {} Map.empty s \<and>
    puts (commit_writes l) (bc l) s (ldev l))"
proof -
  define n where "n = nat (lh_n l)"
  let ?d = "ldev l" and ?B = "lh_block l ` {..<n}"
  let ?V = "blk ?d (bc l)"
  let ?h = "put_head (lh_n l) (lh_block l) (?V (lstart l))"
  have l: "lh_n l = int n" "n < NBUF" "n \<le> LOGCAP" "inj_on (lh_block l) {..<n}" "homes_ok (lstart l) n (lh_block l)"
      "cst ?d ?B Map.empty (bc l)"
    using inv by (auto simp: linv_def n_def)
  have card: "card ?B < NBUF" using card_image_le [of "{..<n}" "lh_block l"] l by simp
  have r1: "okR (write_head (l\<lparr>bc := s\<rparr>)) (\<lambda>l'. \<exists>s'. l' = l\<lparr>bc := s'\<rparr> \<and> cst ?d ?B Map.empty s' \<and>
      puts (log_writes l ?V n @ [(lstart l, ?h)]) (bc l) s' ?d)"
    if s: "cst ?d ?B Map.empty s" "puts (log_writes l ?V n) (bc l) s ?d" for s
  proof -
    have e: "blk ?d s (lstart l) = ?V (lstart l)"
      using s start_not_log [OF l(3), of l] by (simp add: puts_def replay_other set_writes)
    have "okR (write_head (l\<lparr>bc := s\<rparr>)) (\<lambda>l'. \<exists>s'. l' = l\<lparr>bc := s'\<rparr> \<and> cst ?d ?B Map.empty s' \<and>
        puts [(lstart l, ?h)] s s' ?d)"
      using write_head_spec [of "l\<lparr>bc := s\<rparr>" ?B] s(1) card e by simp
    then show ?thesis by (rule okR_mono) (use s(2) puts_trans in blast)
  qed
  have r2: "okR (install_trans False (l\<lparr>bc := s\<rparr>)) (\<lambda>l'. \<exists>s'. l' = l\<lparr>bc := s'\<rparr> \<and> cst ?d {} Map.empty s' \<and>
      puts (log_writes l ?V n @ [(lstart l, ?h)] @ home_puts l ?V n) (bc l) s' ?d)"
    if s: "cst ?d ?B Map.empty s" "puts (log_writes l ?V n @ [(lstart l, ?h)]) (bc l) s ?d" for s
  proof -
    have e: "home_writes (l\<lparr>bc := s\<rparr>) (blk ?d s) n = home_puts l ?V n"
      using s(2) l(3) start_not_log [OF l(3), of l]
      by (auto simp: home_writes_def home_puts_def puts_def replay_log_writes image_iff)
    have q: "okR (install_trans False (l\<lparr>bc := s\<rparr>)) (\<lambda>l'. \<exists>s'. l' = l\<lparr>bc := s'\<rparr> \<and> cst ?d {} Map.empty s' \<and>
        puts (home_puts l ?V n) s s' ?d)"
      by (rule okR_mono [OF install_trans_spec [where B = ?B and n = n]]) (use s(1) l(1-5) e in simp_all)
    have t: "puts (log_writes l ?V n @ [(lstart l, ?h)] @ home_puts l ?V n) (bc l) s' ?d"
      if "puts (home_puts l ?V n) s s' ?d" for s'
      using puts_trans [OF s(2) that] by simp
    show ?thesis by (rule okR_mono [OF q]) (use t in blast)
  qed
  have r3: "okR (write_head (l\<lparr>bc := s, lh_n := 0\<rparr>)) (\<lambda>l'. \<exists>s'. l' = l\<lparr>lh_n := 0, bc := s'\<rparr> \<and> cst ?d {} Map.empty s' \<and>
      puts (commit_writes l) (bc l) s' ?d)"
    if s: "cst ?d {} Map.empty s" "puts (log_writes l ?V n @ [(lstart l, ?h)] @ home_puts l ?V n) (bc l) s ?d" for s
  proof -
    have "lstart l \<notin> lh_block l ` {..<n}" by (rule homes_ok_start [OF l(5)])
    then have e: "blk ?d s (lstart l) = ?h" using s(2) by (simp add: puts_def replay_other set_home_puts)
    have q: "okR (write_head (l\<lparr>bc := s, lh_n := 0\<rparr>)) (\<lambda>l'. \<exists>s'. l' = l\<lparr>lh_n := 0, bc := s'\<rparr> \<and> cst ?d {} Map.empty s' \<and>
        puts [(lstart l, put_head 0 (lh_block l) ?h)] s s' ?d)"
      using write_head_spec [of "l\<lparr>bc := s, lh_n := 0\<rparr>" "{}"] s(1) e by simp
    have t: "puts (commit_writes l) (bc l) s' ?d" if "puts [(lstart l, put_head 0 (lh_block l) ?h)] s s' ?d" for s'
      using puts_trans [OF s(2) that] by (simp add: commit_writes_def Let_def n_def)
    show ?thesis by (rule okR_mono [OF q]) (use t in blast)
  qed
  have "okR (bindR (write_log l) (\<lambda>l. bindR (write_head l) (\<lambda>l. bindR (install_trans False l) (\<lambda>l. write_head (l\<lparr>lh_n := 0\<rparr>)))))
    (\<lambda>l'. \<exists>s. l' = l\<lparr>lh_n := 0, bc := s\<rparr> \<and> cst ?d {} Map.empty s \<and> puts (commit_writes l) (bc l) s ?d)"
    apply (rule okR_bindI [OF write_log_spec [OF l(6,1,2,5)]], elim exE conjE, hypsubst)
    apply (rule okR_bindI [OF r1], assumption+, elim exE conjE, hypsubst)
    apply (rule okR_bindI [OF r2], assumption+, elim exE conjE, hypsubst)
    apply (simp add: r3)
    done
  then show ?thesis using pos by (simp add: commit_def)
qed

lemma log_not_home:
  "homes_ok (lstart l) n (lh_block l) \<Longrightarrow> i < LOGCAP \<Longrightarrow> log_blk l i \<notin> lh_block l ` {..<n}"
  using log_blk_area [of i "lstart l"] unfolding homes_ok_def by (metis imageE lessThan_iff)

text \<open>After a commit every block has on disk, and in the cache, what the kernel saw before it.\<close>

lemma commit_view:
  assumes inv: "linv Map.empty l" and m: "m \<notin> log_area (lstart l)"
  shows "replay (commit_writes l) (disk (bc l)) m = blk (ldev l) (bc l) m"
proof -
  define n where "n = nat (lh_n l)"
  let ?V = "blk (ldev l) (bc l)"
  have l: "n \<le> LOGCAP" "cst (ldev l) (lh_block l ` {..<n}) Map.empty (bc l)" using inv by (auto simp: linv_def n_def)
  have ne: "m \<noteq> lstart l" "m \<notin> fst ` set (log_writes l ?V n)"
    using m log_area_upto [OF l(1), of l] by (auto simp: set_writes)
  have "replay (home_puts l ?V n) D m = ?V m" if "D m = disk (bc l) m" for D
  proof (cases "m \<in> fst ` set (home_puts l ?V n)")
    case True
    then show ?thesis by (rule replay_fun) (auto simp: home_puts_def)
  next
    case False
    then show ?thesis
      using that cst_clean [OF l(2), of m] by (simp add: replay_other set_home_puts)
  qed
  then show ?thesis using ne by (simp add: commit_writes_def Let_def replay_other flip: n_def)
qed

section \<open>Recovery\<close>

text \<open>What recovery makes of the disk \<open>D\<close> when the log starts at block \<open>st\<close>.\<close>

definition recover_writes :: "u32 \<Rightarrow> (u32 \<Rightarrow> u8 list) \<Rightarrow> (u32 \<times> u8 list) list" where
  "recover_writes st D =
     map (\<lambda>i. (head_block (D st) i, D (st + of_nat i + 1))) [0..<nat (head_n (D st))] @ [(st, put_head 0 (\<lambda>_. 0) (D st))]"

definition recovered :: "u32 \<Rightarrow> (u32 \<Rightarrow> u8 list) \<Rightarrow> u32 \<Rightarrow> u8 list" where
  "recovered st D = replay (recover_writes st D) D"

definition header_ok :: "u32 \<Rightarrow> (u32 \<Rightarrow> u8 list) \<Rightarrow> bool" where
  "header_ok st D \<longleftrightarrow> length (D st) = BSIZE \<and> homes_ok st (nat (head_n (D st))) (head_block (D st))"

lemma put_head_0: "put_head 0 blks bs = put_head 0 (\<lambda>_. 0) bs"
  by (simp add: put_head_def)

lemma recover_from_log_spec:
  assumes c: "cst (ldev l) {} Map.empty (bc l)" and h: "header_ok (lstart l) (disk (bc l))"
  shows "okR (recover_from_log l) (\<lambda>l'. cst (ldev l) {} Map.empty (bc l') \<and> lh_n l' = 0 \<and>
    lstart l' = lstart l \<and> ldev l' = ldev l \<and> lsize l' = lsize l \<and> outstanding l' = outstanding l \<and> committing l' = committing l \<and>
    disk (bc l') = recovered (lstart l) (disk (bc l)) \<and> blk (ldev l) (bc l') = disk (bc l') \<and>
    writes (bc l') = writes (bc l) @ recover_writes (lstart l) (disk (bc l)))"
proof -
  let ?d = "ldev l" and ?D = "disk (bc l)" and ?st = "lstart l"
  define n where "n = nat (head_n (?D ?st))"
  have V: "blk ?d (bc l) = ?D" using cst_clean [OF c] by (simp add: fun_eq_iff)
  define l1 where "l1 = (\<lambda>s. l\<lparr>lh_n := head_n (?D ?st),
    lh_block := (\<lambda>i. if i < n then head_block (?D ?st) i else lh_block l i), bc := s\<rparr>)"
  have l1 [simp]: "ldev (l1 s) = ldev l" "lstart (l1 s) = lstart l" "bc (l1 s) = s" "lh_n (l1 s) = head_n (?D ?st)"
      "i < n \<Longrightarrow> lh_block (l1 s) i = head_block (?D ?st) i" "lsize (l1 s) = lsize l" "outstanding (l1 s) = outstanding l"
      "committing (l1 s) = committing l" for s i
    by (simp_all add: l1_def)
  have "homes_ok ?st n (lh_block (l1 s))" for s using h by (simp add: header_ok_def homes_ok_def flip: n_def)
  have r1: "okR (read_head l) (\<lambda>l'. \<exists>s. l' = l1 s \<and> cst ?d {} Map.empty s \<and> puts [] (bc l) s ?d)"
    using read_head_spec [OF c] by (simp add: V Let_def l1_def flip: n_def)
  let ?W = "map (\<lambda>i. (head_block (?D ?st) i, ?D (?st + of_nat i + 1))) [0..<n]"
  have r2: "okR (install_trans True (l1 s)) (\<lambda>l'. \<exists>s'. l' = l1 s' \<and> cst ?d {} Map.empty s' \<and> puts ?W (bc l) s' ?d)"
    if s: "cst ?d {} Map.empty s" "puts [] (bc l) s ?d" for s
  proof -
    have e: "home_writes (l1 s) (blk ?d s) n = ?W" using s(2) V by (auto simp: home_writes_def puts_def)
    have u: "(l1 s)\<lparr>bc := s'\<rparr> = l1 s'" for s' by (simp add: l1_def)
    have t: "puts ?W (bc l) s' ?d" if "puts ?W s s' ?d" for s' using puts_trans [OF s(2) that] by simp
    have "lh_n (l1 s) = int n \<or> lh_n (l1 s) \<le> 0 \<and> n = 0" by (simp add: n_def)
    then show ?thesis
      by (intro okR_mono [OF install_trans_spec [where B = "{}" and n = n]])
        (use s(1) e u t \<open>homes_ok ?st n (lh_block (l1 s))\<close> in auto)
  qed
  have "?st \<notin> fst ` set ?W" using h by (auto simp: header_ok_def homes_ok_def n_def)
  then have e: "blk ?d s ?st = ?D ?st" if "puts ?W (bc l) s ?d" for s
    using that V by (simp add: puts_def replay_other del: set_map)
  have r3: "okR (write_head ((l1 s)\<lparr>lh_n := 0\<rparr>)) (\<lambda>l'. \<exists>s'. l' = (l1 s')\<lparr>lh_n := 0\<rparr> \<and> cst ?d {} Map.empty s' \<and>
      puts (recover_writes ?st ?D) (bc l) s' ?d)"
    if s: "cst ?d {} Map.empty s" "puts ?W (bc l) s ?d" for s
  proof -
    have u: "(l1 s)\<lparr>lh_n := 0, bc := s'\<rparr> = (l1 s')\<lparr>lh_n := 0\<rparr>" for s' by (simp add: l1_def)
    have t: "puts (recover_writes ?st ?D) (bc l) s' ?d" if "puts [(?st, put_head 0 (\<lambda>_. 0) (?D ?st))] s s' ?d" for s'
      using puts_trans [OF s(2) that] by (simp add: recover_writes_def n_def)
    show ?thesis
      by (rule okR_mono [OF write_head_spec [where B = "{}"]])
        (use s(1) e [OF s(2)] put_head_0 [of "lh_block (l1 s)"] u t in auto)
  qed
  have "okR (recover_from_log l) (\<lambda>l'. \<exists>s'. l' = (l1 s')\<lparr>lh_n := 0\<rparr> \<and> cst ?d {} Map.empty s' \<and>
      puts (recover_writes ?st ?D) (bc l) s' ?d)"
    unfolding recover_from_log_def
    apply (rule okR_bindI [OF r1], elim exE conjE, hypsubst)
    apply (rule okR_bindI [OF r2], assumption+, elim exE conjE, hypsubst)
    apply (simp add: r3)
    done
  then show ?thesis by (rule okR_mono) (auto simp: puts_def recovered_def V)
qed

section \<open>Crashes\<close>

lemma prefix_append_cases:
  assumes "A @ B = ws @ rest"
  obtains u where "A = ws @ u" | v where "ws = A @ v" "B = v @ rest"
  using assms append_eq_append_conv2 [of A B ws rest] by blast

lemma prefix_cases4:
  assumes "A @ [h] @ C @ [z] = ws @ rest"
  shows "(\<exists>u. A = ws @ u) \<or> (\<exists>ws' u. ws = A @ [h] @ ws' \<and> C = ws' @ u) \<or> ws = A @ [h] @ C @ [z]"
  using assms
proof (rule prefix_append_cases)
  fix v
  assume v: "ws = A @ v" "[h] @ C @ [z] = v @ rest"
  show ?thesis
  proof (cases v)
    case (Cons x v')
    then have x: "x = h" "C @ [z] = v' @ rest" using v by auto
    show ?thesis
      using x(2)
    proof (rule prefix_append_cases)
      fix w
      assume "v' = C @ w" "[z] = w @ rest"
      then show ?thesis using v x Cons by (cases w) auto
    qed (use v x Cons in auto)
  qed (use v in simp)
qed blast

lemma recovered_empty:
  "head_n (D st) \<le> 0 \<Longrightarrow> m \<noteq> st \<Longrightarrow> recovered st D m = D m"
  by (simp add: recovered_def recover_writes_def)

text \<open>The writes to home locations that recovery makes after the header of the transaction is on disk.\<close>

lemma recovered_committed:
  assumes inv: "linv Map.empty l" and D: "D (lstart l) = put_head (lh_n l) (lh_block l) (blk (ldev l) (bc l) (lstart l))"
      "\<And>i. i < nat (lh_n l) \<Longrightarrow> D (log_blk l i) = blk (ldev l) (bc l) (lh_block l i)"
      "\<And>m. m \<notin> log_area (lstart l) \<Longrightarrow> m \<notin> lh_block l ` {..<nat (lh_n l)} \<Longrightarrow> D m = blk (ldev l) (bc l) m"
  shows "header_ok (lstart l) D"
    and "m \<notin> log_area (lstart l) \<Longrightarrow> recovered (lstart l) D m = blk (ldev l) (bc l) m"
proof -
  let ?V = "blk (ldev l) (bc l)" and ?st = "lstart l"
  define n where "n = nat (lh_n l)"
  have l: "n \<le> LOGCAP" "0 \<le> lh_n l" "lh_n l \<le> int LOGCAP" "cst (ldev l) (lh_block l ` {..<n}) Map.empty (bc l)"
      "homes_ok ?st n (lh_block l)" "length (disk (bc l) ?st) = BSIZE"
    using inv by (auto simp: linv_def n_def)
  have "length (?V ?st) = BSIZE" using l(6) cst_clean [OF l(4)] homes_ok_start [OF l(5)] by simp
  then have h: "length (D ?st) = BSIZE" "head_n (D ?st) = lh_n l" "\<And>i. i < n \<Longrightarrow> head_block (D ?st) i = lh_block l i"
    using l(2,3) D(1) by (auto simp: head_n_put_head head_block_put_head n_def)
  then show "header_ok ?st D" using l(5) by (simp add: header_ok_def homes_ok_def flip: n_def)
  assume m: "m \<notin> log_area ?st"
  then have ne: "m \<noteq> ?st" by auto
  have w: "recover_writes ?st D = map (\<lambda>i. (lh_block l i, ?V (lh_block l i))) [0..<n] @ [(?st, put_head 0 (\<lambda>_. 0) (D ?st))]"
    using h D(2) by (simp add: recover_writes_def flip: n_def)
  show "recovered ?st D m = ?V m"
  proof (cases "m \<in> lh_block l ` {..<n}")
    case True
    then have "m \<in> fst ` set (home_puts l ?V n)" by (simp add: set_home_puts)
    then have "replay (home_puts l ?V n) D m = ?V m" by (rule replay_fun) (auto simp: home_puts_def)
    then show ?thesis using w ne by (simp add: recovered_def home_puts_def)
  next
    case False
    then show ?thesis using w ne D(3) [OF m]
      by (simp add: recovered_def replay_other set_home_puts flip: home_puts_def n_def)
  qed
qed

lemma crash_cases:
  assumes inv: "linv Map.empty l" and ws: "commit_writes l = ws @ rest"
  shows "header_ok (lstart l) (replay ws (disk (bc l))) \<and>
    ((\<forall>m. m \<notin> log_area (lstart l) \<longrightarrow> recovered (lstart l) (replay ws (disk (bc l))) m = disk (bc l) m) \<or>
     (\<forall>m. m \<notin> log_area (lstart l) \<longrightarrow> recovered (lstart l) (replay ws (disk (bc l))) m = blk (ldev l) (bc l) m))"
proof -
  let ?V = "blk (ldev l) (bc l)" and ?st = "lstart l" and ?D = "disk (bc l)"
  define n where "n = nat (lh_n l)"
  let ?A = "log_writes l ?V n" and ?C = "home_puts l ?V n"
  let ?h = "put_head (lh_n l) (lh_block l) (?V ?st)"
  let ?z = "(?st, put_head 0 (lh_block l) ?h)"
  have l: "n \<le> LOGCAP" "0 \<le> lh_n l" "lh_n l \<le> int LOGCAP" "cst (ldev l) (lh_block l ` {..<n}) Map.empty (bc l)"
      "homes_ok ?st n (lh_block l)" "length (?D ?st) = BSIZE" "head_n (?D ?st) = 0"
    using inv by (auto simp: linv_def n_def)
  have lenV: "length (?V ?st) = BSIZE" using l(6) cst_clean [OF l(4)] homes_ok_start [OF l(5)] by simp
  have "?A @ [(?st, ?h)] @ ?C @ [?z] = ws @ rest" using ws by (simp add: commit_writes_def Let_def n_def)
  note cut = prefix_cases4 [OF this]
  consider (before) u where "?A = ws @ u" | (mid) ws' u where "ws = ?A @ [(?st, ?h)] @ ws'" "?C = ws' @ u"
    | (after) "ws = ?A @ [(?st, ?h)] @ ?C @ [?z]"
    using cut by (elim disjE exE conjE) auto
  then show ?thesis
  proof cases
    case before
    then have sub: "fst ` set ws \<subseteq> log_blk l ` {..<n}" using set_writes(1) [of l ?V n] by auto
    have st: "replay ws ?D ?st = ?D ?st" using sub start_not_log [OF l(1), of l] by (intro replay_other) blast
    have "recovered ?st (replay ws ?D) m = ?D m" if "m \<notin> log_area ?st" for m
    proof -
      have "m \<noteq> ?st" "m \<notin> fst ` set ws" using that sub log_area_upto [OF l(1), of l] by auto
      then show ?thesis using st l(7) by (simp add: recovered_empty replay_other)
    qed
    then show ?thesis using st l(6,7) by (simp add: header_ok_def homes_ok_def)
  next
    case mid
    then have sub: "fst ` set ws' \<subseteq> lh_block l ` {..<n}" using set_home_puts [of l ?V n] by auto
    have "?st \<notin> fst ` set ws'" using sub homes_ok_start [OF l(5)] by blast
    then have a: "replay ws ?D ?st = ?h" using mid(1) by (simp add: replay_other)
    have b: "replay ws ?D (log_blk l i) = ?V (lh_block l i)" if i: "i < n" for i
    proof -
      have "log_blk l i \<notin> fst ` set ws'" using sub log_not_home [OF l(5), of i] i l(1) by auto
      moreover have "log_blk l i \<noteq> ?st" using log_blk_start [of i ?st] i l(1) by simp
      ultimately show ?thesis using mid(1) i l(1) by (simp add: replay_other replay_log_writes)
    qed
    have c: "replay ws ?D m = ?V m" if m: "m \<notin> log_area ?st" "m \<notin> lh_block l ` {..<n}" for m
    proof -
      have "m \<notin> fst ` set ws'" "m \<notin> fst ` set ?A" "m \<noteq> ?st"
        using m sub log_area_upto [OF l(1), of l] by (auto simp: set_writes)
      then have "replay ws ?D m = ?D m" using mid(1) by (simp add: replay_other)
      then show ?thesis using cst_clean [OF l(4) m(2)] by simp
    qed
    note b' = b [unfolded n_def] and c' = c [unfolded n_def]
    have "header_ok ?st (replay ws ?D)" by (rule recovered_committed(1) [OF inv, where D = "replay ws ?D"]) (use a b' c' in auto)
    moreover have "recovered ?st (replay ws ?D) m = ?V m" if "m \<notin> log_area ?st" for m
      by (rule recovered_committed(2) [OF inv, where D = "replay ws ?D"]) (use a b' c' that in auto)
    ultimately show ?thesis by simp
  next
    case after
    have full: "ws = commit_writes l" using after by (simp add: commit_writes_def Let_def n_def)
    have st: "replay ws ?D ?st = put_head 0 (lh_block l) ?h" using after by simp
    then have hd: "head_n (replay ws ?D ?st) = 0" "length (replay ws ?D ?st) = BSIZE"
      using lenV l(3) by (simp_all add: head_n_put_head)
    have "recovered ?st (replay ws ?D) m = ?V m" if "m \<notin> log_area ?st" for m
      using commit_view [OF inv that] hd(1) that full recovered_empty [OF _ area_not_start [OF that], of "replay ws ?D"] by simp
    then show ?thesis using hd by (simp add: header_ok_def homes_ok_def)
  qed
qed

lemma initlog_spec:
  assumes z: "zeroed s" and d: "dv \<noteq> 0" and h: "header_ok st (disk s)"
  shows "okR (initlog dv st nlog (l\<lparr>bc := binit s\<rparr>)) (\<lambda>l'. cst dv {} Map.empty (bc l') \<and> lh_n l' = 0 \<and> lstart l' = st \<and>
    ldev l' = dv \<and> lsize l' = sint nlog \<and> outstanding l' = outstanding l \<and> committing l' = committing l \<and>
    disk (bc l') = recovered st (disk s) \<and> blk dv (bc l') = disk (bc l') \<and>
    writes (bc l') = writes s @ recover_writes st (disk s))"
proof -
  note b = binit_spec [OF z d]
  let ?l = "l\<lparr>bc := binit s, lstart := st, lsize := sint nlog, ldev := dv\<rparr>"
  have "cst dv {} Map.empty (binit s)" using b by (auto simp: cst_def)
  then have "okR (recover_from_log ?l) (\<lambda>l'. cst dv {} Map.empty (bc l') \<and> lh_n l' = 0 \<and> lstart l' = st \<and>
    ldev l' = dv \<and> lsize l' = sint nlog \<and> outstanding l' = outstanding l \<and> committing l' = committing l \<and>
    disk (bc l') = recovered st (disk s) \<and> blk dv (bc l') = disk (bc l') \<and>
    writes (bc l') = writes s @ recover_writes st (disk s))"
    using recover_from_log_spec [of ?l] b h by simp
  then show ?thesis by (simp add: initlog_def)
qed

lemma prefix_snoc_cases:
  assumes "A @ [z] = ws @ rest"
  obtains u where "A = ws @ u" | "ws = A @ [z]"
  using assms by (cases rest rule: rev_cases) auto

lemma replay_indep: "m \<in> fst ` set ws \<Longrightarrow> replay ws D m = replay ws D' m"
proof (induction ws arbitrary: D D')
  case (Cons w ws)
  obtain n bs where w: "w = (n, bs)" by (cases w) auto
  show ?case
  proof (cases "m \<in> fst ` set ws")
    case True
    then show ?thesis unfolding w replay.simps by (rule Cons.IH)
  next
    case False
    then show ?thesis using Cons.prems w by (simp add: replay_other)
  qed
qed simp

text \<open>A crash in the middle of recovery loses nothing: the next recovery gives the same blocks.\<close>

lemma recovered_again:
  assumes h: "header_ok st D" and ws: "recover_writes st D = ws @ rest"
  shows "header_ok st (replay ws D) \<and> (\<forall>m. m \<notin> log_area st \<longrightarrow> recovered st (replay ws D) m = recovered st D m)"
proof -
  define n where "n = nat (head_n (D st))"
  let ?W = "map (\<lambda>i. (head_block (D st) i, D (st + of_nat i + 1))) [0..<n]"
  let ?z = "(st, put_head 0 (\<lambda>_. 0) (D st))"
  have hm: "homes_ok st n (head_block (D st))" "n \<le> LOGCAP" "length (D st) = BSIZE"
    using h by (auto simp: header_ok_def homes_ok_def n_def)
  have W: "recover_writes st D = ?W @ [?z]" by (simp add: recover_writes_def n_def)
  have homes: "fst ` set ?W = head_block (D st) ` {..<n}" by (simp add: image_image atLeast0LessThan)
  have "?W @ [?z] = ws @ rest" using ws W by simp
  then consider (mid) u where "?W = ws @ u" | (all) "ws = ?W @ [?z]" by (rule prefix_snoc_cases)
  then show ?thesis
  proof cases
    case mid
    then have sub: "fst ` set ws \<subseteq> head_block (D st) ` {..<n}" using homes by auto
    have out: "replay ws D (st + of_nat i) = D (st + of_nat i)" if "i \<le> LOGCAP" for i
    proof (rule replay_other)
      have "st + of_nat i \<in> log_area st" using that by (auto simp: log_area_def)
      then show "st + of_nat i \<notin> fst ` set ws" using sub hm(1) by (auto simp: homes_ok_def)
    qed
    have st: "replay ws D st = D st" using out [of 0] by simp
    have lg: "replay ws D (st + of_nat i + 1) = D (st + of_nat i + 1)" if "i < n" for i
      using out [of "Suc i"] that hm(2) by (simp add: add.commute add.left_commute)
    have same: "recover_writes st (replay ws D) = ?W @ [?z]"
      using st lg by (simp add: recover_writes_def flip: n_def)
    have "recovered st (replay ws D) m = recovered st D m" if m: "m \<notin> log_area st" for m
    proof (cases "m \<in> fst ` set (?W @ [?z])")
      case True
      then show ?thesis unfolding recovered_def same W by (rule replay_indep)
    next
      case False
      then have "m \<notin> fst ` set ws" using mid by auto
      then show ?thesis unfolding recovered_def same W using False by (simp add: replay_other del: replay_append set_map)
    qed
    then show ?thesis using st h by (simp add: header_ok_def)
  next
    case all
    have st: "head_n (replay ws D st) = 0" "length (replay ws D st) = BSIZE" using all hm(3) by (simp_all add: head_n_put_head)
    have "recovered st (replay ws D) m = recovered st D m" if m: "m \<notin> log_area st" for m
    proof -
      have "m \<noteq> st" using m start_area by auto
      then show ?thesis using recovered_empty [of "replay ws D" st m] st(1) all W by (simp add: recovered_def [of st D])
    qed
    then show ?thesis using st by (simp add: header_ok_def homes_ok_def)
  qed
qed

section \<open>Recording a block in the transaction\<close>

lemma log_find_spec:
  assumes "0 \<le> lh_n l"
  shows "log_find l m \<le> nat (lh_n l) \<and> (log_find l m < nat (lh_n l) \<longleftrightarrow> m \<in> lh_block l ` {..<nat (lh_n l)}) \<and>
    (log_find l m < nat (lh_n l) \<longrightarrow> lh_block l (log_find l m) = m)"
proof (cases "find (\<lambda>i. lh_block l i = m) [0..<nat (lh_n l)]")
  case None
  then have "\<forall>i < nat (lh_n l). lh_block l i \<noteq> m" by (simp add: find_None_iff)
  then show ?thesis using None by (auto simp: log_find_def)
next
  case (Some i)
  then show ?thesis using find_SomeD [OF Some] by (auto simp: log_find_def)
qed

lemma log_write_spec:
  assumes inv: "linv H l" and b: "H b = Some m" and m: "m \<notin> log_area (lstart l)"
    and tr: "1 \<le> outstanding l" and sz: "lh_n l < lsize l - 1" "lsize l \<le> int NBUF"
  shows "okR (log_write b l) (\<lambda>l'. linv H l' \<and> lh_n l' = lh_n l + of_bool (m \<notin> lh_block l ` {..<nat (lh_n l)}) \<and>
    lh_block l' ` {..<nat (lh_n l')} = insert m (lh_block l ` {..<nat (lh_n l)}) \<and>
    blk (ldev l) (bc l') = blk (ldev l) (bc l) \<and> disk (bc l') = disk (bc l) \<and> writes (bc l') = writes (bc l) \<and>
    outstanding l' = outstanding l \<and> committing l' = committing l \<and> lstart l' = lstart l \<and> ldev l' = ldev l \<and> lsize l' = lsize l)"
proof -
  define n where "n = nat (lh_n l)"
  have l: "lh_n l = int n" "n < NBUF" "inj_on (lh_block l) {..<n}" "homes_ok (lstart l) n (lh_block l)"
      "cst (ldev l) (lh_block l ` {..<n}) H (bc l)"
    using inv by (auto simp: linv_def n_def)
  have bm: "blockno (bufs (bc l) b) = m" using l(5) b by (auto elim!: cstE)
  have small: "lh_n l < int LOGSIZE" "Suc n < NBUF" using l(1) sz by linarith+
  have f: "log_find l m \<le> n" "log_find l m < n \<longleftrightarrow> m \<in> lh_block l ` {..<n}"
      "log_find l m < n \<Longrightarrow> lh_block l (log_find l m) = m"
    using log_find_spec [of l m] by (auto simp: l(1))
  show ?thesis
  proof (cases "m \<in> lh_block l ` {..<n}")
    case True
    then have same: "(lh_block l)(log_find l m := m) = lh_block l" using f by (simp add: fun_upd_idem)
    have "log_find l m \<noteq> n" using True f(2) by simp
    then have "log_write b l = Ok l" using sz tr small bm same l(1) by (simp add: log_write_def Let_def)
    then show ?thesis using inv True by (auto simp: l(1))
  next
    case False
    then have i: "log_find l m = n" using f(1,2) by simp
    let ?l = "l\<lparr>lh_block := (lh_block l)(n := m), bc := bpin b (bc l), lh_n := int (Suc n)\<rparr>"
    have r: "log_write b l = Ok ?l"
      using sz tr small bm i l(1) by (simp add: log_write_def Let_def upd_bc_def)
    have img: "((lh_block l)(n := m)) ` {..<Suc n} = insert m (lh_block l ` {..<n})"
      by (auto simp: lessThan_Suc)
    have "inj_on ((lh_block l)(n := m)) {..<Suc n}"
      using l(3) False by (auto simp: inj_on_def less_Suc_eq)
    moreover have "homes_ok (lstart l) (Suc n) ((lh_block l)(n := m))"
      using l(4) m small by (auto simp: homes_ok_def less_Suc_eq)
    moreover note cst_bpin [OF l(5) b False]
    moreover have e: "nat (1 + int n) = Suc n" by simp
    ultimately have "linv H ?l" using inv small img by (simp add: linv_def)
    then show ?thesis using r False img cst_bpin [OF l(5) b False] e by (simp add: l(1))
  qed
qed

section \<open>An example state\<close>

text \<open>A transaction of one block: block 50 is in buffer 0, changed and pinned.\<close>

definition bio_dirty :: bio where
  "bio_dirty = updb 0 (\<lambda>x. x\<lparr>valid := True, dev := 1, blockno := 50, refcnt := 1, data := replicate BSIZE 9\<rparr>) (binit bio0)"

definition log1 :: logst where
  "log1 = \<lparr>lstart = 256, lsize = 30, outstanding = 0, committing = False, ldev = 1, lh_n = 1, lh_block = (\<lambda>_. 50), bc = bio_dirty\<rparr>"

lemma bio_dirty_cst: "cst 1 {50} Map.empty bio_dirty" "blk 1 bio_dirty 50 = replicate BSIZE 9"
    "disk bio_dirty = (\<lambda>n. replicate BSIZE (ucast n))" "writes bio_dirty = []"
proof -
  let ?s = "updb bhead (\<lambda>x. x\<lparr>prev := bhead, nxt := bhead\<rparr>) bio0"
  have f: "same_buf ((bufs (binit bio0) c)\<lparr>block := x\<rparr>) ((bufs ?s c)\<lparr>block := x\<rparr>)"
      "disk (binit bio0) = disk bio0" "writes (binit bio0) = []" for c x
    using binit_from_bufs [where k = NBUF and s = ?s and c = c and x = x] by (auto simp: binit_def bio0_def)
  have b: "\<not> valid (bufs (binit bio0) c)" "dev (bufs (binit bio0) c) = 0" "refcnt (bufs (binit bio0) c) = 0" for c
    using f(1) [where c = c and x = undefined] by (auto simp: same_buf_def bio0_def split: if_splits)
  have l: "\<not> slocked (block (bufs (binit bio0) c))" if "c < NBUF" for c
    using bio0_inv(2) that by (auto simp: held_def)
  have bf: "bufs bio_dirty c = (if c = 0 then (bufs (binit bio0) 0)\<lparr>valid := True, dev := 1, blockno := 50, refcnt := 1,
      data := replicate BSIZE 9\<rparr> else bufs (binit bio0) c)" for c
    by (simp add: bio_dirty_def)
  have "ring bio_dirty (rev [0..<NBUF])" by (rule ring_cong [OF bio0_ring]) (simp add: bf)
  then have "binv 1 {0} bio_dirty" unfolding binv_def using b l by (auto simp: bf)
  moreover have "held bio_dirty = {}" using l by (auto simp: held_def bf)
  ultimately show "cst 1 {50} Map.empty bio_dirty" by (auto simp: cst_def bf intro!: exI [of _ "{0}"])
  have "cached 1 bio_dirty 50 = Some 0" using cached_Some [OF \<open>binv 1 {0} bio_dirty\<close>] by (simp add: bf)
  then show "blk 1 bio_dirty 50 = replicate BSIZE 9" by (simp add: blk_def bf)
  show "disk bio_dirty = (\<lambda>n. replicate BSIZE (ucast n))" using f(2) by (simp add: bio_dirty_def bio0_def)
  show "writes bio_dirty = []" using f(3) by (simp add: bio_dirty_def)
qed

lemma log_area_256: "(50 :: u32) \<notin> log_area 256"
proof -
  have "unat (256 + of_nat i :: u32) = 256 + i" if "i \<le> LOGSIZE" for i
    using that by (simp add: unat_word_ariths unat_of_nat)
  then show ?thesis by (auto simp: log_area_def word_unat_eq_iff simp del: unat_of_nat)
qed

lemma log1_inv: "linv Map.empty log1"
proof -
  have "get32 0 (replicate BSIZE 0) = (0 :: u32)"
    by (rule bit_word_eqI) (auto simp: get32_def slice_def bit_le_word)
  moreover have z: "(256 :: u8) = 0" by simp
  ultimately show ?thesis
    using bio_dirty_cst log_area_256 by (simp add: z linv_def log1_def homes_ok_def head_n_def lessThan_Suc)
qed

section \<open>Properties\<close>

text \<open>
  C13: \<^verbatim>\<open>commit\<close> returns, with every block of the transaction written to its home location: outside the
  log the disk is what the kernel saw before, the kernel sees the same as before, nothing is left pinned and
  the log is empty.
\<close>

theorem commit_correct:
  assumes "linv Map.empty l"
  shows "okR (commit l) (\<lambda>l'. linv Map.empty l' \<and> lh_n l' = 0 \<and> cst (ldev l) {} Map.empty (bc l') \<and>
    (\<forall>m. m \<notin> log_area (lstart l) \<longrightarrow> disk (bc l') m = blk (ldev l) (bc l) m \<and> blk (ldev l) (bc l') m = blk (ldev l) (bc l) m))"
proof (cases "0 < lh_n l")
  case True
  let ?h = "put_head (lh_n l) (lh_block l) (blk (ldev l) (bc l) (lstart l))"
  have "length (blk (ldev l) (bc l) (lstart l)) = BSIZE"
    using assms cst_clean [of "ldev l" _ Map.empty "bc l" "lstart l"] homes_ok_start by (auto simp: linv_def)
  then have hd: "head_n (put_head 0 (lh_block l) ?h) = 0" "length (put_head 0 (lh_block l) ?h) = BSIZE"
    using assms by (simp_all add: head_n_put_head linv_def)
  show ?thesis
  proof (rule okR_mono [OF commit_spec [OF assms True]], elim exE conjE, hypsubst)
    fix s
    assume s: "cst (ldev l) {} Map.empty s" "puts (commit_writes l) (bc l) s (ldev l)"
    have "disk s (lstart l) = put_head 0 (lh_block l) ?h" using s(2) by (simp add: puts_def commit_writes_def Let_def)
    moreover have "blk (ldev l) s m = disk s m" for m using cst_clean [OF s(1)] by simp
    ultimately show "linv Map.empty (l\<lparr>lh_n := 0, bc := s\<rparr>) \<and> lh_n (l\<lparr>lh_n := 0, bc := s\<rparr>) = 0 \<and>
        cst (ldev l) {} Map.empty (bc (l\<lparr>lh_n := 0, bc := s\<rparr>)) \<and>
        (\<forall>m. m \<notin> log_area (lstart l) \<longrightarrow> disk (bc (l\<lparr>lh_n := 0, bc := s\<rparr>)) m = blk (ldev l) (bc l) m \<and>
          blk (ldev l) (bc (l\<lparr>lh_n := 0, bc := s\<rparr>)) m = blk (ldev l) (bc l) m)"
      using s commit_view [OF assms] hd by (simp add: linv_def homes_ok_def puts_def)
  qed
next
  case False
  then have "cst (ldev l) {} Map.empty (bc l)" "lh_n l = 0" using assms by (auto simp: linv_def)
  then show ?thesis using assms cst_clean [of "ldev l" "{}" Map.empty "bc l"] False by (simp add: commit_def)
qed

theorem commit_correct_witness:
  "okR (commit log1) (\<lambda>l'. disk (bc l') 50 = replicate BSIZE 9 \<and> lh_n l' = 0)"
  by (rule okR_mono [OF commit_correct [OF log1_inv]])
    (use log_area_256 bio_dirty_cst in \<open>auto simp: log1_def\<close>)

text \<open>
  C11: A crash at any point of a commit is atomic.  Whatever prefix \<open>ws\<close> of the disk writes of \<^verbatim>\<open>commit\<close> has
  reached the disk when the machine stops, booting and running \<^verbatim>\<open>initlog\<close> gives either the blocks as they
  were on disk before the transaction, all of them, or the blocks with all the updates of the transaction.
\<close>

theorem commit_crash_atomic:
  assumes inv: "linv Map.empty l" and dv: "ldev l \<noteq> 0" and c: "commit l = Ok l'"
    and cut: "writes (bc l') = writes (bc l) @ ws @ rest"
    and boot: "zeroed s" "disk s = replay ws (disk (bc l))"
  shows "okR (initlog (ldev l) (lstart l) nlog (l0\<lparr>bc := binit s\<rparr>)) (\<lambda>l1.
    (\<forall>m. m \<notin> log_area (lstart l) \<longrightarrow> blk (ldev l) (bc l1) m = disk (bc l) m) \<or>
    (\<forall>m. m \<notin> log_area (lstart l) \<longrightarrow> blk (ldev l) (bc l1) m = blk (ldev l) (bc l) m))"
proof (cases "0 < lh_n l")
  case True
  have "commit_writes l = ws @ rest" using commit_spec [OF inv True] c cut by (auto simp: puts_def)
  note r = crash_cases [OF inv this]
  show ?thesis
    by (rule okR_mono [OF initlog_spec [OF boot(1) dv]]) (use r boot(2) in auto)
next
  case False
  then have "ws = []" using c cut by (auto simp: commit_def)
  then have "header_ok (lstart l) (disk s)" "\<And>m. m \<noteq> lstart l \<Longrightarrow> recovered (lstart l) (disk s) m = disk s m"
    using inv boot(2) by (auto simp: header_ok_def homes_ok_def linv_def recovered_empty)
  then show ?thesis
    by (intro okR_mono [OF initlog_spec [OF boot(1) dv]]) (use boot(2) \<open>ws = []\<close> area_not_start in auto)
qed

definition boot_state :: "(u32 \<Rightarrow> u8 list) \<Rightarrow> bio" where
  "boot_state D = bio0\<lparr>disk := D\<rparr>"

lemma boot_state_zeroed [simp]: "zeroed (boot_state D)" "disk (boot_state D) = D" "writes (boot_state D) = []"
  by (simp_all add: boot_state_def zeroed_def bio0_def initsleeplock_def)

text \<open>The power fails after the block is in the log and the header is written, before the block is home.\<close>

theorem commit_crash_atomic_witness:
  "okR (commit log1) (\<lambda>l'. okR (initlog 1 256 30 (log1\<lparr>bc := binit (boot_state (replay (take 2 (writes (bc l'))) (disk bio_dirty)))\<rparr>))
     (\<lambda>l1. blk 1 (bc l1) 50 = replicate BSIZE 50 \<or> blk 1 (bc l1) 50 = replicate BSIZE 9))"
proof -
  have "okR (initlog 1 256 30 (log1\<lparr>bc := binit (boot_state (replay (take 2 (writes (bc l'))) (disk bio_dirty)))\<rparr>))
     (\<lambda>l1. blk 1 (bc l1) 50 = replicate BSIZE 50 \<or> blk 1 (bc l1) 50 = replicate BSIZE 9)" if c: "commit log1 = Ok l'" for l'
  proof -
    let ?ws = "take 2 (writes (bc l'))"
    have f: "ldev log1 = 1" "lstart log1 = 256" "bc log1 = bio_dirty" by (simp_all add: log1_def)
    have "writes (bc l') = writes (bc log1) @ ?ws @ drop 2 (writes (bc l'))" using bio_dirty_cst f by simp
    note r = commit_crash_atomic [OF log1_inv _ c this, of "boot_state (replay ?ws (disk bio_dirty))" 30 log1, unfolded f]
    show ?thesis
      by (rule okR_mono [OF r]) (use log_area_256 bio_dirty_cst in auto)
  qed
  then show ?thesis using commit_correct [OF log1_inv] by (auto simp: okR_Ex)
qed

text \<open>
  C12: Recovery may itself be interrupted: whatever prefix \<open>ws\<close> of its writes has reached the disk, running
  \<^verbatim>\<open>initlog\<close> again gives the blocks that the uninterrupted recovery gives.
\<close>

theorem recovery_crash_safe:
  assumes dv: "dv \<noteq> 0" and z: "zeroed s" "zeroed s2" and h: "header_ok st (disk s)"
    and r: "initlog dv st nlog (l\<lparr>bc := binit s\<rparr>) = Ok l1" and cut: "writes (bc l1) = writes s @ ws @ rest"
    and boot: "disk s2 = replay ws (disk s)"
  shows "okR (initlog dv st nlog (l2\<lparr>bc := binit s2\<rparr>)) (\<lambda>l3. \<forall>m. m \<notin> log_area st \<longrightarrow> blk dv (bc l3) m = blk dv (bc l1) m)"
proof -
  have l1: "blk dv (bc l1) = recovered st (disk s)" "recover_writes st (disk s) = ws @ rest"
    using initlog_spec [OF z(1) dv h, of nlog l] r cut by auto
  note again = recovered_again [OF h l1(2)]
  show ?thesis
    by (rule okR_mono [OF initlog_spec [OF z(2) dv]]) (use again boot l1(1) in auto)
qed

text \<open>A disk whose log holds the committed block 50, and a crash after its first write of the recovery.\<close>

definition disk_committed :: "u32 \<Rightarrow> u8 list" where
  "disk_committed = (\<lambda>n. replicate BSIZE 0)(256 := put_head 1 (\<lambda>_. 50) (replicate BSIZE 0), 257 := replicate BSIZE 9)"

theorem recovery_crash_safe_witness:
  "okR (initlog 1 256 30 (log1\<lparr>bc := binit (boot_state disk_committed)\<rparr>)) (\<lambda>l1.
     okR (initlog 1 256 30 (log1\<lparr>bc := binit (boot_state (replay (take 1 (writes (bc l1))) disk_committed))\<rparr>))
       (\<lambda>l3. blk 1 (bc l3) 50 = blk 1 (bc l1) 50))"
proof -
  have h: "header_ok 256 disk_committed"
    using log_area_256 by (simp add: header_ok_def homes_ok_def disk_committed_def head_n_put_head head_block_put_head)
  have "okR (initlog 1 256 30 (log1\<lparr>bc := binit (boot_state (replay (take 1 (writes (bc l1))) disk_committed))\<rparr>))
       (\<lambda>l3. blk 1 (bc l3) 50 = blk 1 (bc l1) 50)"
    if r: "initlog 1 256 30 (log1\<lparr>bc := binit (boot_state disk_committed)\<rparr>) = Ok l1" for l1
  proof -
    have "writes (bc l1) = writes (boot_state disk_committed) @ take 1 (writes (bc l1)) @ drop 1 (writes (bc l1))" by simp
    note s = recovery_crash_safe [OF _ _ _ _ r this, of "boot_state (replay (take 1 (writes (bc l1))) disk_committed)"]
    show ?thesis by (rule okR_mono [OF s]) (use h log_area_256 in auto)
  qed
  then show ?thesis using initlog_spec [of "boot_state disk_committed" 1 256 30 log1] h by (auto simp: okR_Ex)
qed

text \<open>
  C15: \<^verbatim>\<open>log_write\<close> of a locked buffer inside a transaction records its block once, however often the
  block is written: a block that is already in the transaction is absorbed, another one is appended and
  pinned in the cache.  The invariant is kept, and no contents change.
\<close>

theorem log_write_correct:
  assumes "linv H l" and "H b = Some m" and "m \<notin> log_area (lstart l)" and "1 \<le> outstanding l"
    and "lh_n l < lsize l - 1" and "lsize l \<le> int NBUF"
  shows "okR (log_write b l) (\<lambda>l'. linv H l' \<and> lh_n l' = lh_n l + of_bool (m \<notin> lh_block l ` {..<nat (lh_n l)}) \<and>
    lh_block l' ` {..<nat (lh_n l')} = insert m (lh_block l ` {..<nat (lh_n l)}) \<and>
    blk (ldev l) (bc l') = blk (ldev l) (bc l) \<and> disk (bc l') = disk (bc l))"
  by (rule okR_mono [OF log_write_spec [OF assms]]) auto

text \<open>The block that is in the transaction already, and another one.\<close>

theorem log_write_correct_witness:
  "okR (bread 1 50 bio_dirty) (\<lambda>(b, s). okR (log_write b (log1\<lparr>bc := s, outstanding := 1\<rparr>)) (\<lambda>l'. lh_n l' = 1)) \<and>
   okR (bread 1 60 bio_dirty) (\<lambda>(b, s). okR (log_write b (log1\<lparr>bc := s, outstanding := 1\<rparr>)) (\<lambda>l'. lh_n l' = 2))"
proof -
  have a60: "(60 :: u32) \<notin> log_area 256"
  proof -
    have "unat (256 + of_nat i :: u32) = 256 + i" if "i \<le> LOGSIZE" for i
      using that by (simp add: unat_word_ariths unat_of_nat)
    then show ?thesis by (auto simp: log_area_def word_unat_eq_iff simp del: unat_of_nat)
  qed
  have r: "okR (log_write b (log1\<lparr>bc := s, outstanding := 1\<rparr>)) (\<lambda>l'. lh_n l' = 1 + of_bool (n \<noteq> 50))"
    if "cst 1 {50} [b \<mapsto> n] s" "disk s = disk bio_dirty" "n \<notin> log_area 256" "n \<noteq> 256" for b s n
  proof -
    have "linv [b \<mapsto> n] (log1\<lparr>bc := s, outstanding := 1\<rparr>)" using log1_inv that by (simp add: linv_def log1_def lessThan_Suc)
    then show ?thesis
      by (intro okR_mono [OF log_write_correct [where H = "[b \<mapsto> n]" and m = n]])
        (use that in \<open>auto simp: log1_def lessThan_Suc\<close>)
  qed
  have "okR (bread 1 50 bio_dirty) (\<lambda>(b, s). okR (log_write b (log1\<lparr>bc := s, outstanding := 1\<rparr>)) (\<lambda>l'. lh_n l' = 1))"
    by (rule okR_mono [OF cst_bread [OF bio_dirty_cst(1)]]) (use r [where n = 50] log_area_256 in auto)
  moreover have "okR (bread 1 60 bio_dirty) (\<lambda>(b, s). okR (log_write b (log1\<lparr>bc := s, outstanding := 1\<rparr>)) (\<lambda>l'. lh_n l' = 2))"
    by (rule okR_mono [OF cst_bread [OF bio_dirty_cst(1)]]) (use r [where n = 60] a60 in auto)
  ultimately show ?thesis ..
qed

section \<open>Concurrent operations and the space in the log\<close>

text \<open>
  File-system calls that run at the same time.  \<open>u p = Some k\<close> when process \<open>p\<close> is between \<^verbatim>\<open>begin_op\<close> and
  \<^verbatim>\<open>end_op\<close> and has called \<^verbatim>\<open>log_write\<close> \<open>k\<close> times; a call writes at most \<^verbatim>\<open>MAXOPBLOCKS\<close> blocks.  The buffers
  change in any way between the steps.
\<close>

inductive lop_step :: "logst \<times> (nat \<rightharpoonup> nat) \<Rightarrow> logst \<times> (nat \<rightharpoonup> nat) \<Rightarrow> bool" where
  lop_begin: "u p = None \<Longrightarrow> begin_op l = Ok l' \<Longrightarrow> lop_step (l, u) (l', u(p \<mapsto> 0))"
| lop_write: "u p = Some k \<Longrightarrow> k < MAXOPBLOCKS \<Longrightarrow> log_write b l = Ok l' \<Longrightarrow> lop_step (l, u) (l', u(p \<mapsto> Suc k))"
| lop_end: "u p = Some k \<Longrightarrow> end_op_enter l = Ok (c, l') \<Longrightarrow> lop_step (l, u) (l', u(p := None))"
| lop_commit: "committing l \<Longrightarrow> commit l = Ok l' \<Longrightarrow> lop_step (l, u) (end_op_leave l', u)"
| lop_cache: "lop_step (l, u) (l\<lparr>bc := s\<rparr>, u)"

inductive lop_reach :: "logst \<Rightarrow> logst \<times> (nat \<rightharpoonup> nat) \<Rightarrow> bool" for l0 where
  lop_init: "lh_n l0 = 0 \<Longrightarrow> outstanding l0 = 0 \<Longrightarrow> \<not> committing l0 \<Longrightarrow> lop_reach l0 (l0, Map.empty)"
| lop_next: "lop_reach l0 s \<Longrightarrow> lop_step s s' \<Longrightarrow> lop_reach l0 s'"

definition reserved :: "(nat \<rightharpoonup> nat) \<Rightarrow> nat" where
  "reserved u = (\<Sum>p \<in> dom u. MAXOPBLOCKS - the (u p))"

definition space_inv :: "int \<Rightarrow> logst \<times> (nat \<rightharpoonup> nat) \<Rightarrow> bool" where
  "space_inv z = (\<lambda>(l, u). finite (dom u) \<and> outstanding l = int (card (dom u)) \<and> 0 \<le> lh_n l \<and>
     lh_n l + int (reserved u) \<le> int LOGSIZE \<and> (committing l \<longrightarrow> dom u = {}) \<and> lsize l = z)"

lemma reserved_upd:
  assumes "finite (dom u)" and "u p = None"
  shows "reserved (u(p \<mapsto> k)) = reserved u + (MAXOPBLOCKS - k)"
proof -
  have "(\<Sum>q \<in> dom u. MAXOPBLOCKS - the ((u(p \<mapsto> k)) q)) = (\<Sum>q \<in> dom u. MAXOPBLOCKS - the (u q))"
    using assms by (intro sum.cong) auto
  then show ?thesis using assms by (simp add: reserved_def domIff del: fun_upd_apply) simp
qed

lemma reserved_split:
  assumes "finite (dom u)" and "u p = Some k"
  shows "reserved u = reserved (u(p := None)) + (MAXOPBLOCKS - k)"
  using reserved_upd [of "u(p := None)" p k] assms by (simp add: fun_upd_idem)

lemma reserved_le: "finite (dom u) \<Longrightarrow> reserved u \<le> MAXOPBLOCKS * card (dom u)"
  unfolding reserved_def using sum_bounded_above [of "dom u" "\<lambda>p. MAXOPBLOCKS - the (u p)" MAXOPBLOCKS] by simp

lemma keeps_log:
  "write_log l = Ok l' \<Longrightarrow> \<exists>s. l' = l\<lparr>bc := s\<rparr>" "write_head l = Ok l' \<Longrightarrow> \<exists>s. l' = l\<lparr>bc := s\<rparr>"
  "install_trans r l = Ok l' \<Longrightarrow> \<exists>s. l' = l\<lparr>bc := s\<rparr>"
  by (auto simp: write_log_def write_head_def install_trans_def bindR_eq_Ok)

lemma commit_keeps:
  "commit l = Ok l' \<Longrightarrow> outstanding l' = outstanding l \<and> committing l' = committing l \<and> lsize l' = lsize l \<and>
     (lh_n l' = 0 \<or> lh_n l' = lh_n l)"
  by (auto simp: commit_def bindR_eq_Ok split: if_splits dest!: keeps_log)

lemma log_write_OkD:
  assumes "log_write b l = Ok l'"
  shows "lh_n l' \<le> lh_n l + 1" and "lh_n l \<le> lh_n l'" and "outstanding l' = outstanding l"
    and "committing l' = committing l" and "lsize l' = lsize l" and "1 \<le> outstanding l"
  using assms by (auto simp: log_write_def Let_def upd_bc_def split: if_splits)

lemma space_step: "lop_step s s' \<Longrightarrow> space_inv z s \<Longrightarrow> space_inv z s'"
proof (induction rule: lop_step.induct)
  case (lop_begin u p l l')
  have "reserved u \<le> MAXOPBLOCKS * card (dom u)" using lop_begin by (intro reserved_le) (simp add: space_inv_def)
  then show ?case
    using lop_begin by (auto simp: space_inv_def begin_op_def reserved_upd card_insert_if domIff split: if_splits)
next
  case (lop_write u p k b l l')
  have dom: "insert p (dom u) = dom u" using lop_write(1) by auto
  have "reserved (u(p \<mapsto> Suc k)) + 1 = reserved u"
    using lop_write reserved_split [of u p k] reserved_split [of "u(p \<mapsto> Suc k)" p "Suc k"] by (simp add: space_inv_def dom)
  then show ?case
    using lop_write log_write_OkD [OF lop_write(3)] by (auto simp: space_inv_def dom)
next
  case (lop_end u p k l c l')
  have "finite (dom u)" "p \<in> dom u" using lop_end by (auto simp: space_inv_def)
  then have "Suc (card (dom u - {p})) = card (dom u)" by (rule card_Suc_Diff1)
  moreover have "reserved (u(p := None)) \<le> reserved u"
    using reserved_split [of u p k] lop_end by (simp add: space_inv_def)
  ultimately show ?case
    using lop_end by (auto simp: space_inv_def end_op_enter_def Let_def upd_bc_def simp del: dom_eq_empty_conv split: if_splits)
next
  case (lop_commit l l' u)
  then show ?case using commit_keeps [OF lop_commit(2)] by (auto simp: space_inv_def end_op_leave_def upd_bc_def)
qed (simp add: space_inv_def)

lemma space_reach: "lop_reach l0 s \<Longrightarrow> space_inv (lsize l0) s"
proof (induction rule: lop_reach.induct)
  case (lop_next s s')
  then show ?case using space_step by blast
qed (simp add: space_inv_def reserved_def)


definition log0 :: logst where
  "log0 = \<lparr>lstart = 256, lsize = 31, outstanding = 0, committing = False, ldev = 1, lh_n = 0, lh_block = (\<lambda>_. 0), bc = binit bio0\<rparr>"


text \<open>
  The file systems that \<^verbatim>\<open>mkfs\<close> makes have \<^verbatim>\<open>nlog = LOGSIZE\<close>, which counts the header: there the test admits a call
  when 20 blocks are in the log, and its tenth block makes \<^verbatim>\<open>log_write\<close> panic.
\<close>

definition log_full :: logst where
  "log_full = \<lparr>lstart = 2, lsize = 30, outstanding = 0, committing = False, ldev = 1, lh_n = 20, lh_block = (\<lambda>i. 200 + of_nat i),
     bc = bio0\<lparr>bufs := (\<lambda>b. (bufs bio0 b)\<lparr>blockno := 100 + of_nat b\<rparr>)\<rparr>\<rparr>"

lemma log_write_one_short:
  assumes "lh_n l = int n" and "n < 29" and "lsize l = 30" and "outstanding l = 1"
    and "\<And>i. i < n \<Longrightarrow> lh_block l i \<noteq> blockno (bufs (bc l) b)"
  shows "log_write b l = Ok (l\<lparr>lh_block := (lh_block l)(n := blockno (bufs (bc l) b)), bc := bpin b (bc l), lh_n := int n + 1\<rparr>)"
proof -
  have "log_find l (blockno (bufs (bc l) b)) = n"
    using log_find_spec [of l "blockno (bufs (bc l) b)"] assms(1,5) by (auto simp: image_iff)
  then show ?thesis using assms by (simp add: log_write_def Let_def upd_bc_def)
qed

lemma reserved_panics:
  "begin_op log_full = Ok (log_full\<lparr>outstanding := 1\<rparr>)"
  "forR [0..<10] log_write (log_full\<lparr>outstanding := 1\<rparr>) = Panic ''too big a transaction''"
proof -
  show "begin_op log_full = Ok (log_full\<lparr>outstanding := 1\<rparr>)" by (simp add: begin_op_def log_full_def)
  define Q where "Q = (\<lambda>k (l :: logst). lh_n l = int (20 + k) \<and> lsize l = 30 \<and> outstanding l = 1 \<and>
    (\<forall>b. blockno (bufs (bc l) b) = 100 + of_nat b) \<and>
    (\<forall>i < 20 + k. lh_block l i = (if i < 20 then 200 + of_nat i else 100 + of_nat (i - 20))))"
  have ne: "(100 + of_nat a :: u32) \<noteq> 100 + of_nat b" if "a < 40" "b < 40" "a \<noteq> b" for a b
    using that by (auto simp: word_of_nat_eq_iff take_bit_eq_mod)
  have ne2: "(200 + of_nat a :: u32) \<noteq> 100 + of_nat b" if "a < 40" "b < 40" for a b
  proof -
    have "(200 + of_nat a :: u32) = of_nat (200 + a)" "(100 + of_nat b :: u32) = of_nat (100 + b)" by simp_all
    then show ?thesis using that by (simp only: word_of_nat_eq_iff) (simp add: take_bit_eq_mod)
  qed
  have "okR (forR [0..<9] log_write (log_full\<lparr>outstanding := 1\<rparr>)) (Q 9)"
  proof (rule okR_forR_upto)
    show "Q 0 (log_full\<lparr>outstanding := 1\<rparr>)" by (simp add: Q_def log_full_def)
    fix i l
    assume i: "i < 9" and q: "Q i l"
    have "log_write i l = Ok (l\<lparr>lh_block := (lh_block l)(20 + i := blockno (bufs (bc l) i)), bc := bpin i (bc l), lh_n := int (20 + i) + 1\<rparr>)"
    proof (rule log_write_one_short)
      fix j
      assume j: "j < 20 + i"
      have "j - 20 < 40" "j < 20 \<or> j - 20 \<noteq> i" using i j by arith+
      then show "lh_block l j \<noteq> blockno (bufs (bc l) i)"
        using q i j ne [of "j - 20" i] ne2 [of j i] by (auto simp: Q_def)
    qed (use q i in \<open>auto simp: Q_def\<close>)
    then show "okR (log_write i l) (Q (Suc i))" using q by (auto simp: Q_def bpin_def less_Suc_eq)
  qed
  then obtain l where l: "forR [0..<9] log_write (log_full\<lparr>outstanding := 1\<rparr>) = Ok l" "Q 9 l" by (auto simp: okR_Ex)
  have u: "[0..<10] = [0..<9] @ [9]" by (simp add: upt_rec)
  have "forR [0..<10] log_write (log_full\<lparr>outstanding := 1\<rparr>) = bindR (Ok l) (forR [9] log_write)"
    unfolding u forR_append l(1) ..
  also have "\<dots> = Panic ''too big a transaction''" using l(2) by (simp add: Q_def log_write_def)
  finally show "forR [0..<10] log_write (log_full\<lparr>outstanding := 1\<rparr>) = Panic ''too big a transaction''" .
qed

end
