(* ===== verification/Xv6_Fs.thy ===== *)
theory Xv6_Fs
  imports Xv6_Log
begin

text \<open>
  \<^verbatim>\<open>kernel/fs.c\<close>: the block allocator, inodes, directories and path names, over the log and the buffer
  cache.  The state \<open>fsys\<close> holds the log with the cache below it, the superblock, the inode table \<^verbatim>\<open>itable\<close>, the
  process table and the index \<open>me\<close> of \<^verbatim>\<open>myproc()\<close>.  A pointer to an inode is an index into the table, and a
  null pointer is \<open>None\<close>.

  \<^verbatim>\<open>readi\<close> and \<^verbatim>\<open>writei\<close> take an address that is a user address, or one of the kernel: then it is one of physical
  memory, which the kernel maps one to one, or that of an object on the stack of the caller (a
  \<^verbatim>\<open>struct dirent\<close>, an ELF header).  The bytes of that object are the field \<open>local\<close>.
  Strings of the kernel are lists of bytes without the terminating NUL.  Output of \<^verbatim>\<open>printf\<close> is left out.
\<close>

section \<open>State\<close>

abbreviation (input) NDIRECT :: nat where "NDIRECT \<equiv> 12"
abbreviation (input) NINDIRECT :: nat where "NINDIRECT \<equiv> 256"
abbreviation (input) MAXFILE :: nat where "MAXFILE \<equiv> 268"
abbreviation (input) IPB :: nat where "IPB \<equiv> 16"
abbreviation (input) BPB :: nat where "BPB \<equiv> 8192"
abbreviation (input) DIRSIZ :: nat where "DIRSIZ \<equiv> 14"
abbreviation (input) ROOTINO :: u32 where "ROOTINO \<equiv> 1"
abbreviation (input) FSMAGIC :: u32 where "FSMAGIC \<equiv> 0x10203040"
abbreviation (input) T_DIR :: u16 where "T_DIR \<equiv> 1"
abbreviation (input) T_FILE :: u16 where "T_FILE \<equiv> 2"
abbreviation (input) T_DEVICE :: u16 where "T_DEVICE \<equiv> 3"

record superblock =
  magic :: u32
  fsize :: u32
  nblocks :: u32
  ninodes :: u32
  nlog :: u32
  logstart :: u32
  inodestart :: u32
  bmapstart :: u32

record inode =
  idev :: u32
  inum :: u32
  iref :: int
  ilk :: sleeplock
  ivalid :: bool
  itype :: u16
  major :: u16
  minor :: u16
  nlink :: u16
  isize :: u32
  addrs :: "u32 list"

record fsys =
  lg :: logst
  sb :: superblock
  itable :: "nat \<Rightarrow> inode"
  pt :: ptab
  me :: nat
  local :: "u8 list"

datatype kaddr = User u64 | Phys u64 | Local nat

definition adv :: "kaddr \<Rightarrow> nat \<Rightarrow> kaddr" where
  "adv a m = (case a of User x \<Rightarrow> User (x + of_nat m) | Phys x \<Rightarrow> Phys (x + of_nat m) | Local i \<Rightarrow> Local (i + m))"

definition copy_to :: "kaddr \<Rightarrow> u8 list \<Rightarrow> fsys \<Rightarrow> (int \<times> fsys) res" where
  "copy_to a bs s =
     (case a of
        User x \<Rightarrow> bindR (either_copyout (pt s) (me s) True x bs) (\<lambda>(r, p). Ok (r, s\<lparr>pt := p\<rparr>))
      | Phys x \<Rightarrow> bindR (either_copyout (pt s) (me s) False x bs) (\<lambda>(r, p). Ok (r, s\<lparr>pt := p\<rparr>))
      | Local i \<Rightarrow> Ok (0, s\<lparr>local := splice i bs (local s)\<rparr>))"

definition copy_from :: "kaddr \<Rightarrow> nat \<Rightarrow> fsys \<Rightarrow> (int \<times> u8 list) res" where
  "copy_from a len s =
     (case a of
        User x \<Rightarrow> either_copyin (pt s) (me s) True x len
      | Phys x \<Rightarrow> either_copyin (pt s) (me s) False x len
      | Local i \<Rightarrow> Ok (0, slice i len (local s)))"

text \<open>The calls of the layers below, on the state of the file system.\<close>

definition set_bc :: "bio \<Rightarrow> fsys \<Rightarrow> fsys" where
  "set_bc x s = s\<lparr>lg := (lg s)\<lparr>bc := x\<rparr>\<rparr>"

definition f_bread :: "u32 \<Rightarrow> u32 \<Rightarrow> fsys \<Rightarrow> (nat \<times> fsys) res" where
  "f_bread dv n s = bindR (bread dv n (bc (lg s))) (\<lambda>(b, x). Ok (b, set_bc x s))"

definition f_brelse :: "nat \<Rightarrow> fsys \<Rightarrow> fsys res" where
  "f_brelse b s = bindR (brelse b (bc (lg s))) (\<lambda>x. Ok (set_bc x s))"

definition f_log_write :: "nat \<Rightarrow> fsys \<Rightarrow> fsys res" where
  "f_log_write b s = bindR (log_write b (lg s)) (\<lambda>l. Ok (s\<lparr>lg := l\<rparr>))"

definition bdata :: "fsys \<Rightarrow> nat \<Rightarrow> u8 list" where
  "bdata s b = data (bufs (bc (lg s)) b)"

definition bset :: "nat \<Rightarrow> u8 list \<Rightarrow> fsys \<Rightarrow> fsys" where
  "bset b bs s = set_bc (set_data b bs (bc (lg s))) s"

definition upi :: "nat \<Rightarrow> (inode \<Rightarrow> inode) \<Rightarrow> fsys \<Rightarrow> fsys" where
  "upi i f s = s\<lparr>itable := (itable s)(i := f (itable s i))\<rparr>"

section \<open>Superblock\<close>

definition read_superblock :: "u8 list \<Rightarrow> superblock" where
  "read_superblock bs = \<lparr>magic = get32 0 bs, fsize = get32 4 bs, nblocks = get32 8 bs, ninodes = get32 12 bs, nlog = get32 16 bs,
     logstart = get32 20 bs, inodestart = get32 24 bs, bmapstart = get32 28 bs\<rparr>"

definition readsb :: "u32 \<Rightarrow> fsys \<Rightarrow> fsys res" where
  "readsb dv s =
     bindR (f_bread dv 1 s) (\<lambda>(bp, s).
     let x = read_superblock (bdata s bp) in
     bindR (f_brelse bp s) (\<lambda>s. Ok (s\<lparr>sb := x\<rparr>)))"

definition fsinit :: "u32 \<Rightarrow> fsys \<Rightarrow> fsys res" where
  "fsinit dv s =
     bindR (readsb dv s) (\<lambda>s.
     if magic (sb s) \<noteq> FSMAGIC then Panic ''invalid file system''
     else bindR (initlog dv (logstart (sb s)) (nlog (sb s)) (lg s)) (\<lambda>l. Ok (s\<lparr>lg := l\<rparr>)))"

section \<open>Blocks\<close>

definition BBLOCK :: "u32 \<Rightarrow> superblock \<Rightarrow> u32" where
  "BBLOCK b x = b div of_nat BPB + bmapstart x"

definition IBLOCK :: "u32 \<Rightarrow> superblock \<Rightarrow> u32" where
  "IBLOCK i x = i div of_nat IPB + inodestart x"

definition bzero :: "u32 \<Rightarrow> u32 \<Rightarrow> fsys \<Rightarrow> fsys res" where
  "bzero dv bno s =
     bindR (f_bread dv bno s) (\<lambda>(bp, s).
     bindR (f_log_write bp (bset bp (replicate BSIZE 0) s)) (f_brelse bp))"

definition bitmask :: "nat \<Rightarrow> u8" where
  "bitmask bi = push_bit (bi mod 8) 1"

definition is_free :: "u8 list \<Rightarrow> nat \<Rightarrow> bool" where
  "is_free bs bi \<longleftrightarrow> bs ! (bi div 8) AND bitmask bi = 0"

text \<open>The outer loop of \<^verbatim>\<open>balloc\<close> runs over the values of \<^verbatim>\<open>b\<close>, the inner one stops at the first clear bit.\<close>

fun balloc_from :: "u32 \<Rightarrow> nat list \<Rightarrow> fsys \<Rightarrow> (u32 \<times> fsys) res" where
  "balloc_from dv [] s = Ok (0, s)"
| "balloc_from dv (b # bs) s =
     bindR (f_bread dv (BBLOCK (of_nat b) (sb s)) s) (\<lambda>(bp, s).
     case find (is_free (bdata s bp)) [0..<min BPB (unat (fsize (sb s)) - b)] of
       Some bi \<Rightarrow>
         bindR (f_log_write bp (bset bp ((bdata s bp)[bi div 8 := bdata s bp ! (bi div 8) OR bitmask bi]) s)) (\<lambda>s.
         bindR (f_brelse bp s) (\<lambda>s.
         bindR (bzero dv (of_nat (b + bi)) s) (\<lambda>s. Ok (of_nat (b + bi), s))))
     | None \<Rightarrow> bindR (f_brelse bp s) (balloc_from dv bs))"

definition balloc :: "u32 \<Rightarrow> fsys \<Rightarrow> (u32 \<times> fsys) res" where
  "balloc dv s = balloc_from dv (map (\<lambda>i. i * BPB) [0..<(unat (fsize (sb s)) + (BPB - 1)) div BPB]) s"

definition bfree :: "u32 \<Rightarrow> u32 \<Rightarrow> fsys \<Rightarrow> fsys res" where
  "bfree dv b s =
     bindR (f_bread dv (BBLOCK b (sb s)) s) (\<lambda>(bp, s).
     let bi = unat b mod BPB in
     if is_free (bdata s bp) bi then Panic ''freeing free block''
     else bindR (f_log_write bp (bset bp ((bdata s bp)[bi div 8 := bdata s bp ! (bi div 8) AND NOT (bitmask bi)]) s)) (f_brelse bp))"

section \<open>Inodes\<close>

text \<open>\<^verbatim>\<open>struct dinode\<close> takes 64 bytes of its block, from \<open>off\<close> on.\<close>

definition put_dinode :: "nat \<Rightarrow> inode \<Rightarrow> u8 list \<Rightarrow> u8 list" where
  "put_dinode off ip bs =
     splice (off + 12) (concat (map (le_bytes 4) (addrs ip)))
       (put32 (off + 8) (isize ip) (put16 (off + 6) (nlink ip) (put16 (off + 4) (minor ip)
         (put16 (off + 2) (major ip) (put16 off (itype ip) bs)))))"

definition get_dinode :: "nat \<Rightarrow> u8 list \<Rightarrow> inode \<Rightarrow> inode" where
  "get_dinode off bs ip =
     ip\<lparr>itype := get16 off bs, major := get16 (off + 2) bs, minor := get16 (off + 4) bs, nlink := get16 (off + 6) bs,
        isize := get32 (off + 8) bs, addrs := map (\<lambda>i. get32 (off + 12 + 4 * i) bs) [0..<NDIRECT + 1]\<rparr>"

definition dinode_off :: "u32 \<Rightarrow> nat" where
  "dinode_off i = (unat i mod IPB) * 64"

primrec iinit_from :: "nat \<Rightarrow> fsys \<Rightarrow> fsys" where
  "iinit_from 0 s = s"
| "iinit_from (Suc k) s = iinit_from k (upi (NINODE - Suc k) (\<lambda>x. x\<lparr>ilk := initsleeplock\<rparr>) s)"

definition iinit :: "fsys \<Rightarrow> fsys" where
  "iinit s = iinit_from NINODE s"

text \<open>The loop of \<^verbatim>\<open>iget\<close> looks for the inode and for the first entry without references.\<close>

definition iget :: "u32 \<Rightarrow> u32 \<Rightarrow> fsys \<Rightarrow> (nat \<times> fsys) res" where
  "iget dv n s =
     (case find (\<lambda>i. iref (itable s i) > 0 \<and> idev (itable s i) = dv \<and> inum (itable s i) = n) [0..<NINODE] of
        Some i \<Rightarrow> Ok (i, upi i (\<lambda>x. x\<lparr>iref := iref x + 1\<rparr>) s)
      | None \<Rightarrow>
          (case find (\<lambda>i. iref (itable s i) = 0) [0..<NINODE] of
             None \<Rightarrow> Panic ''iget: no inodes''
           | Some i \<Rightarrow> Ok (i, upi i (\<lambda>x. x\<lparr>idev := dv, inum := n, iref := 1, ivalid := False\<rparr>) s)))"

fun ialloc_from :: "u32 \<Rightarrow> u16 \<Rightarrow> nat list \<Rightarrow> fsys \<Rightarrow> (nat option \<times> fsys) res" where
  "ialloc_from dv ty [] s = Ok (None, s)"
| "ialloc_from dv ty (i # is) s =
     bindR (f_bread dv (IBLOCK (of_nat i) (sb s)) s) (\<lambda>(bp, s).
     let off = dinode_off (of_nat i) in
     if get16 off (bdata s bp) = 0 then
       bindR (f_log_write bp (bset bp (put16 off ty (splice off (replicate 64 0) (bdata s bp))) s)) (\<lambda>s.
       bindR (f_brelse bp s) (\<lambda>s.
       bindR (iget dv (of_nat i) s) (\<lambda>(ip, s). Ok (Some ip, s))))
     else bindR (f_brelse bp s) (ialloc_from dv ty is))"

definition ialloc :: "u32 \<Rightarrow> u16 \<Rightarrow> fsys \<Rightarrow> (nat option \<times> fsys) res" where
  "ialloc dv ty s = ialloc_from dv ty [1..<unat (ninodes (sb s))] s"

definition iupdate :: "nat \<Rightarrow> fsys \<Rightarrow> fsys res" where
  "iupdate ip s =
     (let x = itable s ip in
      bindR (f_bread (idev x) (IBLOCK (inum x) (sb s)) s) (\<lambda>(bp, s).
      bindR (f_log_write bp (bset bp (put_dinode (dinode_off (inum x)) x (bdata s bp)) s)) (f_brelse bp)))"

definition idup :: "nat \<Rightarrow> fsys \<Rightarrow> fsys" where
  "idup ip s = upi ip (\<lambda>x. x\<lparr>iref := iref x + 1\<rparr>) s"

definition f_pid :: "fsys \<Rightarrow> u32" where
  "f_pid s = curpid (bc (lg s))"

definition ilock :: "nat option \<Rightarrow> fsys \<Rightarrow> fsys res" where
  "ilock ipo s =
     (case ipo of None \<Rightarrow> Panic ''ilock''
      | Some ip \<Rightarrow>
          if iref (itable s ip) < 1 then Panic ''ilock''
          else bindR (acquiresleep (f_pid s) (ilk (itable s ip))) (\<lambda>lk.
            let s = upi ip (\<lambda>x. x\<lparr>ilk := lk\<rparr>) s; x = itable s ip in
            if \<not> ivalid x then
              bindR (f_bread (idev x) (IBLOCK (inum x) (sb s)) s) (\<lambda>(bp, s).
              let s = upi ip (get_dinode (dinode_off (inum x)) (bdata s bp)) s in
              bindR (f_brelse bp s) (\<lambda>s.
              let s = upi ip (\<lambda>x. x\<lparr>ivalid := True\<rparr>) s in
              if itype (itable s ip) = 0 then Panic ''ilock: no type'' else Ok s))
            else Ok s))"

definition unlock_inode :: "nat \<Rightarrow> fsys \<Rightarrow> fsys" where
  "unlock_inode ip s =
     (let s1 = upi ip (\<lambda>x. x\<lparr>ilk := releasesleep (ilk x)\<rparr>) s in set_bc (wake (Chan_inode_lock ip) (bc (lg s1))) s1)"

definition iunlock :: "nat option \<Rightarrow> fsys \<Rightarrow> fsys res" where
  "iunlock ipo s =
     (case ipo of None \<Rightarrow> Panic ''iunlock''
      | Some ip \<Rightarrow>
          if \<not> holdingsleep (f_pid s) (ilk (itable s ip)) \<or> iref (itable s ip) < 1 then Panic ''iunlock''
          else Ok (unlock_inode ip s))"

section \<open>Inode contents\<close>

definition bmap :: "nat \<Rightarrow> u32 \<Rightarrow> fsys \<Rightarrow> (u32 \<times> fsys) res" where
  "bmap ip bn s =
     (let dv = idev (itable s ip) in
      if unat bn < NDIRECT then
        (if addrs (itable s ip) ! unat bn = 0 then
           bindR (balloc dv s) (\<lambda>(addr, s).
           if addr = 0 then Ok (0, s)
           else Ok (addr, upi ip (\<lambda>x. x\<lparr>addrs := (addrs x)[unat bn := addr]\<rparr>) s))
         else Ok (addrs (itable s ip) ! unat bn, s))
      else if unat bn - NDIRECT < NINDIRECT then
        (let k = unat bn - NDIRECT in
         bindR
           (if addrs (itable s ip) ! NDIRECT = 0 then
              bindR (balloc dv s) (\<lambda>(addr, s).
              if addr = 0 then Ok (0, s)
              else Ok (addr, upi ip (\<lambda>x. x\<lparr>addrs := (addrs x)[NDIRECT := addr]\<rparr>) s))
            else Ok (addrs (itable s ip) ! NDIRECT, s))
           (\<lambda>(ind, s).
             if ind = 0 then Ok (0, s)
             else
               bindR (f_bread dv ind s) (\<lambda>(bp, s).
               if get32 (4 * k) (bdata s bp) = 0 then
                 bindR (balloc dv s) (\<lambda>(addr, s).
                 bindR (if addr \<noteq> 0 then f_log_write bp (bset bp (put32 (4 * k) addr (bdata s bp)) s) else Ok s) (\<lambda>s.
                 bindR (f_brelse bp s) (\<lambda>s. Ok (addr, s))))
               else
                 (let addr = get32 (4 * k) (bdata s bp) in bindR (f_brelse bp s) (\<lambda>s. Ok (addr, s))))))
      else Panic ''bmap: out of range'')"

definition itrunc_direct :: "nat \<Rightarrow> nat \<Rightarrow> fsys \<Rightarrow> fsys res" where
  "itrunc_direct ip i s =
     (if addrs (itable s ip) ! i \<noteq> 0 then
        bindR (bfree (idev (itable s ip)) (addrs (itable s ip) ! i) s) (\<lambda>s.
        Ok (upi ip (\<lambda>x. x\<lparr>addrs := (addrs x)[i := 0]\<rparr>) s))
      else Ok s)"

definition itrunc_indirect :: "nat \<Rightarrow> nat \<Rightarrow> nat \<Rightarrow> fsys \<Rightarrow> fsys res" where
  "itrunc_indirect ip bp j s =
     (let a = get32 (4 * j) (bdata s bp) in if a \<noteq> 0 then bfree (idev (itable s ip)) a s else Ok s)"

definition itrunc :: "nat \<Rightarrow> fsys \<Rightarrow> fsys res" where
  "itrunc ip s =
     bindR (forR [0..<NDIRECT] (itrunc_direct ip) s) (\<lambda>s.
     bindR
       (if addrs (itable s ip) ! NDIRECT \<noteq> 0 then
          bindR (f_bread (idev (itable s ip)) (addrs (itable s ip) ! NDIRECT) s) (\<lambda>(bp, s).
          bindR (forR [0..<NINDIRECT] (itrunc_indirect ip bp) s) (\<lambda>s.
          bindR (f_brelse bp s) (\<lambda>s.
          bindR (bfree (idev (itable s ip)) (addrs (itable s ip) ! NDIRECT) s) (\<lambda>s.
          Ok (upi ip (\<lambda>x. x\<lparr>addrs := (addrs x)[NDIRECT := 0]\<rparr>) s)))))
        else Ok s)
       (\<lambda>s. iupdate ip (upi ip (\<lambda>x. x\<lparr>isize := 0\<rparr>) s)))"

definition iput :: "nat \<Rightarrow> fsys \<Rightarrow> fsys res" where
  "iput ip s =
     bindR
       (if iref (itable s ip) = 1 \<and> ivalid (itable s ip) \<and> nlink (itable s ip) = 0 then
          bindR (acquiresleep (f_pid s) (ilk (itable s ip))) (\<lambda>lk.
          bindR (itrunc ip (upi ip (\<lambda>x. x\<lparr>ilk := lk\<rparr>) s)) (\<lambda>s.
          bindR (iupdate ip (upi ip (\<lambda>x. x\<lparr>itype := 0\<rparr>) s)) (\<lambda>s.
          Ok (unlock_inode ip (upi ip (\<lambda>x. x\<lparr>ivalid := False\<rparr>) s)))))
        else Ok s)
       (\<lambda>s. Ok (upi ip (\<lambda>x. x\<lparr>iref := iref x - 1\<rparr>) s))"

definition iunlockput :: "nat \<Rightarrow> fsys \<Rightarrow> fsys res" where
  "iunlockput ip s = bindR (iunlock (Some ip) s) (iput ip)"

record stat =
  st_dev :: u32
  st_ino :: u32
  st_type :: u16
  st_nlink :: u16
  st_size :: u64

definition stati :: "nat \<Rightarrow> fsys \<Rightarrow> stat" where
  "stati ip s = (let x = itable s ip in
     \<lparr>st_dev = idev x, st_ino = inum x, st_type = itype x, st_nlink = nlink x, st_size = ucast (isize x)\<rparr>)"

function readi_loop :: "nat \<Rightarrow> kaddr \<Rightarrow> nat \<Rightarrow> nat \<Rightarrow> nat \<Rightarrow> fsys \<Rightarrow> (int \<times> fsys) res" where
  "readi_loop ip dst off n tot s =
     (if tot < n then
        bindR (bmap ip (of_nat (off div BSIZE)) s) (\<lambda>(addr, s).
        if addr = 0 then Ok (int tot, s)
        else
          bindR (f_bread (idev (itable s ip)) addr s) (\<lambda>(bp, s).
          let m = min (n - tot) (BSIZE - off mod BSIZE) in
          bindR (copy_to dst (slice (off mod BSIZE) m (bdata s bp)) s) (\<lambda>(r, s).
          bindR (f_brelse bp s) (\<lambda>s.
          if r = -1 then Ok (-1, s) else readi_loop ip (adv dst m) (off + m) n (tot + m) s))))
      else Ok (int tot, s))"
  by pat_completeness auto
termination
  by (relation "measure (\<lambda>(ip, dst, off, n, tot, s). n - tot)") auto

declare readi_loop.simps [simp del]

definition readi :: "nat \<Rightarrow> kaddr \<Rightarrow> u32 \<Rightarrow> u32 \<Rightarrow> fsys \<Rightarrow> (int \<times> fsys) res" where
  "readi ip dst off n s =
     (let size = isize (itable s ip) in
      if off > size \<or> off + n < off then Ok (0, s)
      else readi_loop ip dst (unat off) (unat (if off + n > size then size - off else n)) 0 s)"

text \<open>The loop of \<^verbatim>\<open>writei\<close> returns \<^verbatim>\<open>tot\<close> and \<^verbatim>\<open>off\<close>.\<close>

function writei_loop :: "nat \<Rightarrow> kaddr \<Rightarrow> nat \<Rightarrow> nat \<Rightarrow> nat \<Rightarrow> fsys \<Rightarrow> (nat \<times> nat \<times> fsys) res" where
  "writei_loop ip src off n tot s =
     (if tot < n then
        bindR (bmap ip (of_nat (off div BSIZE)) s) (\<lambda>(addr, s).
        if addr = 0 then Ok (tot, off, s)
        else
          bindR (f_bread (idev (itable s ip)) addr s) (\<lambda>(bp, s).
          let m = min (n - tot) (BSIZE - off mod BSIZE) in
          bindR (copy_from src m s) (\<lambda>(r, bs).
          let s = bset bp (splice (off mod BSIZE) bs (bdata s bp)) s in
          if r = -1 then bindR (f_brelse bp s) (\<lambda>s. Ok (tot, off, s))
          else
            bindR (f_log_write bp s) (\<lambda>s.
            bindR (f_brelse bp s) (\<lambda>s.
            writei_loop ip (adv src m) (off + m) n (tot + m) s)))))
      else Ok (tot, off, s))"
  by pat_completeness auto
termination
  by (relation "measure (\<lambda>(ip, dst, off, n, tot, s). n - tot)") auto

declare writei_loop.simps [simp del]

definition writei :: "nat \<Rightarrow> kaddr \<Rightarrow> u32 \<Rightarrow> u32 \<Rightarrow> fsys \<Rightarrow> (int \<times> fsys) res" where
  "writei ip src off n s =
     (if off > isize (itable s ip) \<or> off + n < off then Ok (-1, s)
      else if unat (off + n) > MAXFILE * BSIZE then Ok (-1, s)
      else
        bindR (writei_loop ip src (unat off) (unat n) 0 s) (\<lambda>(tot, off, s).
        let s = (if off > unat (isize (itable s ip)) then upi ip (\<lambda>x. x\<lparr>isize := of_nat off\<rparr>) s else s) in
        bindR (iupdate ip s) (\<lambda>s. Ok (int tot, s))))"

section \<open>Directories\<close>

text \<open>\<^verbatim>\<open>strncmp\<close> and \<^verbatim>\<open>strncpy\<close> on names that are lists of bytes; beyond the end of the list stands the NUL.\<close>

fun strncmp_list :: "nat \<Rightarrow> u8 list \<Rightarrow> u8 list \<Rightarrow> int" where
  "strncmp_list 0 p q = 0"
| "strncmp_list (Suc n) p q =
     (let a = (case p of [] \<Rightarrow> 0 | x # _ \<Rightarrow> x); b = (case q of [] \<Rightarrow> 0 | x # _ \<Rightarrow> x) in
      if a \<noteq> 0 \<and> a = b then strncmp_list n (tl p) (tl q) else uint a - uint b)"

definition namecmp :: "u8 list \<Rightarrow> u8 list \<Rightarrow> int" where
  "namecmp p q = strncmp_list DIRSIZ p q"

definition strncpy_list :: "nat \<Rightarrow> u8 list \<Rightarrow> u8 list" where
  "strncpy_list n t = take n (cstr t @ replicate n 0)"

definition de_inum :: "u8 list \<Rightarrow> u16" where
  "de_inum bs = get16 0 bs"

definition de_name :: "u8 list \<Rightarrow> u8 list" where
  "de_name bs = slice 2 DIRSIZ bs"

definition dir_offsets :: "u32 \<Rightarrow> nat list" where
  "dir_offsets z = map (\<lambda>i. 16 * i) [0..<(unat z + 15) div 16]"

text \<open>The local \<^verbatim>\<open>de\<close> is read into the field \<open>local\<close>.\<close>

fun dirlookup_from :: "nat \<Rightarrow> u8 list \<Rightarrow> nat list \<Rightarrow> fsys \<Rightarrow> ((nat \<times> nat) option \<times> fsys) res" where
  "dirlookup_from dp name [] s = Ok (None, s)"
| "dirlookup_from dp name (off # offs) s =
     bindR (readi dp (Local 0) (of_nat off) 16 s) (\<lambda>(r, s).
     if r \<noteq> 16 then Panic ''dirlookup read''
     else if de_inum (local s) = 0 then dirlookup_from dp name offs s
     else if namecmp name (de_name (local s)) = 0 then
       bindR (iget (idev (itable s dp)) (ucast (de_inum (local s))) s) (\<lambda>(ip, s). Ok (Some (ip, off), s))
     else dirlookup_from dp name offs s)"

definition dirlookup :: "nat \<Rightarrow> u8 list \<Rightarrow> fsys \<Rightarrow> ((nat \<times> nat) option \<times> fsys) res" where
  "dirlookup dp name s =
     (if itype (itable s dp) \<noteq> T_DIR then Panic ''dirlookup not DIR''
      else dirlookup_from dp name (dir_offsets (isize (itable s dp))) (s\<lparr>local := replicate 16 0\<rparr>))"

fun dirlink_slot :: "nat \<Rightarrow> nat list \<Rightarrow> nat \<Rightarrow> fsys \<Rightarrow> (nat \<times> fsys) res" where
  "dirlink_slot dp [] end_off s = Ok (end_off, s)"
| "dirlink_slot dp (off # offs) end_off s =
     bindR (readi dp (Local 0) (of_nat off) 16 s) (\<lambda>(r, s).
     if r \<noteq> 16 then Panic ''dirlink read''
     else if de_inum (local s) = 0 then Ok (off, s)
     else dirlink_slot dp offs end_off s)"

definition dirlink :: "nat \<Rightarrow> u8 list \<Rightarrow> u32 \<Rightarrow> fsys \<Rightarrow> (int \<times> fsys) res" where
  "dirlink dp name n s =
     bindR (dirlookup dp name s) (\<lambda>(found, s).
     case found of
       Some (ip, _) \<Rightarrow> bindR (iput ip s) (\<lambda>s. Ok (-1, s))
     | None \<Rightarrow>
         bindR (dirlink_slot dp (dir_offsets (isize (itable s dp))) (16 * ((unat (isize (itable s dp)) + 15) div 16)) s) (\<lambda>(off, s).
         let s = s\<lparr>local := put16 0 (ucast n) (splice 2 (strncpy_list DIRSIZ name) (local s))\<rparr> in
         bindR (writei dp (Local 0) (of_nat off) 16 s) (\<lambda>(r, s).
         if r \<noteq> 16 then Ok (-1, s) else Ok (0, s))))"

section \<open>Paths\<close>

abbreviation (input) slash :: u8 where "slash \<equiv> 47"

text \<open>
  \<^verbatim>\<open>skipelem\<close> returns the name and the rest of the path, or nothing.  A name of \<^verbatim>\<open>DIRSIZ\<close> bytes or more is
  cut; a shorter one is followed by a NUL.
\<close>

definition skipelem :: "u8 list \<Rightarrow> (u8 list \<times> u8 list) option" where
  "skipelem pth =
     (let p = dropWhile (\<lambda>c. c = slash) pth in
      if p = [] then None
      else
        let e = takeWhile (\<lambda>c. c \<noteq> slash) p in
        Some (if length e \<ge> DIRSIZ then take DIRSIZ e else e,
              dropWhile (\<lambda>c. c = slash) (dropWhile (\<lambda>c. c \<noteq> slash) p)))"

lemma skipelem_shorter: "skipelem pth = Some (name, rest) \<Longrightarrow> length rest < length pth"
proof -
  assume a: "skipelem pth = Some (name, rest)"
  define p where "p = dropWhile (\<lambda>c. c = slash) pth"
  have ne: "p \<noteq> []" and r: "rest = dropWhile (\<lambda>c. c = slash) (dropWhile (\<lambda>c. c \<noteq> slash) p)"
    using a by (auto simp: skipelem_def Let_def p_def split: if_splits)
  have "hd p \<noteq> slash" using ne unfolding p_def by (rule hd_dropWhile)
  then have e: "dropWhile (\<lambda>c. c \<noteq> slash) p = dropWhile (\<lambda>c. c \<noteq> slash) (tl p)" using ne by (cases p) auto
  have "length rest \<le> length (tl p)"
    unfolding r e using length_dropWhile_le [of "\<lambda>c. c = slash" "dropWhile (\<lambda>c. c \<noteq> slash) (tl p)"]
      length_dropWhile_le [of "\<lambda>c. c \<noteq> slash" "tl p"] by linarith
  moreover have "length p \<le> length pth" unfolding p_def by (rule length_dropWhile_le)
  moreover have "length (tl p) < length p" using ne by simp
  ultimately show ?thesis by linarith
qed

function namex_loop :: "bool \<Rightarrow> nat \<Rightarrow> u8 list \<Rightarrow> u8 list \<Rightarrow> fsys \<Rightarrow> (nat option \<times> u8 list \<times> fsys) res" where
  "namex_loop par ip pth name s =
     (case skipelem pth of
        None \<Rightarrow> if par then bindR (iput ip s) (\<lambda>s. Ok (None, name, s)) else Ok (Some ip, name, s)
      | Some (name, pth) \<Rightarrow>
          bindR (ilock (Some ip) s) (\<lambda>s.
          if itype (itable s ip) \<noteq> T_DIR then bindR (iunlockput ip s) (\<lambda>s. Ok (None, name, s))
          else if par \<and> pth = [] then bindR (iunlock (Some ip) s) (\<lambda>s. Ok (Some ip, name, s))
          else
            bindR (dirlookup ip name s) (\<lambda>(found, s).
            case found of
              None \<Rightarrow> bindR (iunlockput ip s) (\<lambda>s. Ok (None, name, s))
            | Some (next_ip, _) \<Rightarrow> bindR (iunlockput ip s) (namex_loop par next_ip pth name))))"
  by pat_completeness auto
termination
  by (relation "measure (\<lambda>(par, ip, pth, name, s). length pth)") (auto simp: skipelem_shorter)

declare namex_loop.simps [simp del]

definition namex :: "u8 list \<Rightarrow> bool \<Rightarrow> u8 list \<Rightarrow> fsys \<Rightarrow> (nat option \<times> u8 list \<times> fsys) res" where
  "namex pth par name s =
     bindR
       (if pth \<noteq> [] \<and> hd pth = slash then iget ROOTDEV ROOTINO s
        else (case cwd (procs (pt s) ! me s) of None \<Rightarrow> Panic ''kerneltrap'' | Some ip \<Rightarrow> Ok (ip, idup ip s)))
       (\<lambda>(ip, s). namex_loop par ip pth name s)"

definition namei :: "u8 list \<Rightarrow> fsys \<Rightarrow> (nat option \<times> fsys) res" where
  "namei pth s = bindR (namex pth False [] s) (\<lambda>(ip, name, s). Ok (ip, s))"

definition nameiparent :: "u8 list \<Rightarrow> fsys \<Rightarrow> (nat option \<times> u8 list \<times> fsys) res" where
  "nameiparent pth s = namex pth True [] s"

end
