(* ===== verification/Xv6_Console.thy ===== *)
theory Xv6_Console
  imports Xv6_Proc "HOL-Library.Monad_Syntax"
begin

text \<open>
  \<^verbatim>\<open>kernel/uart.c\<close>, \<^verbatim>\<open>kernel/console.c\<close> and \<^verbatim>\<open>kernel/printf.c\<close>: the serial port, the console with its line editing, and
  formatted output.

  The hardware: \<open>sent\<close> are the bytes that were written to the transmit register, oldest first; \<open>rx\<close> the bytes that
  wait in the receive register; \<open>idle k\<close> is the answer to the \<open>k\<close>-th question whether the transmitter is idle,
  of which \<open>polls\<close> were asked.  \<open>ureg\<close> holds what was last written to each control register.
\<close>

section \<open>The serial port\<close>

abbreviation (input) UART_TX_BUF_SIZE :: nat where "UART_TX_BUF_SIZE \<equiv> 32"

record uart =
  tx_buf :: "nat \<Rightarrow> u8"
  tx_w :: u64
  tx_r :: u64
  idle :: "nat \<Rightarrow> bool"
  polls :: nat
  sent :: "u8 list"
  rx :: "u8 list"
  ureg :: "nat \<Rightarrow> u8"
  panicked :: bool
  uwoken :: "chan list"

definition write_reg :: "nat \<Rightarrow> u8 \<Rightarrow> uart \<Rightarrow> uart" where
  "write_reg r v u = u\<lparr>ureg := (ureg u)(r := v)\<rparr>"

text \<open>
  The registers by offset: 1 is \<^verbatim>\<open>IER\<close>, 2 is \<^verbatim>\<open>FCR\<close>, 3 is \<^verbatim>\<open>LCR\<close>; between the first and the second write to \<^verbatim>\<open>LCR\<close>
  the registers 0 and 1 hold the divisor of the baud rate.
\<close>

definition uartinit :: "uart \<Rightarrow> uart" where
  "uartinit u =
     (let u = write_reg 1 0x00 u; u = write_reg 3 0x80 u; u = write_reg 0 0x03 u; u = write_reg 1 0x00 u;
          u = write_reg 3 0x03 u; u = write_reg 2 (0x01 OR 0x06) u
      in write_reg 1 (0x02 OR 0x01) u)"

lemma unat_minus_1: "(a :: 'a::len word) \<noteq> b \<Longrightarrow> unat (a - (b + 1)) < unat (a - b)"
proof -
  assume "a \<noteq> b"
  then have "a - b \<noteq> 0" by simp
  then have "unat (a - b - 1) < unat (a - b)" by (simp add: unat_minus_one unat_gt_0)
  then show ?thesis by (simp add: algebra_simps)
qed

function uartstart :: "uart \<Rightarrow> uart" where
  "uartstart u =
     (if tx_w u = tx_r u then u
      else if \<not> idle u (polls u) then u\<lparr>polls := polls u + 1\<rparr>
      else
        let c = tx_buf u (unat (tx_r u) mod UART_TX_BUF_SIZE) in
        uartstart (u\<lparr>tx_r := tx_r u + 1, polls := polls u + 1, sent := sent u @ [c], uwoken := uwoken u @ [Chan_uart_tx]\<rparr>))"
  by pat_completeness auto

termination
  by (relation "measure (\<lambda>u. unat (tx_w u - tx_r u))") (auto simp: unat_minus_1)

declare uartstart.simps [simp del]

definition uartputc :: "u8 \<Rightarrow> uart \<Rightarrow> uart res" where
  "uartputc c u =
     (if panicked u then Diverges
      else if tx_w u = tx_r u + of_nat UART_TX_BUF_SIZE then Sleeps ''uart''
      else Ok (uartstart (u\<lparr>tx_buf := (tx_buf u)(unat (tx_w u) mod UART_TX_BUF_SIZE := c), tx_w := tx_w u + 1\<rparr>)))"

partial_function (option) wait_idle :: "(nat \<Rightarrow> bool) \<Rightarrow> nat \<Rightarrow> nat option" where
  "wait_idle f k = (if f k then Some k else wait_idle f (Suc k))"

definition uartputc_sync :: "u8 \<Rightarrow> uart \<Rightarrow> uart res" where
  "uartputc_sync c u =
     (if panicked u then Diverges
      else (case wait_idle (idle u) (polls u) of None \<Rightarrow> Diverges
            | Some k \<Rightarrow> Ok (u\<lparr>polls := Suc k, sent := sent u @ [c]\<rparr>)))"

definition uartgetc :: "uart \<Rightarrow> int \<times> uart" where
  "uartgetc u = (case rx u of [] \<Rightarrow> (-1, u) | c # cs \<Rightarrow> (uint c, u\<lparr>rx := cs\<rparr>))"

section \<open>The console\<close>

abbreviation (input) INPUT_BUF_SIZE :: nat where "INPUT_BUF_SIZE \<equiv> 128"
abbreviation (input) BACKSPACE :: int where "BACKSPACE \<equiv> 0x100"
abbreviation (input) newline :: u8 where "newline \<equiv> 10"
abbreviation (input) ctrl_D :: u8 where "ctrl_D \<equiv> 4"

record console =
  ua :: uart
  cbuf :: "nat \<Rightarrow> u8"
  cr :: u32
  cw :: u32
  ce :: u32
  cwoken :: "chan list"

definition putc :: "u8 \<Rightarrow> console \<Rightarrow> console res" where
  "putc c s = bindR (uartputc_sync c (ua s)) (\<lambda>u. Ok (s\<lparr>ua := u\<rparr>))"

definition consputc :: "int \<Rightarrow> console \<Rightarrow> console res" where
  "consputc c s =
     (if c = BACKSPACE then bindR (putc 8 s) (\<lambda>s. bindR (putc 32 s) (putc 8)) else putc (word_of_int c) s)"

primrec consolewrite_from :: "ptab \<Rightarrow> nat \<Rightarrow> bool \<Rightarrow> u64 \<Rightarrow> nat \<Rightarrow> nat \<Rightarrow> console \<Rightarrow> (int \<times> console) res" where
  "consolewrite_from p me user_src src i 0 s = Ok (int i, s)"
| "consolewrite_from p me user_src src i (Suc k) s =
     bindR (either_copyin p me user_src (src + of_nat i) 1) (\<lambda>(r, bs).
     if r = -1 then Ok (int i, s)
     else bindR (uartputc (hd bs) (ua s)) (\<lambda>u. consolewrite_from p me user_src src (Suc i) k (s\<lparr>ua := u\<rparr>)))"

definition consolewrite :: "ptab \<Rightarrow> nat \<Rightarrow> bool \<Rightarrow> u64 \<Rightarrow> int \<Rightarrow> console \<Rightarrow> (int \<times> console) res" where
  "consolewrite p me user_src src n s = consolewrite_from p me user_src src 0 (nat n) s"

text \<open>
  \<^verbatim>\<open>consoleread\<close> runs until it returns (\<open>Inl\<close>) or sleeps, with the bytes that it still wants and where they
  go (\<open>Inr\<close>); \<^verbatim>\<open>target\<close> is the number of bytes asked for.
\<close>

function consoleread_run :: "nat \<Rightarrow> bool \<Rightarrow> int \<Rightarrow> u64 \<Rightarrow> int \<Rightarrow> ptab \<Rightarrow> console \<Rightarrow> ((int + u64 \<times> int) \<times> ptab \<times> console) res" where
  "consoleread_run me user_dst target dst n p s =
     (if n > 0 then
        (if cr s = cw s then
           (if killed_flag (procs p ! me) then Ok (Inl (-1), p, s) else Ok (Inr (dst, n), p, s))
         else
           let c = cbuf s (unat (cr s) mod INPUT_BUF_SIZE); s = s\<lparr>cr := cr s + 1\<rparr> in
           if c = ctrl_D then Ok (Inl (target - n), p, if n < target then s\<lparr>cr := cr s - 1\<rparr> else s)
           else
             bindR (either_copyout p me user_dst dst [c]) (\<lambda>(r, p).
             if r = -1 then Ok (Inl (target - n), p, s)
             else if c = newline then Ok (Inl (target - (n - 1)), p, s)
             else consoleread_run me user_dst target (dst + 1) (n - 1) p s))
      else Ok (Inl (target - n), p, s))"
  by pat_completeness auto
termination
  by (relation "measure (\<lambda>(me, ud, target, dst, n, p, s). nat n)") auto

declare consoleread_run.simps [simp del]

definition consoleread :: "nat \<Rightarrow> bool \<Rightarrow> u64 \<Rightarrow> int \<Rightarrow> ptab \<Rightarrow> console \<Rightarrow> (int \<times> ptab \<times> console) res" where
  "consoleread me user_dst dst n p s =
     bindR (consoleread_run me user_dst n dst n p s) (\<lambda>(r, p, s).
     case r of Inl x \<Rightarrow> Ok (x, p, s) | Inr _ \<Rightarrow> Sleeps ''cons'')"

lemma putc_keeps: "putc c s = Ok s' \<Longrightarrow> cbuf s' = cbuf s \<and> cr s' = cr s \<and> cw s' = cw s \<and> ce s' = ce s \<and> cwoken s' = cwoken s"
  by (auto simp: putc_def bindR_eq_Ok)

lemma consputc_keeps:
  "consputc c s = Ok s' \<Longrightarrow> cbuf s' = cbuf s \<and> cr s' = cr s \<and> cw s' = cw s \<and> ce s' = ce s \<and> cwoken s' = cwoken s"
  by (auto simp: consputc_def bindR_eq_Ok split: if_splits dest!: putc_keeps)

lemma unat_less_self: "(a :: 'a::len word) \<noteq> b \<Longrightarrow> unat (a - 1 - b) < unat (a - b)"
  using unat_minus_1 [of a b] by (simp add: algebra_simps)

function kill_line :: "console \<Rightarrow> console res" where
  "kill_line s =
     (if ce s \<noteq> cw s \<and> cbuf s (unat (ce s - 1) mod INPUT_BUF_SIZE) \<noteq> newline
      then bindR (consputc BACKSPACE (s\<lparr>ce := ce s - 1\<rparr>)) kill_line
      else Ok s)"
  by pat_completeness auto

termination
  by (relation "measure (\<lambda>s. unat (ce s - cw s))") (auto dest!: consputc_keeps simp: unat_less_self)

declare kill_line.simps [simp del]

text \<open>The process list that control-P prints is left out.\<close>

definition consoleintr :: "int \<Rightarrow> console \<Rightarrow> console res" where
  "consoleintr c s =
     (if c = 16 then Ok s
      else if c = 21 then kill_line s
      else if c = 8 \<or> c = 0x7f then
        (if ce s \<noteq> cw s then consputc BACKSPACE (s\<lparr>ce := ce s - 1\<rparr>) else Ok s)
      else if c \<noteq> 0 \<and> ce s - cr s < of_nat INPUT_BUF_SIZE then
        (let c = (if c = 13 then 10 else c) in
         bindR (consputc c s) (\<lambda>s.
         let s = s\<lparr>cbuf := (cbuf s)(unat (ce s) mod INPUT_BUF_SIZE := word_of_int c), ce := ce s + 1\<rparr> in
         Ok (if c = 10 \<or> c = 4 \<or> ce s - cr s = of_nat INPUT_BUF_SIZE
             then s\<lparr>cw := ce s, cwoken := cwoken s @ [Chan_cons_r]\<rparr> else s)))
      else Ok s)"

definition consoleinit :: "console \<Rightarrow> console" where
  "consoleinit s = s\<lparr>ua := uartinit (ua s)\<rparr>"

text \<open>The loop of \<^verbatim>\<open>uartintr\<close> reads the characters that wait.\<close>

primrec uartintr_rx :: "nat \<Rightarrow> console \<Rightarrow> console res" where
  "uartintr_rx 0 s = Ok s"
| "uartintr_rx (Suc k) s =
     (let (c, u) = uartgetc (ua s) in
      if c = -1 then Ok (s\<lparr>ua := u\<rparr>) else bindR (consoleintr c (s\<lparr>ua := u\<rparr>)) (uartintr_rx k))"

definition uartintr :: "console \<Rightarrow> console res" where
  "uartintr s = bindR (uartintr_rx (Suc (length (rx (ua s)))) s) (\<lambda>s. Ok (s\<lparr>ua := uartstart (ua s)\<rparr>))"

section \<open>Formatted output\<close>

definition digit :: "nat \<Rightarrow> u8" where
  "digit d = (if d < 10 then of_nat (48 + d) else of_nat (87 + d))"

text \<open>
  The characters that \<^verbatim>\<open>printint\<close> puts into \<^verbatim>\<open>buf\<close>, least significant first; the array has 16 elements, and a
  number with more characters is written past its end: then there is no result.
\<close>

function digits_of :: "nat \<Rightarrow> nat \<Rightarrow> u8 list" where
  "digits_of base x = (if base < 2 then [] else digit (x mod base) # (if x div base \<noteq> 0 then digits_of base (x div base) else []))"
  by pat_completeness auto
termination
proof (relation "measure snd")
  fix base x :: nat
  assume "\<not> base < 2" "x div base \<noteq> 0"
  then have "0 < x" "1 < base" by (auto intro: ccontr)
  then show "((base, x div base), base, x) \<in> measure snd" by simp
qed simp

declare digits_of.simps [simp del]

definition printint :: "u64 \<Rightarrow> nat \<Rightarrow> bool \<Rightarrow> u8 list option" where
  "printint xx base sign =
     (let neg = (sign \<and> sint xx < 0);
          x = (if neg then - xx else xx);
          buf = digits_of base (unat x) @ (if neg then [45] else [])
      in if length buf \<le> 16 then Some (rev buf) else None)"

text \<open>Seventeen decimal digits do not fit, nor does a negative \<^verbatim>\<open>int\<close> printed with \<^verbatim>\<open>%u\<close>.\<close>

lemma printint_overflows: "printint (10 ^ 16) 10 False = None \<and> printint (- 1) 10 False = None"
proof -
  have "unat (- 1 :: u64) = 18446744073709551615" by (simp add: unsigned_minus_1_eq_mask mask_eq_exp_minus_1)
  then show ?thesis by (simp add: printint_def digits_of.simps Let_def)
qed

definition printptr :: "u64 \<Rightarrow> u8 list" where
  "printptr x = [48, 120] @ map (\<lambda>i. digit (unat (drop_bit 60 (push_bit (4 * i) x)))) [0..<16]"

datatype fmtarg = Arg_int u64 | Arg_str "u8 list option"

definition va_int :: "fmtarg list \<Rightarrow> u64" where
  "va_int as = (case as of Arg_int x # _ \<Rightarrow> signed_take_bit 31 x | _ \<Rightarrow> 0)"

definition va_long :: "fmtarg list \<Rightarrow> u64" where
  "va_long as = (case as of Arg_int x # _ \<Rightarrow> x | _ \<Rightarrow> 0)"

definition va_str :: "fmtarg list \<Rightarrow> u8 list" where
  "va_str as = (case as of Arg_str (Some t) # _ \<Rightarrow> t | _ \<Rightarrow> [40, 110, 117, 108, 108, 41])"

text \<open>
  The loop of \<^verbatim>\<open>printf\<close> over the format; \<open>None\<close> is a number that does not fit \<^verbatim>\<open>buf\<close>.  100 is the letter d,
  108 is l, 117 is u, 120 is x, 112 is p, 115 is s and 37 is the percent sign.
\<close>

function printf_loop :: "u8 list \<Rightarrow> fmtarg list \<Rightarrow> u8 list option" where
  "printf_loop fmt as =
     (case fmt of
        [] \<Rightarrow> Some []
      | cx # f \<Rightarrow>
          if cx \<noteq> 37 then Option.bind (printf_loop f as) (\<lambda>o'. Some (cx # o'))
          else
            (let c0 = (case f of [] \<Rightarrow> 0 | c # _ \<Rightarrow> c); c1 = (case tl f of [] \<Rightarrow> 0 | c # _ \<Rightarrow> c);
                 c2 = (case tl (tl f) of [] \<Rightarrow> 0 | c # _ \<Rightarrow> c);
                 out = (\<lambda>r k as. Option.bind r (\<lambda>o'. Option.bind (printf_loop (drop k f) as) (\<lambda>o2. Some (o' @ o2))))
             in
             if c0 = 100 then out (printint (va_int as) 10 True) 1 (tl as)
             else if c0 = 108 \<and> c1 = 100 then out (printint (va_long as) 10 True) 2 (tl as)
             else if c0 = 108 \<and> c1 = 108 \<and> c2 = 100 then out (printint (va_long as) 10 True) 3 (tl as)
             else if c0 = 117 then out (printint (va_int as) 10 False) 1 (tl as)
             else if c0 = 108 \<and> c1 = 117 then out (printint (va_long as) 10 False) 2 (tl as)
             else if c0 = 108 \<and> c1 = 108 \<and> c2 = 117 then out (printint (va_long as) 10 False) 3 (tl as)
             else if c0 = 120 then out (printint (va_int as) 16 False) 1 (tl as)
             else if c0 = 108 \<and> c1 = 120 then out (printint (va_long as) 16 False) 2 (tl as)
             else if c0 = 108 \<and> c1 = 108 \<and> c2 = 120 then out (printint (va_long as) 16 False) 3 (tl as)
             else if c0 = 112 then out (Some (printptr (va_long as))) 1 (tl as)
             else if c0 = 115 then out (Some (va_str as)) 1 (tl as)
             else if c0 = 37 then out (Some [37]) 1 as
             else if c0 = 0 then Some []
             else out (Some [37, c0]) 1 as))"
  by pat_completeness auto
termination
  by (relation "measure (\<lambda>(fmt, as). length fmt)") auto

declare printf_loop.simps [simp del]

definition putchars :: "u8 list \<Rightarrow> console \<Rightarrow> console res" where
  "putchars cs s = forR cs (\<lambda>c. consputc (uint c)) s"

text \<open>Writing past the end of \<^verbatim>\<open>buf\<close> overwrites the stack; the model stops there.\<close>

definition printf :: "u8 list \<Rightarrow> fmtarg list \<Rightarrow> console \<Rightarrow> console res" where
  "printf fmt as s = (case printf_loop fmt as of None \<Rightarrow> Panic ''stack smashed'' | Some cs \<Rightarrow> putchars cs s)"

section \<open>Numbers are printed right\<close>

definition undigit :: "u8 \<Rightarrow> nat" where
  "undigit c = (if c < 58 then unat c - 48 else unat c - 87)"

definition read_digits :: "nat \<Rightarrow> u8 list \<Rightarrow> nat" where
  "read_digits base cs = foldl (\<lambda>n c. n * base + undigit c) 0 cs"

definition read_number :: "nat \<Rightarrow> u8 list \<Rightarrow> int" where
  "read_number base cs = (if cs \<noteq> [] \<and> hd cs = 45 then - int (read_digits base (tl cs)) else int (read_digits base cs))"

lemma digit_spec: "d < 16 \<Longrightarrow> undigit (digit d) = d \<and> digit d \<noteq> 45"
proof -
  assume "d < 16"
  then have "d \<in> set [0..<16]" by simp
  then show ?thesis by (simp add: upt_conv_Cons digit_def undigit_def) (elim disjE; simp)
qed

lemma digits_of_nonempty: "2 \<le> base \<Longrightarrow> digits_of base x \<noteq> []"
  by (simp add: digits_of.simps [of base x])

lemma read_digits_of:
  assumes "2 \<le> base" and "base \<le> 16"
  shows "read_digits base (rev (digits_of base x)) = x \<and> (\<forall>c \<in> set (digits_of base x). c \<noteq> 45)"
  using assms
proof (induction base x rule: digits_of.induct)
  case (1 base x)
  have "x mod base < base" using "1.prems" by simp
  then have "x mod base < 16" using "1.prems" by linarith
  then have d: "undigit (digit (x mod base)) = x mod base" "digit (x mod base) \<noteq> 45" using digit_spec by simp_all
  show ?case
  proof (cases "x div base = 0")
    case True
    then have "x mod base = x" using div_mult_mod_eq [of x base] by simp
    then show ?thesis using True d "1.prems" by (simp add: digits_of.simps [of base x] read_digits_def)
  next
    case False
    then show ?thesis using "1.IH" d "1.prems" by (simp add: digits_of.simps [of base x] read_digits_def)
  qed
qed

lemma length_digits_of:
  assumes "2 \<le> base"
  shows "length (digits_of base x) \<le> Suc k \<longleftrightarrow> x < base ^ Suc k"
  using assms
proof (induction k arbitrary: x)
  case 0
  then show ?case by (auto simp: digits_of.simps [of base x] div_eq_0_iff digits_of_nonempty)
next
  case (Suc k)
  have "x div base < base ^ Suc k \<longleftrightarrow> x < base ^ Suc (Suc k)" using Suc.prems by (simp add: div_less_iff_less_mult mult.commute)
  moreover have "x div base = 0 \<Longrightarrow> x < base ^ Suc (Suc k)"
    using Suc.prems \<open>x div base < base ^ Suc k \<longleftrightarrow> x < base ^ Suc (Suc k)\<close> by simp
  ultimately show ?case using Suc by (auto simp: digits_of.simps [of base x])
qed

text \<open>
  C39: \<^verbatim>\<open>printint\<close> prints the number it is given: what it prints, read as a number in the base, is the argument as a
  signed or an unsigned number; it overruns its 16 characters exactly when the digits and the sign are more than 16.
\<close>

theorem printint_correct:
  assumes "2 \<le> base" and "base \<le> 16" and "v = (if sign then sint xx else uint xx)"
  shows "case printint xx base sign of
      Some cs \<Rightarrow> read_number base cs = v \<and> length cs \<le> 16
    | None \<Rightarrow> (if v < 0 then int base ^ 15 \<le> - v else int base ^ 16 \<le> v)"
proof -
  define neg where "neg \<longleftrightarrow> sign \<and> sint xx < 0"
  define x where "x = (if neg then - xx else xx)"
  have m: "uint xx = sint xx mod 2 ^ 64" "- (2 ^ 63) \<le> sint xx" "sint xx < 2 ^ 63"
    using uint_sint [of xx] sint_ge [of xx] sint_lt [of xx] by (simp_all add: take_bit_eq_mod)
  have "int (unat (- xx)) = - sint xx" if n: "sint xx < 0"
  proof -
    have "int (unat (- xx)) = (- (sint xx mod 2 ^ 64)) mod 2 ^ 64" using m(1) by (simp add: uint_word_ariths)
    also have "\<dots> = (- sint xx) mod 2 ^ 64" by (rule mod_minus_eq)
    also have "\<dots> = - sint xx" using n m(2) by (intro mod_pos_pos_trivial) simp_all
    finally show ?thesis .
  qed
  moreover have "sint xx = uint xx" if "\<not> sint xx < 0" using that m(3) unfolding m(1) by simp
  ultimately have v: "v = (if neg then - int (unat x) else int (unat x))" "neg \<longleftrightarrow> v < 0"
    using assms(3) by (auto simp: neg_def x_def not_less)
  let ?d = "digits_of base (unat x)"
  have p: "printint xx base sign = (if length ?d + (if neg then 1 else 0) \<le> 16 then Some ((if neg then [45] else []) @ rev ?d) else None)"
    by (simp add: printint_def Let_def neg_def x_def)
  have r: "read_number base ((if neg then [45] else []) @ rev ?d) = v"
  proof -
    have "rev ?d \<noteq> []" "hd (rev ?d) \<in> set ?d" using digits_of_nonempty [OF assms(1)] by (simp_all add: hd_rev)
    then show ?thesis using read_digits_of [OF assms(1,2), of "unat x"] v(1) by (auto simp: read_number_def)
  qed
  have e: "Suc 15 = 16" "Suc 14 = 15" by simp_all
  have l1: "length ?d \<le> 16 \<longleftrightarrow> unat x < base ^ 16" by (rule length_digits_of [OF assms(1), of _ 15, unfolded e(1)])
  have l2: "length ?d \<le> 15 \<longleftrightarrow> unat x < base ^ 15" by (rule length_digits_of [OF assms(1), of _ 14, unfolded e(2)])
  have b: "int base ^ k \<le> int (unat x) \<longleftrightarrow> \<not> unat x < base ^ k" for k
    unfolding of_nat_power [symmetric] of_nat_le_iff not_less ..
  show ?thesis
  proof (cases neg)
    case True
    have "v < 0" using True v(2) by blast
    moreover have "- v = int (unat x)" using True v(1) by simp
    ultimately show ?thesis using p r l2 b [of 15] True by (simp split: if_splits)
  next
    case False
    have "\<not> v < 0" using False v(2) by blast
    moreover have "v = int (unat x)" using False v(1) by simp
    ultimately show ?thesis using p r l1 b [of 16] False by (simp split: if_splits)
  qed
qed

theorem printint_correct_witness: "case printint (- 42) 10 True of Some cs \<Rightarrow> read_number 10 cs = - 42 | None \<Rightarrow> False"
  using printint_correct [of 10 "- 42" True "- 42"] by (simp split: option.splits)

end
