(* ===== verification/Xv6_File.thy ===== *)
theory Xv6_File
  imports Xv6_Fs Xv6_Console
begin

text \<open>
  \<^verbatim>\<open>kernel/pipe.c\<close> and \<^verbatim>\<open>kernel/file.c\<close>: pipes and the table of open files.  The state \<open>kern\<close> is that of the whole
  kernel: the file system with the process table, the console, \<^verbatim>\<open>ftable\<close>, the pipes by the address of their
  page, the device switch and \<^verbatim>\<open>ticks\<close> of \<^verbatim>\<open>kernel/trap.c\<close>.  A device is named instead of being given by two function pointers: \<^verbatim>\<open>consoleinit\<close>
  is the only one that sets entries.

  A read of an empty pipe and a write to a full one sleep in the middle.  \<open>piperead_run\<close> and \<open>pipewrite_run\<close>
  are what happens under one hold of \<^verbatim>\<open>pi->lock\<close>: they end with a return value (\<open>Inl\<close>), or asleep with the number of
  bytes already transferred (\<open>Inr\<close>), and run again from there after the wakeup.
\<close>

abbreviation (input) PIPESIZE :: nat where "PIPESIZE \<equiv> 512"
abbreviation (input) CONSOLE :: u16 where "CONSOLE \<equiv> 1"

record pipe =
  pdata :: "nat \<Rightarrow> u8"
  nread :: u32
  nwrite :: u32
  readopen :: bool
  writeopen :: bool

datatype ftype = FD_NONE | FD_PIPE | FD_INODE | FD_DEVICE

record openfile =
  ftyp :: ftype
  fref :: int
  readable :: bool
  writable :: bool
  fpipe :: u64
  fip :: "nat option"
  foff :: u32
  fmajor :: u16

datatype device = Console_device

record kern =
  fs :: fsys
  con :: console
  ftable :: "nat \<Rightarrow> openfile"
  pipes :: "u64 \<Rightarrow> pipe"
  devsw :: "nat \<Rightarrow> device option"
  ticks :: u32

definition updfile :: "nat \<Rightarrow> (openfile \<Rightarrow> openfile) \<Rightarrow> kern \<Rightarrow> kern" where
  "updfile f g k = k\<lparr>ftable := (ftable k)(f := g (ftable k f))\<rparr>"

definition updpipe :: "u64 \<Rightarrow> (pipe \<Rightarrow> pipe) \<Rightarrow> kern \<Rightarrow> kern" where
  "updpipe a g k = k\<lparr>pipes := (pipes k)(a := g (pipes k a))\<rparr>"

definition set_fs :: "kern \<Rightarrow> fsys \<Rightarrow> kern" where
  "set_fs k s = k\<lparr>fs := s\<rparr>"

definition on_procs :: "(proc list \<Rightarrow> proc list) \<Rightarrow> kern \<Rightarrow> kern" where
  "on_procs g k = k\<lparr>fs := (fs k)\<lparr>pt := (pt (fs k))\<lparr>procs := g (procs (pt (fs k)))\<rparr>\<rparr>\<rparr>"

definition set_km :: "kmem \<Rightarrow> kern \<Rightarrow> kern" where
  "set_km m k = k\<lparr>fs := (fs k)\<lparr>pt := (pt (fs k))\<lparr>km := m\<rparr>\<rparr>\<rparr>"

definition myproc :: "kern \<Rightarrow> proc" where
  "myproc k = procs (pt (fs k)) ! me (fs k)"

definition mem_of :: "kern \<Rightarrow> kmem" where
  "mem_of k = km (pt (fs k))"

definition k_wakeup :: "chan \<Rightarrow> kern \<Rightarrow> kern" where
  "k_wakeup ch k = on_procs (wakeup (Some (me (fs k))) ch) k"

definition k_copyout :: "u64 \<Rightarrow> u8 list \<Rightarrow> kern \<Rightarrow> (int \<times> kern) res" where
  "k_copyout va bs k = bindR (copyout (mem_of k) (pagetable (myproc k)) va bs) (\<lambda>(r, m). Ok (r, set_km m k))"

definition k_copyin :: "u64 \<Rightarrow> nat \<Rightarrow> kern \<Rightarrow> (int \<times> u8 list) res" where
  "k_copyin va n k = copyin (mem_of k) (pagetable (myproc k)) va n"

definition k_begin_op :: "kern \<Rightarrow> kern res" where
  "k_begin_op k = bindR (begin_op (lg (fs k))) (\<lambda>l. Ok (k\<lparr>fs := (fs k)\<lparr>lg := l\<rparr>\<rparr>))"

definition k_end_op :: "kern \<Rightarrow> kern res" where
  "k_end_op k = bindR (end_op (lg (fs k))) (\<lambda>l. Ok (k\<lparr>fs := (fs k)\<lparr>lg := l\<rparr>\<rparr>))"

text \<open>An operation of the file system on the state of the kernel.\<close>

definition onfs :: "(fsys \<Rightarrow> fsys res) \<Rightarrow> kern \<Rightarrow> kern res" where
  "onfs g k = bindR (g (fs k)) (\<lambda>s. Ok (set_fs k s))"

definition onfs2 :: "(fsys \<Rightarrow> ('a \<times> fsys) res) \<Rightarrow> kern \<Rightarrow> ('a \<times> kern) res" where
  "onfs2 g k = bindR (g (fs k)) (\<lambda>(x, s). Ok (x, set_fs k s))"

section \<open>The file table\<close>

definition filealloc :: "kern \<Rightarrow> nat option \<times> kern" where
  "filealloc k =
     (case find (\<lambda>f. fref (ftable k f) = 0) [0..<NFILE] of
        None \<Rightarrow> (None, k)
      | Some f \<Rightarrow> (Some f, updfile f (\<lambda>x. x\<lparr>fref := 1\<rparr>) k))"

definition filedup :: "nat \<Rightarrow> kern \<Rightarrow> kern res" where
  "filedup f k = (if fref (ftable k f) < 1 then Panic ''filedup'' else Ok (updfile f (\<lambda>x. x\<lparr>fref := fref x + 1\<rparr>) k))"

definition pipeclose :: "u64 \<Rightarrow> bool \<Rightarrow> kern \<Rightarrow> kern res" where
  "pipeclose pi wr k =
     (let k1 = (if wr then k_wakeup (Chan_pipe_nread (unat pi)) (updpipe pi (\<lambda>p. p\<lparr>writeopen := False\<rparr>) k)
                else k_wakeup (Chan_pipe_nwrite (unat pi)) (updpipe pi (\<lambda>p. p\<lparr>readopen := False\<rparr>) k))
      in if \<not> readopen (pipes k1 pi) \<and> \<not> writeopen (pipes k1 pi)
         then bindR (kfree (mem_of k1) pi) (\<lambda>m. Ok (set_km m k1))
         else Ok k1)"

definition fileclose :: "nat \<Rightarrow> kern \<Rightarrow> kern res" where
  "fileclose f k =
     (if fref (ftable k f) < 1 then Panic ''fileclose''
      else
        let k1 = updfile f (\<lambda>x. x\<lparr>fref := fref x - 1\<rparr>) k in
        if fref (ftable k1 f) > 0 then Ok k1
        else
          let ff = ftable k1 f; k2 = updfile f (\<lambda>x. x\<lparr>fref := 0, ftyp := FD_NONE\<rparr>) k1 in
          case ftyp ff of
            FD_PIPE \<Rightarrow> pipeclose (fpipe ff) (writable ff) k2
          | FD_NONE \<Rightarrow> Ok k2
          | _ \<Rightarrow>
              bindR (k_begin_op k2) (\<lambda>k.
              bindR (case fip ff of None \<Rightarrow> Panic ''kerneltrap'' | Some ip \<Rightarrow> onfs (iput ip) k) k_end_op))"

section \<open>Pipes\<close>

definition pipealloc_bad :: "u64 \<Rightarrow> nat option \<Rightarrow> nat option \<Rightarrow> kern \<Rightarrow> ((nat \<times> nat) option \<times> kern) res" where
  "pipealloc_bad pi f0 f1 k =
     bindR (if pi \<noteq> 0 then bindR (kfree (mem_of k) pi) (\<lambda>m. Ok (set_km m k)) else Ok k) (\<lambda>k.
     bindR (case f0 of None \<Rightarrow> Ok k | Some f \<Rightarrow> fileclose f k) (\<lambda>k.
     bindR (case f1 of None \<Rightarrow> Ok k | Some f \<Rightarrow> fileclose f k) (\<lambda>k. Ok (None, k))))"

definition pipealloc :: "kern \<Rightarrow> ((nat \<times> nat) option \<times> kern) res" where
  "pipealloc k =
     (case filealloc k of
        (None, k) \<Rightarrow> pipealloc_bad 0 None None k
      | (Some f0, k) \<Rightarrow>
          (case filealloc k of
             (None, k) \<Rightarrow> pipealloc_bad 0 (Some f0) None k
           | (Some f1, k) \<Rightarrow>
               (let (pi, m) = kalloc (mem_of k); k = set_km m k in
                if pi = 0 then pipealloc_bad 0 (Some f0) (Some f1) k
                else
                  let k = updpipe pi (\<lambda>p. p\<lparr>readopen := True, writeopen := True, nwrite := 0, nread := 0\<rparr>) k;
                      k = updfile f0 (\<lambda>x. x\<lparr>ftyp := FD_PIPE, readable := True, writable := False, fpipe := pi\<rparr>) k;
                      k = updfile f1 (\<lambda>x. x\<lparr>ftyp := FD_PIPE, readable := False, writable := True, fpipe := pi\<rparr>) k
                  in Ok (Some (f0, f1), k))))"

definition pipe_full :: "pipe \<Rightarrow> bool" where
  "pipe_full p \<longleftrightarrow> nwrite p = nread p + of_nat PIPESIZE"

definition pipe_empty :: "pipe \<Rightarrow> bool" where
  "pipe_empty p \<longleftrightarrow> nread p = nwrite p"

definition pipe_put :: "u8 \<Rightarrow> pipe \<Rightarrow> pipe" where
  "pipe_put c p = p\<lparr>pdata := (pdata p)(unat (nwrite p) mod PIPESIZE := c), nwrite := nwrite p + 1\<rparr>"

definition pipe_get :: "pipe \<Rightarrow> u8 \<times> pipe" where
  "pipe_get p = (pdata p (unat (nread p) mod PIPESIZE), p\<lparr>nread := nread p + 1\<rparr>)"

text \<open>The loop of \<^verbatim>\<open>pipewrite\<close> from index \<open>i\<close>; the last argument but one is the number of bytes that are left.\<close>

primrec pipewrite_run :: "u64 \<Rightarrow> u64 \<Rightarrow> nat \<Rightarrow> nat \<Rightarrow> kern \<Rightarrow> ((int + nat) \<times> kern) res" where
  "pipewrite_run pi addr i 0 k = Ok (Inl (int i), k_wakeup (Chan_pipe_nread (unat pi)) k)"
| "pipewrite_run pi addr i (Suc left) k =
     (if \<not> readopen (pipes k pi) \<or> killed_flag (myproc k) then Ok (Inl (-1), k)
      else if pipe_full (pipes k pi) then Ok (Inr i, k_wakeup (Chan_pipe_nread (unat pi)) k)
      else
        bindR (k_copyin (addr + of_nat i) 1 k) (\<lambda>(r, bs).
        if r = -1 then Ok (Inl (int i), k_wakeup (Chan_pipe_nread (unat pi)) k)
        else pipewrite_run pi addr (Suc i) left (updpipe pi (pipe_put (hd bs)) k)))"

primrec piperead_copy :: "u64 \<Rightarrow> u64 \<Rightarrow> nat \<Rightarrow> nat \<Rightarrow> kern \<Rightarrow> (int \<times> kern) res" where
  "piperead_copy pi addr i 0 k = Ok (int i, k)"
| "piperead_copy pi addr i (Suc left) k =
     (if pipe_empty (pipes k pi) then Ok (int i, k)
      else
        let (c, p) = pipe_get (pipes k pi) in
        bindR (k_copyout (addr + of_nat i) [c] (updpipe pi (\<lambda>_. p) k)) (\<lambda>(r, k).
        if r = -1 then Ok (int i, k) else piperead_copy pi addr (Suc i) left k))"

definition piperead_run :: "u64 \<Rightarrow> u64 \<Rightarrow> nat \<Rightarrow> kern \<Rightarrow> ((int + nat) \<times> kern) res" where
  "piperead_run pi addr n k =
     (if pipe_empty (pipes k pi) \<and> writeopen (pipes k pi) then
        (if killed_flag (myproc k) then Ok (Inl (-1), k) else Ok (Inr 0, k))
      else
        bindR (piperead_copy pi addr 0 n k) (\<lambda>(r, k). Ok (Inl r, k_wakeup (Chan_pipe_nwrite (unat pi)) k)))"

definition no_sleep :: "string \<Rightarrow> ((int + nat) \<times> kern) res \<Rightarrow> (int \<times> kern) res" where
  "no_sleep ch m = bindR m (\<lambda>(r, k). case r of Inl x \<Rightarrow> Ok (x, k) | Inr _ \<Rightarrow> Sleeps ch)"

definition pipewrite :: "u64 \<Rightarrow> u64 \<Rightarrow> int \<Rightarrow> kern \<Rightarrow> (int \<times> kern) res" where
  "pipewrite pi addr n k = no_sleep ''pipe nwrite'' (pipewrite_run pi addr 0 (nat n) k)"

definition piperead :: "u64 \<Rightarrow> u64 \<Rightarrow> int \<Rightarrow> kern \<Rightarrow> (int \<times> kern) res" where
  "piperead pi addr n k = no_sleep ''pipe nread'' (piperead_run pi addr (nat n) k)"

section \<open>Operations on open files\<close>

text \<open>\<^verbatim>\<open>struct stat\<close> as it lies in memory: 8 bytes of alignment separate \<^verbatim>\<open>nlink\<close> from \<^verbatim>\<open>size\<close> by 4 bytes, here 0.\<close>

definition stat_bytes :: "stat \<Rightarrow> u8 list" where
  "stat_bytes st = le_bytes 4 (st_dev st) @ le_bytes 4 (st_ino st) @ le_bytes 2 (st_type st) @ le_bytes 2 (st_nlink st) @
     replicate 4 0 @ le_bytes 8 (st_size st)"

definition filestat :: "nat \<Rightarrow> u64 \<Rightarrow> kern \<Rightarrow> (int \<times> kern) res" where
  "filestat f addr k =
     (if ftyp (ftable k f) = FD_INODE \<or> ftyp (ftable k f) = FD_DEVICE then
        bindR (onfs (ilock (fip (ftable k f))) k) (\<lambda>k.
        let st = stati (the (fip (ftable k f))) (fs k) in
        bindR (onfs (iunlock (fip (ftable k f))) k) (\<lambda>k.
        bindR (k_copyout addr (stat_bytes st) k) (\<lambda>(r, k). Ok (if r < 0 then -1 else 0, k))))
      else Ok (-1, k))"

definition dev_of :: "u16 \<Rightarrow> kern \<Rightarrow> device option" where
  "dev_of mj k = (if sint mj < 0 \<or> sint mj \<ge> int NDEV then None else devsw k (unat mj))"

definition fileread :: "nat \<Rightarrow> u64 \<Rightarrow> int \<Rightarrow> kern \<Rightarrow> (int \<times> kern) res" where
  "fileread f addr n k =
     (let x = ftable k f in
      if \<not> readable x then Ok (-1, k)
      else case ftyp x of
        FD_PIPE \<Rightarrow> piperead (fpipe x) addr n k
      | FD_DEVICE \<Rightarrow>
          (case dev_of (fmajor x) k of None \<Rightarrow> Ok (-1, k)
           | Some Console_device \<Rightarrow>
               bindR (consoleread (me (fs k)) True addr n (pt (fs k)) (con k)) (\<lambda>(r, p, c).
               Ok (r, k\<lparr>fs := (fs k)\<lparr>pt := p\<rparr>, con := c\<rparr>)))
      | FD_INODE \<Rightarrow>
          bindR (onfs (ilock (fip x)) k) (\<lambda>k.
          bindR (onfs2 (readi (the (fip x)) (User addr) (foff x) (word_of_int n)) k) (\<lambda>(r, k).
          let k = (if r > 0 then updfile f (\<lambda>y. y\<lparr>foff := foff y + word_of_int r\<rparr>) k else k) in
          bindR (onfs (iunlock (fip x)) k) (\<lambda>k. Ok (r, k))))
      | FD_NONE \<Rightarrow> Panic ''fileread'')"

text \<open>The loop of \<^verbatim>\<open>filewrite\<close> writes at most three blocks in a transaction; \<open>i\<close> of \<open>n\<close> bytes are written.\<close>

abbreviation (input) write_max :: nat where "write_max \<equiv> ((10 - 1 - 1 - 2) div 2) * BSIZE"

function filewrite_loop :: "nat \<Rightarrow> u64 \<Rightarrow> nat \<Rightarrow> nat \<Rightarrow> kern \<Rightarrow> (nat \<times> kern) res" where
  "filewrite_loop f addr n i k =
     (if i < n then
        (let n1 = min (n - i) write_max in
         bindR (k_begin_op k) (\<lambda>k.
         bindR (onfs (ilock (fip (ftable k f))) k) (\<lambda>k.
         bindR (onfs2 (writei (the (fip (ftable k f))) (User (addr + of_nat i)) (foff (ftable k f)) (of_nat n1)) k) (\<lambda>(r, k).
         let k = (if r > 0 then updfile f (\<lambda>y. y\<lparr>foff := foff y + word_of_int r\<rparr>) k else k) in
         bindR (onfs (iunlock (fip (ftable k f))) k) (\<lambda>k.
         bindR (k_end_op k) (\<lambda>k.
         if r \<noteq> int n1 then Ok (i, k) else filewrite_loop f addr n (i + n1) k))))))
      else Ok (i, k))"
  by pat_completeness auto
termination
  by (relation "measure (\<lambda>(f, addr, n, i, k). n - i)") auto

declare filewrite_loop.simps [simp del]

definition filewrite :: "nat \<Rightarrow> u64 \<Rightarrow> int \<Rightarrow> kern \<Rightarrow> (int \<times> kern) res" where
  "filewrite f addr n k =
     (let x = ftable k f in
      if \<not> writable x then Ok (-1, k)
      else case ftyp x of
        FD_PIPE \<Rightarrow> pipewrite (fpipe x) addr n k
      | FD_DEVICE \<Rightarrow>
          (case dev_of (fmajor x) k of None \<Rightarrow> Ok (-1, k)
           | Some Console_device \<Rightarrow>
               bindR (consolewrite (pt (fs k)) (me (fs k)) True addr n (con k)) (\<lambda>(r, c). Ok (r, k\<lparr>con := c\<rparr>)))
      | FD_INODE \<Rightarrow>
          bindR (filewrite_loop f addr (nat n) 0 k) (\<lambda>(i, k). Ok (if int i = n then n else -1, k))
      | FD_NONE \<Rightarrow> Panic ''filewrite'')"

end
