(* ===== verification/Xv6_Process.thy ===== *)
theory Xv6_Process
  imports Xv6_File
begin

text \<open>
  The operations of \<^verbatim>\<open>kernel/proc.c\<close> that create and end processes: \<^verbatim>\<open>userinit\<close>, \<^verbatim>\<open>fork\<close>, \<^verbatim>\<open>exit\<close>, \<^verbatim>\<open>wait\<close> and
  \<^verbatim>\<open>forkret\<close>.  They use every other part of the kernel, so their state is \<open>kern\<close>.  The user registers of a
  process lie in the page of its trapframe.
\<close>

section \<open>The trapframe\<close>

definition set_pt :: "ptab \<Rightarrow> kern \<Rightarrow> kern" where
  "set_pt p k = k\<lparr>fs := (fs k)\<lparr>pt := p\<rparr>\<rparr>"

definition on_mem :: "(bytemem \<Rightarrow> bytemem) \<Rightarrow> kern \<Rightarrow> kern" where
  "on_mem g k = set_km ((mem_of k)\<lparr>mem := g (mem (mem_of k))\<rparr>) k"

abbreviation (input) tf_satp :: u64 where "tf_satp \<equiv> 0"
abbreviation (input) tf_ksp :: u64 where "tf_ksp \<equiv> 8"
abbreviation (input) tf_trap :: u64 where "tf_trap \<equiv> 16"
abbreviation (input) tf_epc :: u64 where "tf_epc \<equiv> 24"
abbreviation (input) tf_hartid :: u64 where "tf_hartid \<equiv> 32"
abbreviation (input) tf_sp :: u64 where "tf_sp \<equiv> 48"
abbreviation (input) tf_a0 :: u64 where "tf_a0 \<equiv> 112"
abbreviation (input) tf_a1 :: u64 where "tf_a1 \<equiv> 120"
abbreviation (input) tf_a7 :: u64 where "tf_a7 \<equiv> 168"
abbreviation (input) tf_size :: nat where "tf_size \<equiv> 288"

definition tf_get :: "u64 \<Rightarrow> kern \<Rightarrow> u64" where
  "tf_get off k = load64 (mem (mem_of k)) (trapframe (myproc k) + off)"

definition tf_put :: "u64 \<Rightarrow> u64 \<Rightarrow> kern \<Rightarrow> kern" where
  "tf_put off v k = on_mem (\<lambda>m. store64 m (trapframe (myproc k) + off) v) k"

definition safestrcpy_list :: "nat \<Rightarrow> u8 list \<Rightarrow> u8 list \<Rightarrow> u8 list" where
  "safestrcpy_list n dst src = splice 0 (take (n - 1) (cstr src) @ [0]) dst"

section \<open>The first process\<close>

text \<open>\<open>initcode\<close> are the bytes of the array in the source; \<^verbatim>\<open>allocproc\<close> is assumed to succeed, as the source does.\<close>

definition userinit :: "u64 \<Rightarrow> u64 \<Rightarrow> u8 list \<Rightarrow> kern \<Rightarrow> kern res" where
  "userinit tramp forkret initcode k =
     bindR (allocproc tramp forkret (pt (fs k))) (\<lambda>(npo, p).
     let k = set_pt (p\<lparr>initproc := npo\<rparr>) k in
     case npo of None \<Rightarrow> Panic ''kerneltrap''
     | Some i \<Rightarrow>
         let x = procs (pt (fs k)) ! i in
         bindR (uvmfirst (mem_of k) (pagetable x) initcode) (\<lambda>m.
         let k = set_km m k;
             k = on_procs (upd i (\<lambda>q. q\<lparr>sz := PGSIZE\<rparr>)) k;
             k = on_mem (\<lambda>m. store64 (store64 m (trapframe x + tf_epc) 0) (trapframe x + tf_sp) PGSIZE) k;
             k = on_procs (upd i (\<lambda>q. q\<lparr>pname := safestrcpy_list 16 (pname q) [105, 110, 105, 116, 99, 111, 100, 101]\<rparr>)) k
         in bindR (onfs2 (namei [47]) k) (\<lambda>(ip, k).
            Ok (on_procs (upd i (\<lambda>q. q\<lparr>cwd := ip, state := RUNNABLE\<rparr>)) k))))"

section \<open>Fork\<close>

definition fork_file :: "nat \<Rightarrow> nat \<Rightarrow> kern \<Rightarrow> kern res" where
  "fork_file np i k =
     (case ofile (myproc k) ! i of
        None \<Rightarrow> Ok k
      | Some f \<Rightarrow> bindR (filedup f k) (\<lambda>k. Ok (on_procs (upd np (\<lambda>q. q\<lparr>ofile := (ofile q)[i := Some f]\<rparr>)) k)))"

definition fork_copy :: "nat \<Rightarrow> kern \<Rightarrow> (int \<times> kern) res" where
  "fork_copy np k =
     (let cur = myproc k; new = procs (pt (fs k)) ! np;
          k = on_procs (upd np (\<lambda>q. q\<lparr>sz := sz cur, trace_mask := trace_mask cur\<rparr>)) k;
          k = on_mem (\<lambda>m. write_bytes m (trapframe new) (read_bytes m (trapframe cur) tf_size)) k;
          k = on_mem (\<lambda>m. store64 m (trapframe new + tf_a0) 0) k
      in bindR (forR [0..<NOFILE] (fork_file np) k) (\<lambda>k.
         case cwd (myproc k) of None \<Rightarrow> Panic ''kerneltrap''
         | Some ip \<Rightarrow>
             let k = set_fs k (idup ip (fs k));
                 k = on_procs (upd np (\<lambda>q. q\<lparr>cwd := Some ip, pname := safestrcpy_list 16 (pname q) (pname cur)\<rparr>)) k;
                 k = on_procs (upd np (\<lambda>q. q\<lparr>parent := Some (me (fs k))\<rparr>)) k;
                 k = on_procs (upd np (\<lambda>q. q\<lparr>state := RUNNABLE\<rparr>)) k
             in Ok (sint (pid (procs (pt (fs k)) ! np)), k)))"

definition fork :: "u64 \<Rightarrow> u64 \<Rightarrow> kern \<Rightarrow> (int \<times> kern) res" where
  "fork tramp forkret k =
     bindR (allocproc tramp forkret (pt (fs k))) (\<lambda>(npo, p).
     let k = set_pt p k in
     case npo of None \<Rightarrow> Ok (-1, k)
     | Some np \<Rightarrow>
         let cur = myproc k; new = procs (pt (fs k)) ! np in
         bindR (uvmcopy (mem_of k) (pagetable cur) (pagetable new) (sz cur)) (\<lambda>(r, m).
         let k = set_km m k in
         if r < 0 then bindR (freeproc (pt (fs k)) np) (\<lambda>p. Ok (-1, set_pt p k))
         else fork_copy np k))"

section \<open>Exit\<close>

definition wake_proc :: "nat option \<Rightarrow> kern \<Rightarrow> kern" where
  "wake_proc i k = (case i of None \<Rightarrow> k | Some i \<Rightarrow> k_wakeup (Chan_proc i) k)"

definition reparent :: "nat \<Rightarrow> kern \<Rightarrow> kern" where
  "reparent p k =
     fold (\<lambda>i k. if parent (procs (pt (fs k)) ! i) = Some p
                 then wake_proc (initproc (pt (fs k))) (on_procs (upd i (\<lambda>q. q\<lparr>parent := initproc (pt (fs k))\<rparr>)) k)
                 else k) [0..<NPROC] k"

definition exit_file :: "nat \<Rightarrow> kern \<Rightarrow> kern res" where
  "exit_file fd k =
     (case ofile (myproc k) ! fd of
        None \<Rightarrow> Ok k
      | Some f \<Rightarrow> bindR (fileclose f k) (\<lambda>k. Ok (on_procs (upd (me (fs k)) (\<lambda>q. q\<lparr>ofile := (ofile q)[fd := None]\<rparr>)) k)))"

text \<open>The result is the state in which the process enters \<^verbatim>\<open>sched\<close> for the last time.\<close>

definition exit :: "int \<Rightarrow> kern \<Rightarrow> kern res" where
  "exit status k =
     (if initproc (pt (fs k)) = Some (me (fs k)) then Panic ''init exiting''
      else
        bindR (forR [0..<NOFILE] exit_file k) (\<lambda>k.
        bindR (k_begin_op k) (\<lambda>k.
        bindR (case cwd (myproc k) of None \<Rightarrow> Panic ''kerneltrap'' | Some ip \<Rightarrow> onfs (iput ip) k) (\<lambda>k.
        bindR (k_end_op k) (\<lambda>k.
        let k = on_procs (upd (me (fs k)) (\<lambda>q. q\<lparr>cwd := None\<rparr>)) k;
            k = reparent (me (fs k)) k;
            k = wake_proc (parent (myproc k)) k
        in Ok (on_procs (upd (me (fs k)) (\<lambda>q. q\<lparr>xstate := status, state := ZOMBIE\<rparr>)) k))))))"

section \<open>Wait\<close>

text \<open>
  One scan of the table, under \<^verbatim>\<open>wait_lock\<close>: \<open>Inl\<close> is the return value, \<open>Inr\<close> that no child has exited, with whether
  there is one.
\<close>

fun wait_scan :: "u64 \<Rightarrow> nat list \<Rightarrow> bool \<Rightarrow> kern \<Rightarrow> ((int + bool) \<times> kern) res" where
  "wait_scan addr [] havekids k = Ok (Inr havekids, k)"
| "wait_scan addr (i # is) havekids k =
     (let q = procs (pt (fs k)) ! i in
      if parent q = Some (me (fs k)) then
        (if state q = ZOMBIE then
           bindR (if addr \<noteq> 0 then k_copyout addr (le_bytes 4 (word_of_int (xstate q) :: u32)) k else Ok (0, k)) (\<lambda>(r, k).
           if r < 0 then Ok (Inl (-1), k)
           else bindR (freeproc (pt (fs k)) i) (\<lambda>p. Ok (Inl (sint (pid q)), set_pt p k)))
         else wait_scan addr is True k)
      else wait_scan addr is havekids k)"

definition wait_run :: "u64 \<Rightarrow> kern \<Rightarrow> ((int + unit) \<times> kern) res" where
  "wait_run addr k =
     bindR (wait_scan addr [0..<NPROC] False k) (\<lambda>(r, k).
     case r of
       Inl x \<Rightarrow> Ok (Inl x, k)
     | Inr havekids \<Rightarrow>
         if \<not> havekids \<or> killed (me (fs k)) (procs (pt (fs k))) then Ok (Inl (-1), k)
         else Ok (Inr (), on_procs (sleep_enter (me (fs k)) (Chan_proc (me (fs k)))) k))"

definition wait :: "u64 \<Rightarrow> kern \<Rightarrow> (int \<times> kern) res" where
  "wait addr k = bindR (wait_run addr k) (\<lambda>(r, k). case r of Inl x \<Rightarrow> Ok (x, k) | Inr _ \<Rightarrow> Sleeps ''wait'')"

text \<open>\<open>first\<close> is the static variable of \<^verbatim>\<open>forkret\<close>.\<close>

definition forkret_init :: "bool \<Rightarrow> kern \<Rightarrow> (bool \<times> kern) res" where
  "forkret_init first k = (if first then bindR (onfs (fsinit ROOTDEV) k) (\<lambda>k. Ok (False, k)) else Ok (first, k))"

end
