(* ===== verification/Xv6_Exec.thy ===== *)
theory Xv6_Exec
  imports Xv6_Process
begin

text \<open>
  \<^verbatim>\<open>kernel/exec.c\<close> with the structures of \<^verbatim>\<open>kernel/elf.h\<close>: loading a program into a new page table and replacing the
  memory of the process by it.  The headers are read into the field \<open>local\<close>, the bytes on the stack of \<^verbatim>\<open>exec\<close>.
  The strings of \<^verbatim>\<open>argv\<close> are lists of bytes without the NUL.
\<close>

abbreviation (input) ELF_MAGIC :: u32 where "ELF_MAGIC \<equiv> 0x464C457F"
abbreviation (input) ELF_PROG_LOAD :: u32 where "ELF_PROG_LOAD \<equiv> 1"

definition get64 :: "nat \<Rightarrow> u8 list \<Rightarrow> u64" where
  "get64 off bs = le_word (slice off 8 bs)"

record elfhdr =
  e_magic :: u32
  e_entry :: u64
  e_phoff :: u64
  e_phnum :: u16

definition read_elfhdr :: "u8 list \<Rightarrow> elfhdr" where
  "read_elfhdr bs = \<lparr>e_magic = get32 0 bs, e_entry = get64 24 bs, e_phoff = get64 32 bs, e_phnum = get16 56 bs\<rparr>"

record proghdr =
  ph_type :: u32
  ph_flags :: u32
  ph_off :: u64
  ph_vaddr :: u64
  ph_filesz :: u64
  ph_memsz :: u64

definition read_proghdr :: "u8 list \<Rightarrow> proghdr" where
  "read_proghdr bs = \<lparr>ph_type = get32 0 bs, ph_flags = get32 4 bs, ph_off = get64 8 bs, ph_vaddr = get64 16 bs,
     ph_filesz = get64 32 bs, ph_memsz = get64 40 bs\<rparr>"

definition flags2perm :: "u32 \<Rightarrow> u64" where
  "flags2perm flags =
     (let perm = (if flags AND 1 \<noteq> 0 then PTE_X else 0) in if flags AND 2 \<noteq> 0 then perm OR PTE_W else perm)"

text \<open>The loop of \<^verbatim>\<open>loadseg\<close>, over the pages that start below \<open>n\<close>, the size of the segment.\<close>

function loadseg_from :: "u64 \<Rightarrow> u64 \<Rightarrow> nat \<Rightarrow> u32 \<Rightarrow> nat \<Rightarrow> nat \<Rightarrow> kern \<Rightarrow> (int \<times> kern) res" where
  "loadseg_from pgt va ip offset n i k =
     (if i < n then
        bindR (walkaddr (mem_of k) pgt (va + of_nat i)) (\<lambda>pa.
        if pa = 0 then Panic ''loadseg: address should exist''
        else
          let m = (if n - i < 4096 then n - i else 4096) in
          bindR (onfs2 (readi ip (Phys pa) (offset + of_nat i) (of_nat m)) k) (\<lambda>(r, k).
          if r \<noteq> int m then Ok (-1, k) else loadseg_from pgt va ip offset n (i + 4096) k))
      else Ok (0, k))"
  by pat_completeness auto
termination
  by (relation "measure (\<lambda>(pgt, va, ip, offset, n, i, k). n - i)") auto

declare loadseg_from.simps [simp del]

definition loadseg :: "u64 \<Rightarrow> u64 \<Rightarrow> nat \<Rightarrow> u32 \<Rightarrow> u32 \<Rightarrow> kern \<Rightarrow> (int \<times> kern) res" where
  "loadseg pgt va ip offset n k = loadseg_from pgt va ip offset (unat n) 0 k"

text \<open>
  The loop over the program headers: \<open>Inl\<close> is the jump to \<^verbatim>\<open>bad\<close> with the size so far, \<open>Inr\<close> the size
  of the loaded image.  \<open>off\<close> is an int in the source.
\<close>

primrec load_headers :: "nat \<Rightarrow> u64 \<Rightarrow> nat \<Rightarrow> u32 \<Rightarrow> u64 \<Rightarrow> kern \<Rightarrow> ((u64 + u64) \<times> kern) res" where
  "load_headers 0 pgt ip off size1 k = Ok (Inr size1, k)"
| "load_headers (Suc left) pgt ip off size1 k =
     bindR (onfs2 (readi ip (Local 0) off 56) (set_fs k ((fs k)\<lparr>local := replicate 56 0\<rparr>))) (\<lambda>(r, k).
     if r \<noteq> 56 then Ok (Inl size1, k)
     else
       let ph = read_proghdr (local (fs k)) in
       if ph_type ph \<noteq> ELF_PROG_LOAD then load_headers left pgt ip (off + 56) size1 k
       else if ph_memsz ph < ph_filesz ph then Ok (Inl size1, k)
       else if ph_vaddr ph + ph_memsz ph < ph_vaddr ph then Ok (Inl size1, k)
       else if ph_vaddr ph mod PGSIZE \<noteq> 0 then Ok (Inl size1, k)
       else
         bindR (uvmalloc (mem_of k) pgt size1 (ph_vaddr ph + ph_memsz ph) (flags2perm (ph_flags ph))) (\<lambda>(size2, m).
         let k = set_km m k in
         if size2 = 0 then Ok (Inl size1, k)
         else
           bindR (loadseg pgt (ph_vaddr ph) ip (ucast (ph_off ph)) (ucast (ph_filesz ph)) k) (\<lambda>(r, k).
           if r < 0 then Ok (Inl size2, k) else load_headers left pgt ip (off + 56) size2 k)))"

definition exec_bad :: "u64 \<Rightarrow> u64 \<Rightarrow> nat option \<Rightarrow> kern \<Rightarrow> (int \<times> kern) res" where
  "exec_bad pgt size1 ipo k =
     bindR (if pgt \<noteq> 0 then bindR (proc_freepagetable (mem_of k) pgt size1) (\<lambda>m. Ok (set_km m k)) else Ok k) (\<lambda>k.
     bindR (case ipo of None \<Rightarrow> Ok k | Some ip \<Rightarrow> bindR (onfs (iunlockput ip) k) k_end_op) (\<lambda>k. Ok (-1, k)))"

text \<open>The arguments are pushed one by one; the result is the stack pointer and \<^verbatim>\<open>ustack\<close>, or the jump to \<^verbatim>\<open>bad\<close>.\<close>

fun push_args :: "u64 \<Rightarrow> u64 \<Rightarrow> u8 list list \<Rightarrow> u64 \<Rightarrow> u64 list \<Rightarrow> kern \<Rightarrow> ((u64 \<times> u64 list) option \<times> kern) res" where
  "push_args pgt stackbase [] stk ustack k = Ok (Some (stk, ustack), k)"
| "push_args pgt stackbase (a # as) stk ustack k =
     (if length ustack \<ge> MAXARG then Ok (None, k)
      else
        let stk = stk - of_nat (length a + 1); stk = stk - stk mod 16 in
        if stk < stackbase then Ok (None, k)
        else
          bindR (copyout (mem_of k) pgt stk (a @ [0])) (\<lambda>(r, m).
          let k = set_km m k in
          if r < 0 then Ok (None, k) else push_args pgt stackbase as stk (ustack @ [stk]) k))"

definition exec_name :: "u8 list \<Rightarrow> u8 list" where
  "exec_name pth = rev (takeWhile (\<lambda>c. c \<noteq> slash) (rev pth))"

definition exec_commit :: "u64 \<Rightarrow> u64 \<Rightarrow> u64 \<Rightarrow> u64 \<Rightarrow> u8 list \<Rightarrow> nat \<Rightarrow> kern \<Rightarrow> (int \<times> kern) res" where
  "exec_commit pgt size1 entry stk pth argc k =
     (let old = myproc k; k = tf_put tf_a1 stk k;
          k = on_procs (upd (me (fs k)) (\<lambda>q. q\<lparr>pname := safestrcpy_list 16 (pname q) (exec_name pth)\<rparr>)) k;
          k = on_procs (upd (me (fs k)) (\<lambda>q. q\<lparr>pagetable := pgt, sz := size1\<rparr>)) k;
          k = tf_put tf_sp stk (tf_put tf_epc entry k)
      in bindR (proc_freepagetable (mem_of k) (pagetable old) (sz old)) (\<lambda>m. Ok (int argc, set_km m k)))"

definition exec_stack :: "u64 \<Rightarrow> u64 \<Rightarrow> u64 \<Rightarrow> u8 list \<Rightarrow> u8 list list \<Rightarrow> kern \<Rightarrow> (int \<times> kern) res" where
  "exec_stack pgt size1 entry pth argv k =
     (let size2 = PGROUNDUP size1 in
      bindR (uvmalloc (mem_of k) pgt size2 (size2 + (USERSTACK + 1) * PGSIZE) PTE_W) (\<lambda>(size3, m).
      let k = set_km m k in
      if size3 = 0 then exec_bad pgt size2 None k
      else
        bindR (uvmclear (mem_of k) pgt (size3 - (USERSTACK + 1) * PGSIZE)) (\<lambda>m.
        let k = set_km m k; stackbase = size3 - USERSTACK * PGSIZE in
        bindR (push_args pgt stackbase argv size3 [] k) (\<lambda>(r, k).
        case r of None \<Rightarrow> exec_bad pgt size3 None k
        | Some (stk, ustack) \<Rightarrow>
            let argc = length argv; stk = stk - of_nat ((argc + 1) * 8); stk = stk - stk mod 16 in
            if stk < stackbase then exec_bad pgt size3 None k
            else
              bindR (copyout (mem_of k) pgt stk (concat (map (le_bytes 8) (ustack @ [0])))) (\<lambda>(r, m).
              let k = set_km m k in
              if r < 0 then exec_bad pgt size3 None k else exec_commit pgt size3 entry stk pth argc k)))))"

definition exec :: "u64 \<Rightarrow> u8 list \<Rightarrow> u8 list list \<Rightarrow> kern \<Rightarrow> (int \<times> kern) res" where
  "exec tramp pth argv k =
     bindR (k_begin_op k) (\<lambda>k.
     bindR (onfs2 (namei pth) k) (\<lambda>(ipo, k).
     case ipo of
       None \<Rightarrow> bindR (k_end_op k) (\<lambda>k. Ok (-1, k))
     | Some ip \<Rightarrow>
         bindR (onfs (ilock (Some ip)) k) (\<lambda>k.
         bindR (onfs2 (readi ip (Local 0) 0 64) (set_fs k ((fs k)\<lparr>local := replicate 64 0\<rparr>))) (\<lambda>(r, k).
         let elf = read_elfhdr (local (fs k)) in
         if r \<noteq> 64 then exec_bad 0 0 (Some ip) k
         else if e_magic elf \<noteq> ELF_MAGIC then exec_bad 0 0 (Some ip) k
         else
           bindR (proc_pagetable (mem_of k) tramp (trapframe (myproc k))) (\<lambda>(pgt, m).
           let k = set_km m k in
           if pgt = 0 then exec_bad 0 0 (Some ip) k
           else
             bindR (load_headers (unat (e_phnum elf)) pgt ip (ucast (e_phoff elf)) 0 k) (\<lambda>(r, k).
             case r of
               Inl size1 \<Rightarrow> exec_bad pgt size1 (Some ip) k
             | Inr size1 \<Rightarrow>
                 bindR (onfs (iunlockput ip) k) (\<lambda>k.
                 bindR (k_end_op k) (exec_stack pgt size1 (e_entry elf) pth argv))))))))"

end
