(* ===== verification/Xv6_Syscall.thy ===== *)
theory Xv6_Syscall
  imports Xv6_Exec
begin

text \<open>
  \<^verbatim>\<open>kernel/syscall.c\<close>, \<^verbatim>\<open>kernel/sysproc.c\<close> and \<^verbatim>\<open>kernel/sysfile.c\<close>: fetching arguments from the user, the system calls,
  and the dispatcher with the tracing of calls.  A system call returns the value for register a0; \<^verbatim>\<open>exit\<close> does not
  return, which is \<open>None\<close>.
\<close>

section \<open>Arguments\<close>

definition bytes :: "string \<Rightarrow> u8 list" where
  "bytes t = map of_char t"

definition fetchaddr :: "u64 \<Rightarrow> kern \<Rightarrow> (int \<times> u64) res" where
  "fetchaddr addr k =
     (if addr \<ge> sz (myproc k) \<or> addr + 8 > sz (myproc k) then Ok (-1, 0)
      else bindR (k_copyin addr 8 k) (\<lambda>(r, bs). Ok (if r \<noteq> 0 then -1 else 0, le_word bs)))"

text \<open>The string comes back without the NUL.\<close>

definition fetchstr :: "u64 \<Rightarrow> nat \<Rightarrow> kern \<Rightarrow> (int \<times> u8 list) res" where
  "fetchstr addr mx k =
     bindR (copyinstr (mem_of k) (pagetable (myproc k)) addr mx) (\<lambda>(r, bs).
     Ok (if r < 0 then -1 else int (length (cstr bs)), cstr bs))"

definition argraw :: "nat \<Rightarrow> kern \<Rightarrow> u64 res" where
  "argraw n k = (if n \<le> 5 then Ok (tf_get (tf_a0 + of_nat (8 * n)) k) else Panic ''argraw'')"

definition argint :: "nat \<Rightarrow> kern \<Rightarrow> int res" where
  "argint n k = bindR (argraw n k) (\<lambda>v. Ok (sint (ucast v :: u32)))"

definition argaddr :: "nat \<Rightarrow> kern \<Rightarrow> u64 res" where
  "argaddr n k = argraw n k"

definition argstr :: "nat \<Rightarrow> nat \<Rightarrow> kern \<Rightarrow> (int \<times> u8 list) res" where
  "argstr n mx k = bindR (argaddr n k) (\<lambda>addr. fetchstr addr mx k)"

definition ret :: "int \<Rightarrow> kern \<Rightarrow> (u64 option \<times> kern) res" where
  "ret r k = Ok (Some (word_of_int r), k)"

section \<open>Calls about processes\<close>

definition sys_exit :: "kern \<Rightarrow> (u64 option \<times> kern) res" where
  "sys_exit k = bindR (argint 0 k) (\<lambda>n. bindR (exit n k) (\<lambda>k. Ok (None, k)))"

definition sys_getpid :: "kern \<Rightarrow> (u64 option \<times> kern) res" where
  "sys_getpid k = ret (sint (pid (myproc k))) k"

definition sys_fork :: "u64 \<Rightarrow> u64 \<Rightarrow> kern \<Rightarrow> (u64 option \<times> kern) res" where
  "sys_fork tramp forkret k = bindR (fork tramp forkret k) (\<lambda>(r, k). ret r k)"

definition sys_wait :: "kern \<Rightarrow> (u64 option \<times> kern) res" where
  "sys_wait k = bindR (argaddr 0 k) (\<lambda>p. bindR (wait p k) (\<lambda>(r, k). ret r k))"

definition sys_sbrk :: "kern \<Rightarrow> (u64 option \<times> kern) res" where
  "sys_sbrk k =
     bindR (argint 0 k) (\<lambda>n.
     let addr = sz (myproc k) in
     bindR (growproc (pt (fs k)) (me (fs k)) n) (\<lambda>(r, p).
     Ok (Some (if r < 0 then -1 else addr), set_pt p k)))"

text \<open>One turn of the loop of \<^verbatim>\<open>sys_sleep\<close>: \<open>Some\<close> is the return value, \<open>None\<close> another sleep.\<close>

definition sleep_turn :: "u32 \<Rightarrow> int \<Rightarrow> kern \<Rightarrow> int option" where
  "sleep_turn ticks0 n k =
     (if uint (ticks k - ticks0) < n then (if killed (me (fs k)) (procs (pt (fs k))) then Some (-1) else None) else Some 0)"

definition sys_sleep :: "kern \<Rightarrow> (u64 option \<times> kern) res" where
  "sys_sleep k =
     bindR (argint 0 k) (\<lambda>n.
     case sleep_turn (ticks k) (if n < 0 then 0 else n) k of Some r \<Rightarrow> ret r k | None \<Rightarrow> Sleeps ''ticks'')"

definition sys_kill :: "kern \<Rightarrow> (u64 option \<times> kern) res" where
  "sys_kill k =
     bindR (argint 0 k) (\<lambda>p.
     let (r, ps) = kill (word_of_int p) (procs (pt (fs k))) in ret r (on_procs (\<lambda>_. ps) k))"

definition sys_uptime :: "kern \<Rightarrow> (u64 option \<times> kern) res" where
  "sys_uptime k = Ok (Some (ucast (ticks k)), k)"

definition sys_trace :: "kern \<Rightarrow> (u64 option \<times> kern) res" where
  "sys_trace k = bindR (argint 0 k) (\<lambda>mask. ret 0 (on_procs (upd (me (fs k)) (\<lambda>q. q\<lparr>trace_mask := word_of_int mask\<rparr>)) k))"

definition sys_sysinfo :: "kern \<Rightarrow> (u64 option \<times> kern) res" where
  "sys_sysinfo k =
     bindR (argaddr 0 k) (\<lambda>addr.
     bindR (case kcollect_free (mem_of k) of None \<Rightarrow> Diverges | Some n \<Rightarrow> Ok n) (\<lambda>freemem.
     let ps = procs (pt (fs k)) in
     bindR (k_copyout addr (le_bytes 8 freemem @ le_bytes 8 (kcollect_nproc ps) @ le_bytes 8 (kcollect_load ps)) k) (\<lambda>(r, k).
     ret (if r < 0 then -1 else 0) k)))"

section \<open>Calls about files\<close>

definition argfd :: "nat \<Rightarrow> kern \<Rightarrow> (nat \<times> nat) option res" where
  "argfd n k =
     bindR (argint n k) (\<lambda>fd.
     if fd < 0 \<or> fd \<ge> int NOFILE then Ok None
     else Ok (case ofile (myproc k) ! nat fd of None \<Rightarrow> None | Some f \<Rightarrow> Some (nat fd, f)))"

definition set_ofile :: "nat \<Rightarrow> nat option \<Rightarrow> kern \<Rightarrow> kern" where
  "set_ofile fd f k = on_procs (upd (me (fs k)) (\<lambda>q. q\<lparr>ofile := (ofile q)[fd := f]\<rparr>)) k"

definition fdalloc :: "nat \<Rightarrow> kern \<Rightarrow> nat option \<times> kern" where
  "fdalloc f k =
     (case find (\<lambda>fd. ofile (myproc k) ! fd = None) [0..<NOFILE] of
        None \<Rightarrow> (None, k)
      | Some fd \<Rightarrow> (Some fd, set_ofile fd (Some f) k))"

definition sys_dup :: "kern \<Rightarrow> (u64 option \<times> kern) res" where
  "sys_dup k =
     bindR (argfd 0 k) (\<lambda>r.
     case r of None \<Rightarrow> ret (-1) k
     | Some (_, f) \<Rightarrow>
         (case fdalloc f k of
            (None, k) \<Rightarrow> ret (-1) k
          | (Some fd, k) \<Rightarrow> bindR (filedup f k) (ret (int fd))))"

definition sys_read :: "kern \<Rightarrow> (u64 option \<times> kern) res" where
  "sys_read k =
     bindR (argaddr 1 k) (\<lambda>p. bindR (argint 2 k) (\<lambda>n. bindR (argfd 0 k) (\<lambda>r.
     case r of None \<Rightarrow> ret (-1) k | Some (_, f) \<Rightarrow> bindR (fileread f p n k) (\<lambda>(r, k). ret r k))))"

definition sys_write :: "kern \<Rightarrow> (u64 option \<times> kern) res" where
  "sys_write k =
     bindR (argaddr 1 k) (\<lambda>p. bindR (argint 2 k) (\<lambda>n. bindR (argfd 0 k) (\<lambda>r.
     case r of None \<Rightarrow> ret (-1) k | Some (_, f) \<Rightarrow> bindR (filewrite f p n k) (\<lambda>(r, k). ret r k))))"

definition sys_close :: "kern \<Rightarrow> (u64 option \<times> kern) res" where
  "sys_close k =
     bindR (argfd 0 k) (\<lambda>r.
     case r of None \<Rightarrow> ret (-1) k | Some (fd, f) \<Rightarrow> bindR (fileclose f (set_ofile fd None k)) (ret 0))"

definition sys_fstat :: "kern \<Rightarrow> (u64 option \<times> kern) res" where
  "sys_fstat k =
     bindR (argaddr 1 k) (\<lambda>st. bindR (argfd 0 k) (\<lambda>r.
     case r of None \<Rightarrow> ret (-1) k | Some (_, f) \<Rightarrow> bindR (filestat f st k) (\<lambda>(r, k). ret r k)))"

text \<open>\<^verbatim>\<open>end_op\<close> followed by \<^verbatim>\<open>return r\<close>.\<close>

definition end_ret :: "int \<Rightarrow> kern \<Rightarrow> (u64 option \<times> kern) res" where
  "end_ret r k = bindR (k_end_op k) (ret r)"

definition link_bad :: "nat \<Rightarrow> kern \<Rightarrow> (u64 option \<times> kern) res" where
  "link_bad ip k =
     bindR (onfs (\<lambda>s.
       bindR (ilock (Some ip) s) (\<lambda>s.
       bindR (iupdate ip (upi ip (\<lambda>x. x\<lparr>nlink := nlink x - 1\<rparr>) s)) (iunlockput ip))) k) (end_ret (-1))"

definition sys_link :: "kern \<Rightarrow> (u64 option \<times> kern) res" where
  "sys_link k =
     bindR (argstr 0 MAXPATH k) (\<lambda>(r0, old).
     if r0 < 0 then ret (-1) k
     else bindR (argstr 1 MAXPATH k) (\<lambda>(r1, new).
     if r1 < 0 then ret (-1) k
     else bindR (k_begin_op k) (\<lambda>k.
     bindR (onfs2 (namei old) k) (\<lambda>(ipo, k).
     case ipo of None \<Rightarrow> end_ret (-1) k
     | Some ip \<Rightarrow>
         bindR (onfs (ilock (Some ip)) k) (\<lambda>k.
         if itype (itable (fs k) ip) = T_DIR then bindR (onfs (iunlockput ip) k) (end_ret (-1))
         else
           bindR (onfs (\<lambda>s. bindR (iupdate ip (upi ip (\<lambda>x. x\<lparr>nlink := nlink x + 1\<rparr>) s)) (iunlock (Some ip))) k) (\<lambda>k.
           bindR (onfs2 (\<lambda>s. bindR (nameiparent new s) (\<lambda>(d, name, s). Ok ((d, name), s))) k) (\<lambda>((dpo, name), k).
           case dpo of None \<Rightarrow> link_bad ip k
           | Some dp \<Rightarrow>
               bindR (onfs (ilock (Some dp)) k) (\<lambda>k.
               bindR (if idev (itable (fs k) dp) \<noteq> idev (itable (fs k) ip) then Ok (-1, k)
                      else onfs2 (dirlink dp name (inum (itable (fs k) ip))) k) (\<lambda>(r, k).
               if r < 0 then bindR (onfs (iunlockput dp) k) (link_bad ip)
               else bindR (onfs (iunlockput dp) k) (\<lambda>k. bindR (onfs (iput ip) k) (end_ret 0)))))))))))"

fun isdirempty_from :: "nat \<Rightarrow> nat list \<Rightarrow> fsys \<Rightarrow> (bool \<times> fsys) res" where
  "isdirempty_from dp [] s = Ok (True, s)"
| "isdirempty_from dp (off # offs) s =
     bindR (readi dp (Local 0) (of_nat off) 16 s) (\<lambda>(r, s).
     if r \<noteq> 16 then Panic ''isdirempty: readi''
     else if de_inum (local s) \<noteq> 0 then Ok (False, s) else isdirempty_from dp offs s)"

definition isdirempty :: "nat \<Rightarrow> fsys \<Rightarrow> (bool \<times> fsys) res" where
  "isdirempty dp s = isdirempty_from dp (drop 2 (dir_offsets (isize (itable s dp)))) (s\<lparr>local := replicate 16 0\<rparr>)"

definition unlink_bad :: "nat \<Rightarrow> kern \<Rightarrow> (u64 option \<times> kern) res" where
  "unlink_bad dp k = bindR (onfs (iunlockput dp) k) (end_ret (-1))"

definition unlink_entry :: "nat \<Rightarrow> nat \<Rightarrow> nat \<Rightarrow> fsys \<Rightarrow> fsys res" where
  "unlink_entry dp ip off s =
     bindR (writei dp (Local 0) (of_nat off) 16 (s\<lparr>local := replicate 16 0\<rparr>)) (\<lambda>(r, s).
     if r \<noteq> 16 then Panic ''unlink: writei''
     else
       bindR (if itype (itable s ip) = T_DIR then iupdate dp (upi dp (\<lambda>x. x\<lparr>nlink := nlink x - 1\<rparr>) s) else Ok s) (\<lambda>s.
       bindR (iunlockput dp s) (\<lambda>s.
       bindR (iupdate ip (upi ip (\<lambda>x. x\<lparr>nlink := nlink x - 1\<rparr>) s)) (iunlockput ip))))"

definition sys_unlink :: "kern \<Rightarrow> (u64 option \<times> kern) res" where
  "sys_unlink k =
     bindR (argstr 0 MAXPATH k) (\<lambda>(r, pth).
     if r < 0 then ret (-1) k
     else bindR (k_begin_op k) (\<lambda>k.
     bindR (onfs2 (\<lambda>s. bindR (nameiparent pth s) (\<lambda>(d, name, s). Ok ((d, name), s))) k) (\<lambda>((dpo, name), k).
     case dpo of None \<Rightarrow> end_ret (-1) k
     | Some dp \<Rightarrow>
         bindR (onfs (ilock (Some dp)) k) (\<lambda>k.
         if namecmp name [46] = 0 \<or> namecmp name [46, 46] = 0 then unlink_bad dp k
         else
           bindR (onfs2 (dirlookup dp name) k) (\<lambda>(found, k).
           case found of None \<Rightarrow> unlink_bad dp k
           | Some (ip, off) \<Rightarrow>
               bindR (onfs (ilock (Some ip)) k) (\<lambda>k.
               if sint (nlink (itable (fs k) ip)) < 1 then Panic ''unlink: nlink < 1''
               else
                 bindR (if itype (itable (fs k) ip) = T_DIR then onfs2 (isdirempty ip) k else Ok (True, k)) (\<lambda>(empty, k).
                 if \<not> empty then bindR (onfs (iunlockput ip) k) (unlink_bad dp)
                 else bindR (onfs (unlink_entry dp ip off) k) (end_ret 0))))))))"

definition create_fail :: "nat \<Rightarrow> nat \<Rightarrow> fsys \<Rightarrow> (nat option \<times> fsys) res" where
  "create_fail ip dp s =
     bindR (iupdate ip (upi ip (\<lambda>x. x\<lparr>nlink := 0\<rparr>) s)) (\<lambda>s.
     bindR (iunlockput ip s) (\<lambda>s. bindR (iunlockput dp s) (\<lambda>s. Ok (None, s))))"

definition create_dots :: "nat \<Rightarrow> nat \<Rightarrow> fsys \<Rightarrow> (int \<times> fsys) res" where
  "create_dots ip dp s =
     bindR (dirlink ip [46] (inum (itable s ip)) s) (\<lambda>(r, s).
     if r < 0 then Ok (-1, s) else dirlink ip [46, 46] (inum (itable s dp)) s)"

definition create_new :: "nat \<Rightarrow> u8 list \<Rightarrow> u16 \<Rightarrow> u16 \<Rightarrow> u16 \<Rightarrow> fsys \<Rightarrow> (nat option \<times> fsys) res" where
  "create_new dp name ty mj mn s =
     bindR (ialloc (idev (itable s dp)) ty s) (\<lambda>(ipo, s).
     case ipo of None \<Rightarrow> bindR (iunlockput dp s) (\<lambda>s. Ok (None, s))
     | Some ip \<Rightarrow>
         bindR (ilock (Some ip) s) (\<lambda>s.
         bindR (iupdate ip (upi ip (\<lambda>x. x\<lparr>major := mj, minor := mn, nlink := 1\<rparr>) s)) (\<lambda>s.
         bindR (if ty = T_DIR then create_dots ip dp s else Ok (0, s)) (\<lambda>(r, s).
         if r < 0 then create_fail ip dp s
         else
           bindR (dirlink dp name (inum (itable s ip)) s) (\<lambda>(r, s).
           if r < 0 then create_fail ip dp s
           else
             bindR (if ty = T_DIR then iupdate dp (upi dp (\<lambda>x. x\<lparr>nlink := nlink x + 1\<rparr>) s) else Ok s) (\<lambda>s.
             bindR (iunlockput dp s) (\<lambda>s. Ok (Some ip, s))))))))"

definition create :: "u8 list \<Rightarrow> u16 \<Rightarrow> u16 \<Rightarrow> u16 \<Rightarrow> fsys \<Rightarrow> (nat option \<times> fsys) res" where
  "create pth ty mj mn s =
     bindR (nameiparent pth s) (\<lambda>(dpo, name, s).
     case dpo of None \<Rightarrow> Ok (None, s)
     | Some dp \<Rightarrow>
         bindR (ilock (Some dp) s) (\<lambda>s.
         bindR (dirlookup dp name s) (\<lambda>(found, s).
         case found of
           Some (ip, _) \<Rightarrow>
             bindR (iunlockput dp s) (\<lambda>s.
             bindR (ilock (Some ip) s) (\<lambda>s.
             if ty = T_FILE \<and> (itype (itable s ip) = T_FILE \<or> itype (itable s ip) = T_DEVICE) then Ok (Some ip, s)
             else bindR (iunlockput ip s) (\<lambda>s. Ok (None, s))))
         | None \<Rightarrow> create_new dp name ty mj mn s)))"

text \<open>The flags of \<^verbatim>\<open>kernel/fcntl.h\<close>.\<close>

abbreviation (input) O_RDONLY :: u32 where "O_RDONLY \<equiv> 0"
abbreviation (input) O_WRONLY :: u32 where "O_WRONLY \<equiv> 1"
abbreviation (input) O_RDWR :: u32 where "O_RDWR \<equiv> 2"
abbreviation (input) O_CREATE :: u32 where "O_CREATE \<equiv> 0x200"
abbreviation (input) O_TRUNC :: u32 where "O_TRUNC \<equiv> 0x400"

text \<open>The inode that is opened comes back locked.\<close>

definition open_inode :: "u8 list \<Rightarrow> u32 \<Rightarrow> fsys \<Rightarrow> (nat option \<times> fsys) res" where
  "open_inode pth omode s =
     (if omode AND O_CREATE \<noteq> 0 then create pth T_FILE 0 0 s
      else
        bindR (namei pth s) (\<lambda>(ipo, s).
        case ipo of None \<Rightarrow> Ok (None, s)
        | Some ip \<Rightarrow>
            bindR (ilock (Some ip) s) (\<lambda>s.
            if itype (itable s ip) = T_DIR \<and> omode \<noteq> O_RDONLY then bindR (iunlockput ip s) (\<lambda>s. Ok (None, s))
            else Ok (Some ip, s))))"

definition open_file :: "nat \<Rightarrow> nat \<Rightarrow> u32 \<Rightarrow> kern \<Rightarrow> kern" where
  "open_file f ip omode k =
     (let x = itable (fs k) ip;
          k = (if itype x = T_DEVICE then updfile f (\<lambda>y. y\<lparr>ftyp := FD_DEVICE, fmajor := major x\<rparr>) k
               else updfile f (\<lambda>y. y\<lparr>ftyp := FD_INODE, foff := 0\<rparr>) k)
      in updfile f (\<lambda>y. y\<lparr>fip := Some ip, readable := (omode AND O_WRONLY = 0),
           writable := (omode AND O_WRONLY \<noteq> 0 \<or> omode AND O_RDWR \<noteq> 0)\<rparr>) k)"

definition sys_open :: "kern \<Rightarrow> (u64 option \<times> kern) res" where
  "sys_open k =
     bindR (argint 1 k) (\<lambda>om.
     bindR (argstr 0 MAXPATH k) (\<lambda>(n, pth).
     if n < 0 then ret (-1) k
     else
       let omode = word_of_int om in
       bindR (k_begin_op k) (\<lambda>k.
       bindR (onfs2 (open_inode pth omode) k) (\<lambda>(ipo, k).
       case ipo of None \<Rightarrow> end_ret (-1) k
       | Some ip \<Rightarrow>
           let x = itable (fs k) ip in
           if itype x = T_DEVICE \<and> (sint (major x) < 0 \<or> sint (major x) \<ge> int NDEV)
           then bindR (onfs (iunlockput ip) k) (end_ret (-1))
           else
             (case filealloc k of
                (None, k) \<Rightarrow> bindR (onfs (iunlockput ip) k) (end_ret (-1))
              | (Some f, k) \<Rightarrow>
                  (case fdalloc f k of
                     (None, k) \<Rightarrow> bindR (fileclose f k) (\<lambda>k. bindR (onfs (iunlockput ip) k) (end_ret (-1)))
                   | (Some fd, k) \<Rightarrow>
                       let k = open_file f ip omode k in
                       bindR (if omode AND O_TRUNC \<noteq> 0 \<and> itype (itable (fs k) ip) = T_FILE then onfs (itrunc ip) k else Ok k) (\<lambda>k.
                       bindR (onfs (iunlock (Some ip)) k) (end_ret (int fd)))))))))"

definition sys_mkdir :: "kern \<Rightarrow> (u64 option \<times> kern) res" where
  "sys_mkdir k =
     bindR (k_begin_op k) (\<lambda>k.
     bindR (argstr 0 MAXPATH k) (\<lambda>(r, pth).
     if r < 0 then end_ret (-1) k
     else bindR (onfs2 (create pth T_DIR 0 0) k) (\<lambda>(ipo, k).
     case ipo of None \<Rightarrow> end_ret (-1) k | Some ip \<Rightarrow> bindR (onfs (iunlockput ip) k) (end_ret 0))))"

definition sys_mknod :: "kern \<Rightarrow> (u64 option \<times> kern) res" where
  "sys_mknod k =
     bindR (k_begin_op k) (\<lambda>k.
     bindR (argint 1 k) (\<lambda>mj. bindR (argint 2 k) (\<lambda>mn.
     bindR (argstr 0 MAXPATH k) (\<lambda>(r, pth).
     if r < 0 then end_ret (-1) k
     else bindR (onfs2 (create pth T_DEVICE (word_of_int mj) (word_of_int mn)) k) (\<lambda>(ipo, k).
     case ipo of None \<Rightarrow> end_ret (-1) k | Some ip \<Rightarrow> bindR (onfs (iunlockput ip) k) (end_ret 0))))))"

definition sys_chdir :: "kern \<Rightarrow> (u64 option \<times> kern) res" where
  "sys_chdir k =
     bindR (k_begin_op k) (\<lambda>k.
     bindR (argstr 0 MAXPATH k) (\<lambda>(r, pth).
     if r < 0 then end_ret (-1) k
     else bindR (onfs2 (namei pth) k) (\<lambda>(ipo, k).
     case ipo of None \<Rightarrow> end_ret (-1) k
     | Some ip \<Rightarrow>
         bindR (onfs (ilock (Some ip)) k) (\<lambda>k.
         if itype (itable (fs k) ip) \<noteq> T_DIR then bindR (onfs (iunlockput ip) k) (end_ret (-1))
         else
           bindR (onfs (iunlock (Some ip)) k) (\<lambda>k.
           bindR (case cwd (myproc k) of None \<Rightarrow> Panic ''kerneltrap'' | Some c \<Rightarrow> onfs (iput c) k) (\<lambda>k.
           bindR (k_end_op k) (\<lambda>k. ret 0 (on_procs (upd (me (fs k)) (\<lambda>q. q\<lparr>cwd := Some ip\<rparr>)) k))))))))"

text \<open>
  The loop of \<^verbatim>\<open>sys_exec\<close> collects the arguments, each in a page of its own: the result says whether all went
  well, with the pages and the strings.
\<close>

primrec exec_args :: "nat \<Rightarrow> u64 \<Rightarrow> nat \<Rightarrow> u64 list \<Rightarrow> u8 list list \<Rightarrow> kern \<Rightarrow> (bool \<times> u64 list \<times> u8 list list \<times> kern) res" where
  "exec_args 0 uargv i pages argv k = Ok (False, pages, argv, k)"
| "exec_args (Suc left) uargv i pages argv k =
     bindR (fetchaddr (uargv + of_nat (8 * i)) k) (\<lambda>(r, uarg).
     if r < 0 then Ok (False, pages, argv, k)
     else if uarg = 0 then Ok (True, pages, argv, k)
     else
       let (pg, m) = kalloc (mem_of k); k = set_km m k in
       if pg = 0 then Ok (False, pages, argv, k)
       else
         bindR (fetchstr uarg 4096 k) (\<lambda>(r, str).
         let k = on_mem (\<lambda>m. write_bytes m pg (if r < 0 then str else str @ [0])) k in
         if r < 0 then Ok (False, pages @ [pg], argv, k)
         else exec_args left uargv (Suc i) (pages @ [pg]) (argv @ [str]) k))"

definition free_args :: "u64 list \<Rightarrow> kern \<Rightarrow> kern res" where
  "free_args pages k = forR pages (\<lambda>pg k. bindR (kfree (mem_of k) pg) (\<lambda>m. Ok (set_km m k))) k"

definition sys_exec :: "u64 \<Rightarrow> kern \<Rightarrow> (u64 option \<times> kern) res" where
  "sys_exec tramp k =
     bindR (argaddr 1 k) (\<lambda>uargv.
     bindR (argstr 0 MAXPATH k) (\<lambda>(r, pth).
     if r < 0 then ret (-1) k
     else
       bindR (exec_args MAXARG uargv 0 [] [] k) (\<lambda>(good, pages, argv, k).
       if good then bindR (exec tramp pth argv k) (\<lambda>(r, k). bindR (free_args pages k) (ret r))
       else bindR (free_args pages k) (ret (-1)))))"

definition pipe_undo :: "nat \<Rightarrow> nat \<Rightarrow> kern \<Rightarrow> (u64 option \<times> kern) res" where
  "pipe_undo rd_f wr_f k = bindR (fileclose rd_f k) (\<lambda>k. bindR (fileclose wr_f k) (ret (-1)))"

definition sys_pipe :: "kern \<Rightarrow> (u64 option \<times> kern) res" where
  "sys_pipe k =
     bindR (argaddr 0 k) (\<lambda>fdarray.
     bindR (pipealloc k) (\<lambda>(r, k).
     case r of None \<Rightarrow> ret (-1) k
     | Some (rd_f, wr_f) \<Rightarrow>
         (case fdalloc rd_f k of
            (None, k) \<Rightarrow> pipe_undo rd_f wr_f k
          | (Some fd0, k) \<Rightarrow>
              (case fdalloc wr_f k of
                 (None, k) \<Rightarrow> pipe_undo rd_f wr_f (set_ofile fd0 None k)
               | (Some fd1, k) \<Rightarrow>
                   bindR (k_copyout fdarray (le_bytes 4 (of_nat fd0 :: u32)) k) (\<lambda>(r0, k).
                   bindR (if r0 < 0 then Ok (-1, k) else k_copyout (fdarray + 4) (le_bytes 4 (of_nat fd1 :: u32)) k) (\<lambda>(r1, k).
                   if r1 < 0 then pipe_undo rd_f wr_f (set_ofile fd1 None (set_ofile fd0 None k)) else ret 0 k))))))"

section \<open>Dispatch\<close>

text \<open>\<open>tramp\<close> and \<open>forkret\<close> are the addresses of the symbols \<^verbatim>\<open>trampoline\<close> and \<^verbatim>\<open>forkret\<close>.\<close>

definition syscalls :: "u64 \<Rightarrow> u64 \<Rightarrow> nat \<Rightarrow> (kern \<Rightarrow> (u64 option \<times> kern) res) option" where
  "syscalls tramp forkret num =
     map_of (enumerate 1
       [sys_fork tramp forkret, sys_exit, sys_wait, sys_pipe, sys_read, sys_kill, sys_exec tramp, sys_fstat, sys_chdir, sys_dup,
        sys_getpid, sys_sbrk, sys_sleep, sys_uptime, sys_open, sys_write, sys_mknod, sys_unlink, sys_link, sys_mkdir, sys_close,
        sys_trace, sys_sysinfo]) num"

definition syscall_names :: "string list" where
  "syscall_names = ['''', ''fork'', ''exit'', ''wait'', ''pipe'', ''read'', ''kill'', ''exec'', ''fstat'', ''chdir'', ''dup'', ''getpid'',
     ''sbrk'', ''sleep'', ''uptime'', ''open'', ''write'', ''mknod'', ''unlink'', ''link'', ''mkdir'', ''close'', ''trace'', ''sysinfo'']"

definition syscall_argc :: "nat list" where
  "syscall_argc = [0, 0, 1, 1, 1, 3, 1, 2, 2, 1, 1, 0, 1, 1, 0, 2, 3, 3, 1, 2, 1, 1, 1, 1]"

definition k_printf :: "string \<Rightarrow> fmtarg list \<Rightarrow> kern \<Rightarrow> kern res" where
  "k_printf fmt as k = bindR (printf (bytes fmt) as (con k)) (\<lambda>c. Ok (k\<lparr>con := c\<rparr>))"

definition print_arg :: "u64 list \<Rightarrow> nat \<Rightarrow> nat \<Rightarrow> kern \<Rightarrow> kern res" where
  "print_arg args n i k =
     bindR (k_printf ''%d'' [Arg_int (args ! i)] k) (\<lambda>k. if i + 1 < n then k_printf '' '' [] k else Ok k)"

definition trace_call :: "nat \<Rightarrow> u64 list \<Rightarrow> kern \<Rightarrow> kern res" where
  "trace_call num args k =
     bindR (k_printf ''%d: syscall %s('' [Arg_int (ucast (pid (myproc k))), Arg_str (Some (bytes (syscall_names ! num)))] k) (\<lambda>k.
     bindR (forR [0..<syscall_argc ! num] (print_arg args (syscall_argc ! num)) k) (\<lambda>k.
     k_printf ('') -> %d'' @ [CHR 0x0A]) [Arg_int (tf_get tf_a0 k)] k))"

text \<open>The result says whether the process is still there.\<close>

definition syscall :: "u64 \<Rightarrow> u64 \<Rightarrow> kern \<Rightarrow> (bool \<times> kern) res" where
  "syscall tramp forkret k =
     (let num = sint (ucast (tf_get tf_a7 k) :: u32) in
      case (if num > 0 \<and> num < 24 then syscalls tramp forkret (nat num) else None) of
        Some f \<Rightarrow>
          (let args = map (\<lambda>i. tf_get (tf_a0 + of_nat (8 * i)) k) [0..<6] in
           bindR (f k) (\<lambda>(r, k).
           case r of None \<Rightarrow> Ok (False, k)
           | Some v \<Rightarrow>
               let k = tf_put tf_a0 v k in
               bindR (if bit (trace_mask (myproc k)) (nat num) then trace_call (nat num) args k else Ok k) (\<lambda>k. Ok (True, k))))
      | None \<Rightarrow>
          bindR (k_printf (''%d %s: unknown sys call %d'' @ [CHR 0x0A])
            [Arg_int (ucast (pid (myproc k))), Arg_str (Some (cstr (pname (myproc k)))), Arg_int (word_of_int num)] k) (\<lambda>k.
          Ok (True, tf_put tf_a0 (-1) k)))"

end
