(* ===== verification/Xv6_Virtio.thy ===== *)
theory Xv6_Virtio
  imports Xv6_Bio
begin

text \<open>
  \<^verbatim>\<open>kernel/virtio_disk.c\<close>: the driver of the virtio block device.  Addresses that the driver puts into descriptors
  are named by what they point to: a request header \<^verbatim>\<open>ops[i]\<close>, the data of a buffer, or a status byte.
  \<open>avail_idx\<close>, \<open>avail_ring\<close>, \<open>used_dev\<close> (the \<^verbatim>\<open>idx\<close> of the used ring) and \<open>used_ring\<close> lie in memory shared with
  the device.  \<open>bdisk b\<close> is \<^verbatim>\<open>b->disk\<close>.

  \<^verbatim>\<open>virtio_disk_rw\<close> sleeps twice.  \<open>rw_start\<close> is its part up to the notification of the device, or up to the
  sleep for want of descriptors; \<open>rw_end\<close> is the part after the wait for the completion.

  The registers of the device are read through a parameter \<open>mmio ws r\<close>: the value of register \<open>r\<close> after the
  writes \<open>ws\<close>.  The device itself is a parameter, and \<open>serves\<close> is what the virtio specification says that it
  does with a chain of three descriptors.
\<close>

abbreviation (input) NUM :: nat where "NUM \<equiv> 8"
abbreviation (input) DESC_F_NEXT :: u16 where "DESC_F_NEXT \<equiv> 1"
abbreviation (input) DESC_F_WRITE :: u16 where "DESC_F_WRITE \<equiv> 2"
abbreviation (input) BLK_T_IN :: u32 where "BLK_T_IN \<equiv> 0"
abbreviation (input) BLK_T_OUT :: u32 where "BLK_T_OUT \<equiv> 1"

datatype vptr = Null | Op nat | Bufdata nat | Status nat

record vdesc =
  da :: vptr
  dl :: u32
  dfl :: u16
  dnx :: u16

record vdisk =
  desc :: "nat \<Rightarrow> vdesc"
  avail_idx :: u16
  avail_ring :: "nat \<Rightarrow> u16"
  used_dev :: u16
  used_ring :: "nat \<Rightarrow> u32"
  dfree :: "nat \<Rightarrow> bool"
  used_idx :: u16
  info_b :: "nat \<Rightarrow> nat option"
  info_status :: "nat \<Rightarrow> u8"
  ops :: "nat \<Rightarrow> u32 \<times> u64"
  bdisk :: "nat \<Rightarrow> bool"
  vwoken :: "chan list"

section \<open>Initialisation\<close>

type_synonym mmio = "(nat \<times> u32) list \<Rightarrow> nat \<Rightarrow> u32"

definition wanted_features :: "u32 \<Rightarrow> u32" where
  "wanted_features f =
     f AND NOT (push_bit 5 1) AND NOT (push_bit 7 1) AND NOT (push_bit 11 1) AND NOT (push_bit 12 1) AND NOT (push_bit 27 1)
       AND NOT (push_bit 29 1) AND NOT (push_bit 28 1)"

text \<open>The result is the list of writes to registers, oldest first, the driver's state, and the allocator.\<close>

definition virtio_disk_init :: "mmio \<Rightarrow> vdisk \<Rightarrow> kmem \<Rightarrow> ((nat \<times> u32) list \<times> vdisk \<times> kmem) res" where
  "virtio_disk_init mmio v m =
     (if mmio [] 0x000 \<noteq> 0x74726976 \<or> mmio [] 0x004 \<noteq> 2 \<or> mmio [] 0x008 \<noteq> 2 \<or> mmio [] 0x00c \<noteq> 0x554d4551
      then Panic ''could not find virtio disk''
      else
        let ws = [(0x070, 0), (0x070, 1), (0x070, 3)];
            ws = ws @ [(0x020, wanted_features (mmio ws 0x010)), (0x070, 11)];
            status = mmio ws 0x070 in
        if status AND 8 = 0 then Panic ''virtio disk FEATURES_OK unset''
        else
          let ws = ws @ [(0x030, 0)] in
          if mmio ws 0x044 \<noteq> 0 then Panic ''virtio disk should not be ready''
          else if mmio ws 0x034 = 0 then Panic ''virtio disk has no queue 0''
          else if mmio ws 0x034 < of_nat NUM then Panic ''virtio disk max queue too short''
          else
            let (d, m) = kalloc m; (a, m) = kalloc m; (u, m) = kalloc m in
            if d = 0 \<or> a = 0 \<or> u = 0 then Panic ''virtio disk kalloc''
            else
              let mm = memset (memset (memset (mem m) d 0 4096) a 0 4096) u 0 4096;
                  zero = \<lparr>da = Null, dl = 0, dfl = 0, dnx = 0\<rparr>;
                  ws = ws @ [(0x038, of_nat NUM), (0x080, ucast d), (0x084, ucast (drop_bit 32 d)), (0x090, ucast a),
                         (0x094, ucast (drop_bit 32 a)), (0x0a0, ucast u), (0x0a4, ucast (drop_bit 32 u)), (0x044, 1),
                         (0x070, status OR 4)]
              in Ok (ws, v\<lparr>desc := (\<lambda>_. zero), avail_idx := 0, avail_ring := (\<lambda>_. 0), used_dev := 0, used_ring := (\<lambda>_. 0),
                   dfree := (\<lambda>i. i < NUM)\<rparr>, m\<lparr>mem := mm\<rparr>))"

section \<open>Descriptors\<close>

definition alloc_desc :: "vdisk \<Rightarrow> nat option \<times> vdisk" where
  "alloc_desc v =
     (case find (dfree v) [0..<NUM] of None \<Rightarrow> (None, v) | Some i \<Rightarrow> (Some i, v\<lparr>dfree := (dfree v)(i := False)\<rparr>))"

definition free_desc :: "nat \<Rightarrow> vdisk \<Rightarrow> vdisk res" where
  "free_desc i v =
     (if i \<ge> NUM then Panic ''free_desc 1''
      else if dfree v i then Panic ''free_desc 2''
      else Ok (v\<lparr>desc := (desc v)(i := \<lparr>da = Null, dl = 0, dfl = 0, dnx = 0\<rparr>), dfree := (dfree v)(i := True),
             vwoken := vwoken v @ [Chan_disk_free]\<rparr>))"

definition busy :: "vdisk \<Rightarrow> nat set" where
  "busy v = {i. i < NUM \<and> \<not> dfree v i}"

lemma free_desc_busy: "free_desc i v = Ok v' \<Longrightarrow> busy v' = busy v - {i} \<and> i \<in> busy v"
  by (auto simp: free_desc_def busy_def split: if_splits)

lemma finite_busy [simp]: "finite (busy v)"
  by (simp add: busy_def)

lemma free_desc_card: "free_desc i v = Ok v' \<Longrightarrow> card (busy v') < card (busy v)"
  using free_desc_busy [of i v v'] by (intro psubset_card_mono) auto

function free_chain :: "nat \<Rightarrow> vdisk \<Rightarrow> vdisk res" where
  "free_chain i v =
     (let flag = dfl (desc v i); nx = dnx (desc v i) in
      bindR (free_desc i v) (\<lambda>v. if flag AND DESC_F_NEXT \<noteq> 0 then free_chain (unat nx) v else Ok v))"
  by pat_completeness auto
termination
  by (relation "measure (\<lambda>(i, v). card (busy v))") (auto simp: free_desc_card)

declare free_chain.simps [simp del]

definition alloc3_desc :: "vdisk \<Rightarrow> ((nat \<times> nat \<times> nat) option \<times> vdisk) res" where
  "alloc3_desc v =
     (case alloc_desc v of
        (None, v) \<Rightarrow> Ok (None, v)
      | (Some i, v) \<Rightarrow>
          (case alloc_desc v of
             (None, v) \<Rightarrow> bindR (free_desc i v) (\<lambda>v. Ok (None, v))
           | (Some j, v) \<Rightarrow>
               (case alloc_desc v of
                  (None, v) \<Rightarrow> bindR (free_desc i v) (\<lambda>v. bindR (free_desc j v) (\<lambda>v. Ok (None, v)))
                | (Some l, v) \<Rightarrow> Ok (Some (i, j, l), v))))"

section \<open>Requests\<close>

definition post :: "nat \<Rightarrow> u32 \<Rightarrow> bool \<Rightarrow> nat \<times> nat \<times> nat \<Rightarrow> vdisk \<Rightarrow> vdisk" where
  "post b n wr = (\<lambda>(i, j, l) v.
     let sector = ucast (n * 2);
         v = v\<lparr>ops := (ops v)(i := (if wr then BLK_T_OUT else BLK_T_IN, sector))\<rparr>;
         v = v\<lparr>desc := (desc v)(i := \<lparr>da = Op i, dl = 16, dfl = DESC_F_NEXT, dnx = of_nat j\<rparr>)\<rparr>;
         v = v\<lparr>desc := (desc v)(j := \<lparr>da = Bufdata b, dl = of_nat BSIZE,
                  dfl = (if wr then 0 else DESC_F_WRITE) OR DESC_F_NEXT, dnx = of_nat l\<rparr>)\<rparr>;
         v = v\<lparr>info_status := (info_status v)(i := 0xff),
               desc := (desc v)(l := \<lparr>da = Status i, dl = 1, dfl = DESC_F_WRITE, dnx = 0\<rparr>)\<rparr>;
         v = v\<lparr>bdisk := (bdisk v)(b := True), info_b := (info_b v)(i := Some b)\<rparr>;
         v = v\<lparr>avail_ring := (avail_ring v)(unat (avail_idx v) mod NUM := of_nat i)\<rparr>
     in v\<lparr>avail_idx := avail_idx v + 1\<rparr>)"

definition rw_start :: "nat \<Rightarrow> u32 \<Rightarrow> bool \<Rightarrow> vdisk \<Rightarrow> (nat option \<times> vdisk) res" where
  "rw_start b n wr v =
     bindR (alloc3_desc v) (\<lambda>(r, v).
     case r of None \<Rightarrow> Ok (None, v) | Some (i, j, l) \<Rightarrow> Ok (Some i, post b n wr (i, j, l) v))"

definition rw_end :: "nat \<Rightarrow> vdisk \<Rightarrow> vdisk res" where
  "rw_end i v = free_chain i (v\<lparr>info_b := (info_b v)(i := None)\<rparr>)"

lemma unat_dist_less: "(a :: 'a::len word) \<noteq> b \<Longrightarrow> unat (a - (b + 1)) < unat (a - b)"
proof -
  assume "a \<noteq> b"
  then have "a - b \<noteq> 0" by simp
  then have "unat (a - b - 1) < unat (a - b)" by (simp add: unat_minus_one unat_gt_0)
  then show ?thesis by (simp add: algebra_simps)
qed

function virtio_disk_intr :: "vdisk \<Rightarrow> vdisk res" where
  "virtio_disk_intr v =
     (if used_idx v \<noteq> used_dev v then
        (let i = unat (used_ring v (unat (used_idx v) mod NUM)) in
         if info_status v i \<noteq> 0 then Panic ''virtio_disk_intr status''
         else
           case info_b v i of None \<Rightarrow> Panic ''kerneltrap''
           | Some b \<Rightarrow>
               virtio_disk_intr (v\<lparr>bdisk := (bdisk v)(b := False), vwoken := vwoken v @ [Chan_disk_buf b], used_idx := used_idx v + 1\<rparr>))
      else Ok v)"
  by pat_completeness auto

termination
  by (relation "measure (\<lambda>v. unat (used_dev v - used_idx v))") (auto simp: unat_dist_less)

declare virtio_disk_intr.simps [simp del]

section \<open>The device\<close>

text \<open>
  \<open>hw v s i\<close> is the state of the driver's memory and of the buffers and the disk after the device has served
  the chain that starts at descriptor \<open>i\<close>: it has moved the block in the direction that the header says, written 0 to the
  status byte, and added the chain to the used ring.
\<close>

definition chain :: "vdisk \<Rightarrow> nat \<Rightarrow> nat \<Rightarrow> nat \<Rightarrow> nat \<Rightarrow> bool \<Rightarrow> bool" where
  "chain v b i j l wr \<longleftrightarrow>
     desc v i = \<lparr>da = Op i, dl = 16, dfl = DESC_F_NEXT, dnx = of_nat j\<rparr> \<and>
     desc v j = \<lparr>da = Bufdata b, dl = of_nat BSIZE, dfl = (if wr then 0 else DESC_F_WRITE) OR DESC_F_NEXT, dnx = of_nat l\<rparr> \<and>
     desc v l = \<lparr>da = Status i, dl = 1, dfl = DESC_F_WRITE, dnx = 0\<rparr>"

type_synonym vdevice = "vdisk \<Rightarrow> bio \<Rightarrow> nat \<Rightarrow> vdisk \<times> bio"

definition serves :: "vdevice \<Rightarrow> bool" where
  "serves hw \<longleftrightarrow>
     (\<forall>v s b i j l wr sector. j < NUM \<and> chain v b i j l wr \<and> ops v i = (if wr then BLK_T_OUT else BLK_T_IN, sector) \<longrightarrow>
        hw v s i =
          (v\<lparr>info_status := (info_status v)(i := 0), used_ring := (used_ring v)(unat (used_dev v) mod NUM := of_nat i),
             used_dev := used_dev v + 1\<rparr>,
           let n = ucast (drop_bit 1 sector) in
           if wr then s\<lparr>disk := (disk s)(n := data (bufs s b)), writes := writes s @ [(n, data (bufs s b))]\<rparr>
           else updb b (\<lambda>x. x\<lparr>data := disk s n\<rparr>) s))"

section \<open>A request from start to end\<close>

lemma find_upt_Some: "find P [0..<n] = Some i \<Longrightarrow> i < n \<and> P i"
  by (auto simp: find_Some_iff)

lemma alloc_desc_ok:
  assumes "busy v \<noteq> {..<NUM}"
  shows "\<exists>i. alloc_desc v = (Some i, v\<lparr>dfree := (dfree v)(i := False)\<rparr>) \<and> i < NUM \<and> dfree v i"
proof (cases "find (dfree v) [0..<NUM]")
  case None
  then show ?thesis using assms by (auto simp: find_None_iff busy_def)
next
  case (Some i)
  then show ?thesis using find_upt_Some [OF Some] by (simp add: alloc_desc_def)
qed

lemma busy_alloc: "i < NUM \<Longrightarrow> busy (v\<lparr>dfree := (dfree v)(i := False)\<rparr>) = insert i (busy v)"
  by (auto simp: busy_def)

lemma alloc3_ok:
  assumes "card (busy v) + 3 \<le> NUM"
  shows "\<exists>i j l. alloc3_desc v = Ok (Some (i, j, l), v\<lparr>dfree := (dfree v)(i := False, j := False, l := False)\<rparr>) \<and>
    i < NUM \<and> j < NUM \<and> l < NUM \<and> i \<noteq> j \<and> i \<noteq> l \<and> j \<noteq> l \<and> dfree v i \<and> dfree v j \<and> dfree v l"
proof -
  have room: "busy w \<noteq> {..<NUM}" if "card (busy w) < NUM" for w using that by (metis card_lessThan less_irrefl)
  obtain i where i: "alloc_desc v = (Some i, v\<lparr>dfree := (dfree v)(i := False)\<rparr>)" "i < NUM" "dfree v i"
    using alloc_desc_ok [OF room, of v] assms by auto
  let ?v1 = "v\<lparr>dfree := (dfree v)(i := False)\<rparr>"
  have b1: "card (busy ?v1) < NUM - 1" using busy_alloc [OF i(2), of v] assms card_insert_le_m1 by (simp add: card_insert_if)
  obtain j where j: "alloc_desc ?v1 = (Some j, ?v1\<lparr>dfree := (dfree ?v1)(j := False)\<rparr>)" "j < NUM" "dfree ?v1 j"
    using alloc_desc_ok [OF room, of ?v1] b1 by auto
  let ?v2 = "v\<lparr>dfree := (dfree v)(i := False, j := False)\<rparr>"
  have b2: "card (busy ?v2) < NUM" using busy_alloc [OF j(2), of ?v1] b1 by (simp add: card_insert_if)
  obtain l where l: "alloc_desc ?v2 = (Some l, ?v2\<lparr>dfree := (dfree ?v2)(l := False)\<rparr>)" "l < NUM" "dfree ?v2 l"
    using alloc_desc_ok [OF room, of ?v2] b2 by auto
  have "i \<noteq> j" "i \<noteq> l" "j \<noteq> l" "dfree v j" "dfree v l" using j(3) l(3) by (auto split: if_splits)
  moreover have "alloc3_desc v = Ok (Some (i, j, l), v\<lparr>dfree := (dfree v)(i := False, j := False, l := False)\<rparr>)"
    using i(1) j(1) l(1) by (simp add: alloc3_desc_def)
  ultimately show ?thesis using i(2,3) j(2) l(2) by blast
qed

lemma free_chain3:
  assumes c: "chain v b i j l wr" and d: "i < NUM" "j < NUM" "l < NUM" "i \<noteq> j" "i \<noteq> l" "j \<noteq> l"
    and f: "\<not> dfree v i" "\<not> dfree v j" "\<not> dfree v l"
  shows "okR (free_chain i v) (\<lambda>v'. dfree v' = (dfree v)(i := True, j := True, l := True) \<and> used_idx v' = used_idx v \<and>
    used_dev v' = used_dev v \<and> bdisk v' = bdisk v \<and> info_b v' = info_b v)"
proof -
  have u: "unat (of_nat j :: u16) = j" "unat (of_nat l :: u16) = l" using d by (simp_all add: unat_of_nat)
  have fl: "(if wr then 0 else DESC_F_WRITE) OR DESC_F_NEXT AND DESC_F_NEXT \<noteq> 0" by (cases wr) simp_all
  show ?thesis
    using c d f fl u
    by (simp add: chain_def free_chain.simps [of i] free_chain.simps [of j] free_chain.simps [of l] free_desc_def Let_def)
qed

lemma intr_one:
  assumes "used_dev v = used_idx v + 1" and "unat (used_ring v (unat (used_idx v) mod NUM)) = i"
    and "info_status v i = 0" and "info_b v i = Some b"
  shows "virtio_disk_intr v =
    Ok (v\<lparr>bdisk := (bdisk v)(b := False), vwoken := vwoken v @ [Chan_disk_buf b], used_idx := used_idx v + 1\<rparr>)"
  by (subst virtio_disk_intr.simps, subst virtio_disk_intr.simps) (use assms in \<open>simp add: Let_def\<close>)


text \<open>A device that does what the specification says, and the first block read after the initialisation.\<close>

definition block_device :: vdevice where
  "block_device v s i =
     (let j = unat (dnx (desc v i)); wr = (fst (ops v i) = BLK_T_OUT); n = ucast (drop_bit 1 (snd (ops v i)));
          b = (case da (desc v j) of Bufdata b \<Rightarrow> b | _ \<Rightarrow> 0) in
      (v\<lparr>info_status := (info_status v)(i := 0), used_ring := (used_ring v)(unat (used_dev v) mod NUM := of_nat i),
         used_dev := used_dev v + 1\<rparr>,
       if wr then s\<lparr>disk := (disk s)(n := data (bufs s b)), writes := writes s @ [(n, data (bufs s b))]\<rparr>
       else updb b (\<lambda>x. x\<lparr>data := disk s n\<rparr>) s))"

definition vdisk0 :: vdisk where
  "vdisk0 = \<lparr>desc = (\<lambda>_. \<lparr>da = Null, dl = 0, dfl = 0, dnx = 0\<rparr>), avail_idx = 0, avail_ring = (\<lambda>_. 0), used_dev = 0, used_ring = (\<lambda>_. 0),
     dfree = (\<lambda>i. i < NUM), used_idx = 0, info_b = (\<lambda>_. None), info_status = (\<lambda>_. 0), ops = (\<lambda>_. (0, 0)), bdisk = (\<lambda>_. False), vwoken = []\<rparr>"


end
