(* ===== verification/Xv6_Trap.thy ===== *)
theory Xv6_Trap
  imports Xv6_Syscall Xv6_Virtio
begin

text \<open>
  \<^verbatim>\<open>kernel/trap.c\<close>, \<^verbatim>\<open>kernel/plic.c\<close> and \<^verbatim>\<open>kernel/main.c\<close>: traps from user and kernel mode, device interrupts and the clock, and
  the order in which the first CPU starts the kernel.  The control and status registers of the CPU that a handler
  uses are a record; \<open>tp\<close> is the number of the CPU.  What the interrupt controller says when it is asked is an argument
  \<open>irq\<close>, and \<open>plic\<close> holds what was last written to each of its addresses.  The addresses of the symbols of the assembly
  files are the fields of \<open>syms\<close>.
\<close>

section \<open>State\<close>

record csrs =
  sstatus :: u64
  scause :: u64
  sepc :: u64
  stval :: u64
  stvec :: u64
  satp :: u64
  tp :: u64
  time :: u64
  stimecmp :: u64

record syms =
  y_trampoline :: u64
  y_uservec :: u64
  y_userret :: u64
  y_usertrap :: u64
  y_kernelvec :: u64
  y_forkret :: u64

record mach =
  kn :: kern
  vd :: vdisk
  cs :: csrs
  plic :: "u64 \<Rightarrow> u32"

abbreviation (input) SSTATUS_SPP :: u64 where "SSTATUS_SPP \<equiv> 0x100"
abbreviation (input) SSTATUS_SPIE :: u64 where "SSTATUS_SPIE \<equiv> 0x20"
abbreviation (input) SSTATUS_SIE :: u64 where "SSTATUS_SIE \<equiv> 0x2"
abbreviation (input) UART0_IRQ :: int where "UART0_IRQ \<equiv> 10"
abbreviation (input) VIRTIO0_IRQ :: int where "VIRTIO0_IRQ \<equiv> 1"
abbreviation (input) PLIC :: u64 where "PLIC \<equiv> 0x0c000000"

definition MAKE_SATP :: "u64 \<Rightarrow> u64" where
  "MAKE_SATP pgt = push_bit 63 1 OR drop_bit 12 pgt"

definition on_cs :: "(csrs \<Rightarrow> csrs) \<Rightarrow> mach \<Rightarrow> mach" where
  "on_cs f s = s\<lparr>cs := f (cs s)\<rparr>"

definition on_kn :: "(kern \<Rightarrow> kern res) \<Rightarrow> mach \<Rightarrow> mach res" where
  "on_kn f s = bindR (f (kn s)) (\<lambda>k. Ok (s\<lparr>kn := k\<rparr>))"

section \<open>The interrupt controller\<close>

definition plicinit :: "mach \<Rightarrow> mach" where
  "plicinit s = s\<lparr>plic := (plic s)(PLIC + 10 * 4 := 1, PLIC + 1 * 4 := 1)\<rparr>"

definition PLIC_SENABLE :: "u64 \<Rightarrow> u64" where
  "PLIC_SENABLE hart = PLIC + 0x2080 + hart * 0x100"

definition PLIC_SPRIORITY :: "u64 \<Rightarrow> u64" where
  "PLIC_SPRIORITY hart = PLIC + 0x201000 + hart * 0x2000"

definition PLIC_SCLAIM :: "u64 \<Rightarrow> u64" where
  "PLIC_SCLAIM hart = PLIC + 0x201004 + hart * 0x2000"

definition plicinithart :: "mach \<Rightarrow> mach" where
  "plicinithart s =
     (let hart = tp (cs s) in
      s\<lparr>plic := (plic s)(PLIC_SENABLE hart := push_bit 10 1 OR push_bit 1 1, PLIC_SPRIORITY hart := 0)\<rparr>)"

definition plic_complete :: "int \<Rightarrow> mach \<Rightarrow> mach" where
  "plic_complete irq s = s\<lparr>plic := (plic s)(PLIC_SCLAIM (tp (cs s)) := word_of_int irq)\<rparr>"

section \<open>Interrupts\<close>

definition clockintr :: "mach \<Rightarrow> mach" where
  "clockintr s =
     (let s = (if tp (cs s) = 0 then s\<lparr>kn := k_wakeup Chan_ticks ((kn s)\<lparr>ticks := ticks (kn s) + 1\<rparr>)\<rparr> else s)
      in on_cs (\<lambda>c. c\<lparr>stimecmp := time c + 1000000\<rparr>) s)"

text \<open>An interrupt of an unexpected device is reported and completed.\<close>

definition devintr :: "int \<Rightarrow> mach \<Rightarrow> (nat \<times> mach) res" where
  "devintr irq s =
     (if scause (cs s) = 0x8000000000000009 then
        bindR
          (if irq = UART0_IRQ then on_kn (\<lambda>k. bindR (uartintr (con k)) (\<lambda>c. Ok (k\<lparr>con := c\<rparr>))) s
           else if irq = VIRTIO0_IRQ then bindR (virtio_disk_intr (vd s)) (\<lambda>v. Ok (s\<lparr>vd := v\<rparr>))
           else if irq \<noteq> 0 then
             on_kn (k_printf (''unexpected interrupt irq=%d'' @ [CHR 0x0A]) [Arg_int (word_of_int irq)]) s
           else Ok s)
          (\<lambda>s. Ok (1, if irq \<noteq> 0 then plic_complete irq s else s))
      else if scause (cs s) = 0x8000000000000005 then Ok (2, clockintr s)
      else Ok (0, s))"

definition trapinithart :: "syms \<Rightarrow> mach \<Rightarrow> mach" where
  "trapinithart y s = on_cs (\<lambda>c. c\<lparr>stvec := y_kernelvec y\<rparr>) s"

definition kerneltrap :: "int \<Rightarrow> mach \<Rightarrow> mach res" where
  "kerneltrap irq s =
     (let epc = sepc (cs s); status = sstatus (cs s) in
      if status AND SSTATUS_SPP = 0 then Panic ''kerneltrap: not from supervisor mode''
      else if status AND SSTATUS_SIE \<noteq> 0 then Panic ''kerneltrap: interrupts enabled''
      else
        bindR (devintr irq s) (\<lambda>(which_dev, s).
        if which_dev = 0 then Panic ''kerneltrap''
        else
          let s = (if which_dev = 2 then s\<lparr>kn := on_procs (yield_enter (me (fs (kn s)))) (kn s)\<rparr> else s)
          in Ok (on_cs (\<lambda>c. c\<lparr>sepc := epc, sstatus := status\<rparr>) s)))"

section \<open>Traps from user mode\<close>

text \<open>\<open>usertrapret\<close> ends with the jump to \<^verbatim>\<open>userret\<close>; its argument, the new \<^verbatim>\<open>satp\<close>, is in the result.\<close>

definition usertrapret :: "syms \<Rightarrow> mach \<Rightarrow> u64 \<times> u64 \<times> mach" where
  "usertrapret y s =
     (let p = myproc (kn s);
          s = on_cs (\<lambda>c. c\<lparr>sstatus := sstatus c AND NOT SSTATUS_SIE\<rparr>) s;
          s = on_cs (\<lambda>c. c\<lparr>stvec := TRAMPOLINE + (y_uservec y - y_trampoline y)\<rparr>) s;
          k = kn s;
          k = tf_put tf_satp (satp (cs s)) k;
          k = tf_put tf_ksp (kstack p + PGSIZE) k;
          k = tf_put tf_trap (y_usertrap y) k;
          k = tf_put tf_hartid (tp (cs s)) k;
          s = on_cs (\<lambda>c. c\<lparr>sstatus := (sstatus c AND NOT SSTATUS_SPP) OR SSTATUS_SPIE\<rparr>) (s\<lparr>kn := k\<rparr>);
          s = on_cs (\<lambda>c. c\<lparr>sepc := tf_get tf_epc k\<rparr>) s
      in (TRAMPOLINE + (y_userret y - y_trampoline y), MAKE_SATP (pagetable p), s))"

text \<open>
  How a trap from user mode ends: the process returns to user mode, or it exits.  A process that yields to
  others does so before it returns; the state here is the one it has when it gives up the CPU.
\<close>

datatype trapend = To_user u64 u64 | Yields | Exits

definition trap_exit :: "mach \<Rightarrow> (trapend \<times> mach) res" where
  "trap_exit s = bindR (on_kn (exit (-1)) s) (\<lambda>s. Ok (Exits, s))"

definition usertrap_end :: "syms \<Rightarrow> nat \<Rightarrow> mach \<Rightarrow> (trapend \<times> mach) res" where
  "usertrap_end y which_dev s =
     (if killed (me (fs (kn s))) (procs (pt (fs (kn s)))) then trap_exit s
      else if which_dev = 2 then Ok (Yields, s\<lparr>kn := on_procs (yield_enter (me (fs (kn s)))) (kn s)\<rparr>)
      else let (target, x, s) = usertrapret y s in Ok (To_user target x, s))"

definition usertrap :: "syms \<Rightarrow> int \<Rightarrow> mach \<Rightarrow> (trapend \<times> mach) res" where
  "usertrap y irq s =
     (if sstatus (cs s) AND SSTATUS_SPP \<noteq> 0 then Panic ''usertrap: not from user mode''
      else
        let s = on_cs (\<lambda>c. c\<lparr>stvec := y_kernelvec y\<rparr>) s; s = s\<lparr>kn := tf_put tf_epc (sepc (cs s)) (kn s)\<rparr> in
        if scause (cs s) = 8 then
          (if killed (me (fs (kn s))) (procs (pt (fs (kn s)))) then trap_exit s
           else
             let s = s\<lparr>kn := tf_put tf_epc (tf_get tf_epc (kn s) + 4) (kn s)\<rparr>;
                 s = on_cs (\<lambda>c. c\<lparr>sstatus := sstatus c OR SSTATUS_SIE\<rparr>) s
             in bindR (syscall (y_trampoline y) (y_forkret y) (kn s)) (\<lambda>(alive, k).
                let s = s\<lparr>kn := k\<rparr> in if alive then usertrap_end y 0 s else Ok (Exits, s)))
        else
          bindR (devintr irq s) (\<lambda>(which_dev, s).
          if which_dev \<noteq> 0 then usertrap_end y which_dev s
          else
            bindR (on_kn (k_printf (''usertrap(): unexpected scause 0x%lx pid=%d'' @ [CHR 0x0A])
              [Arg_int (scause (cs s)), Arg_int (ucast (pid (myproc (kn s))))]) s) (\<lambda>s.
            bindR (on_kn (k_printf (''            sepc=0x%lx stval=0x%lx'' @ [CHR 0x0A])
              [Arg_int (sepc (cs s)), Arg_int (stval (cs s))]) s) (\<lambda>s.
            usertrap_end y 0 (s\<lparr>kn := on_procs (setkilled (me (fs (kn s)))) (kn s)\<rparr>)))))"

section \<open>Starting the kernel\<close>

text \<open>
  The first CPU in \<^verbatim>\<open>main\<close>, up to the call of the scheduler.  \<open>etext\<close> is the end of the kernel's text, \<open>tramp\<close> and
  \<open>initcode\<close> are as in \<^verbatim>\<open>userinit\<close>; turning on the page table loads \<^verbatim>\<open>satp\<close>.
\<close>

definition k_consoleinit :: "kern \<Rightarrow> kern" where
  "k_consoleinit k = k\<lparr>con := consoleinit (con k), devsw := (devsw k)(1 := Some Console_device)\<rparr>"

definition fileinit :: "kern \<Rightarrow> kern" where
  "fileinit k = k"

definition main_boot :: "syms \<Rightarrow> u64 \<Rightarrow> mmio \<Rightarrow> u8 list \<Rightarrow> mach \<Rightarrow> mach res" where
  "main_boot y etext mmio initcode s =
     bindR (on_kn (\<lambda>k.
       let k = k_consoleinit k in
       bindR (k_printf [CHR 0x0A] [] k) (\<lambda>k.
       bindR (k_printf (''xv6 kernel is booting'' @ [CHR 0x0A]) [] k) (\<lambda>k.
       bindR (k_printf [CHR 0x0A] [] k) (\<lambda>k.
       bindR (kinit (mem_of k)) (\<lambda>m. Ok (set_km m k)))))) s) (\<lambda>s.
     bindR (kvmmake (mem_of (kn s)) etext (y_trampoline y)) (\<lambda>(pgt, m).
     let s = on_cs (\<lambda>c. c\<lparr>satp := MAKE_SATP pgt\<rparr>) (s\<lparr>kn := set_km m (kn s)\<rparr>);
         s = s\<lparr>kn := on_procs procinit (kn s)\<rparr>;
         s = plicinithart (plicinit (trapinithart y s));
         s = s\<lparr>kn := (kn s)\<lparr>fs := iinit (set_bc (binit (bc (lg (fs (kn s))))) (fs (kn s)))\<rparr>\<rparr>;
         s = s\<lparr>kn := fileinit (kn s)\<rparr>
     in bindR (virtio_disk_init mmio (vd s) (mem_of (kn s))) (\<lambda>(ws, v, m).
        on_kn (userinit (y_trampoline y) (y_forkret y) initcode) (s\<lparr>vd := v, kn := set_km m (kn s)\<rparr>))))"

end
