(* ===== verification/Xv6_Keeps.thy ===== *)
theory Xv6_Keeps
  imports Xv6_Syscall
begin

text \<open>
  What the operations of the kernel leave alone.  \<open>core\<close> is the part of the state of the file system that holds the
  processes: no operation of \<^verbatim>\<open>kernel/fs.c\<close> changes it, whatever it does to inodes, blocks and user memory.  The lemmas
  of the collection \<open>keeps\<close> say so, one for each operation; they are stated of the outcome \<open>Ok\<close>.
\<close>

named_theorems keeps

definition partR :: "'a res \<Rightarrow> ('a \<Rightarrow> bool) \<Rightarrow> bool" where
  "partR m Q \<longleftrightarrow> (\<forall>x. m = Ok x \<longrightarrow> Q x)"

lemma partR_simps [simp]:
  "partR (Ok x) Q = Q x" "partR (Panic e) Q" "partR (Sleeps ch) Q" "partR Diverges Q"
  "partR (bindR m f) Q = partR m (\<lambda>x. partR (f x) Q)"
  by (auto simp: partR_def bindR_eq_Ok)

lemma partR_any: "(\<And>x. Q x) \<Longrightarrow> partR m Q"
  by (simp add: partR_def)

lemma partR_mono: "partR m P \<Longrightarrow> (\<And>x. P x \<Longrightarrow> Q x) \<Longrightarrow> partR m Q"
  by (simp add: partR_def)

lemma partRD: "partR m Q \<Longrightarrow> m = Ok x \<Longrightarrow> Q x"
  by (simp add: partR_def)

section \<open>The file system\<close>

definition core :: "fsys \<Rightarrow> proc list \<times> nat" where
  "core s = (procs (pt s), me s)"

lemma core_simps [simp]:
  "core (s\<lparr>lg := l\<rparr>) = core s" "core (s\<lparr>itable := t\<rparr>) = core s" "core (s\<lparr>local := x\<rparr>) = core s" "core (s\<lparr>sb := y\<rparr>) = core s"
  "core (set_bc z s) = core s" "core (bset b bs s) = core s" "core (upi i g s) = core s" "core (idup i s) = core s" "core (unlock_inode i s) = core s"
  by (simp_all add: core_def set_bc_def bset_def upi_def idup_def unlock_inode_def)

lemma core_pt: "procs p = procs (pt s) \<Longrightarrow> core (s\<lparr>pt := p\<rparr>) = core s"
  by (simp add: core_def)

lemma forR_keeps:
  assumes "\<And>x s Q. (\<And>s'. c s' = c s \<Longrightarrow> Q s') \<Longrightarrow> partR (f x s) Q" and "\<And>s'. c s' = c s \<Longrightarrow> Q s'"
  shows "partR (forR xs f s) Q"
  using assms(2)
proof (induction xs arbitrary: s Q)
  case (Cons x xs)
  show ?case using Cons.prems by (auto intro!: assms(1) Cons.IH)
qed simp

lemma f_bread_keeps [keeps]: "(\<And>b s'. core s' = core s \<Longrightarrow> Q (b, s')) \<Longrightarrow> partR (f_bread dv n s) Q"
  by (simp add: f_bread_def) (rule partR_any, auto)

lemma f_brelse_keeps [keeps]: "(\<And>s'. core s' = core s \<Longrightarrow> Q s') \<Longrightarrow> partR (f_brelse b s) Q"
  by (simp add: f_brelse_def) (rule partR_any, auto)

lemma f_log_write_keeps [keeps]: "(\<And>s'. core s' = core s \<Longrightarrow> Q s') \<Longrightarrow> partR (f_log_write b s) Q"
  by (simp add: f_log_write_def) (rule partR_any, auto)

lemma copy_to_keeps [keeps]: "(\<And>r s'. core s' = core s \<Longrightarrow> Q (r, s')) \<Longrightarrow> partR (copy_to a bs s) Q"
  by (cases a) (simp_all add: copy_to_def either_copyout_def core_pt, rule partR_any, auto simp: core_pt)

lemma copy_from_keeps [keeps]: "(\<And>r. Q r) \<Longrightarrow> partR (copy_from a n s) Q"
  by (rule partR_any)

lemma acquiresleep_keeps [keeps]: "(\<And>l. Q l) \<Longrightarrow> partR (acquiresleep p lk) Q"
  by (rule partR_any)

lemma bzero_keeps [keeps]: "(\<And>s'. core s' = core s \<Longrightarrow> Q s') \<Longrightarrow> partR (bzero dv n s) Q"
  by (auto simp: bzero_def intro!: keeps)

lemma balloc_from_keeps [keeps]: "(\<And>a s'. core s' = core s \<Longrightarrow> Q (a, s')) \<Longrightarrow> partR (balloc_from dv bs s) Q"
proof (induction bs arbitrary: s Q)
  case (Cons x xs)
  show ?case using Cons.prems by (auto split: option.splits intro!: keeps Cons.IH)
qed simp

lemma balloc_keeps [keeps]: "(\<And>a s'. core s' = core s \<Longrightarrow> Q (a, s')) \<Longrightarrow> partR (balloc dv s) Q"
  by (auto simp: balloc_def intro!: keeps)

lemma bfree_keeps [keeps]: "(\<And>s'. core s' = core s \<Longrightarrow> Q s') \<Longrightarrow> partR (bfree dv b s) Q"
  by (auto simp: bfree_def Let_def split: if_splits intro!: keeps)

lemma iget_keeps [keeps]: "(\<And>ip s'. core s' = core s \<Longrightarrow> Q (ip, s')) \<Longrightarrow> partR (iget dv n s) Q"
  by (auto simp: iget_def split: option.splits)

lemma ialloc_from_keeps [keeps]: "(\<And>ip s'. core s' = core s \<Longrightarrow> Q (ip, s')) \<Longrightarrow> partR (ialloc_from dv ty is s) Q"
proof (induction "is" arbitrary: s Q)
  case (Cons x xs)
  show ?case using Cons.prems by (auto simp: Let_def split: if_splits intro!: keeps Cons.IH)
qed simp

lemma ialloc_keeps [keeps]: "(\<And>ip s'. core s' = core s \<Longrightarrow> Q (ip, s')) \<Longrightarrow> partR (ialloc dv ty s) Q"
  by (auto simp: ialloc_def intro!: keeps)

lemma iupdate_keeps [keeps]: "(\<And>s'. core s' = core s \<Longrightarrow> Q s') \<Longrightarrow> partR (iupdate ip s) Q"
  by (auto simp: iupdate_def Let_def intro!: keeps)

lemma ilock_keeps [keeps]: "(\<And>s'. core s' = core s \<Longrightarrow> Q s') \<Longrightarrow> partR (ilock ipo s) Q"
  by (auto simp: ilock_def Let_def split: option.splits if_splits intro!: keeps)

lemma iunlock_keeps [keeps]: "(\<And>s'. core s' = core s \<Longrightarrow> Q s') \<Longrightarrow> partR (iunlock ipo s) Q"
  by (auto simp: iunlock_def split: option.splits if_splits)

lemma bmap_keeps [keeps]: "(\<And>a s'. core s' = core s \<Longrightarrow> Q (a, s')) \<Longrightarrow> partR (bmap ip bn s) Q"
  by (auto simp: bmap_def Let_def split: if_splits intro!: keeps)

lemma itrunc_direct_keeps [keeps]: "(\<And>s'. core s' = core s \<Longrightarrow> Q s') \<Longrightarrow> partR (itrunc_direct ip i s) Q"
  by (auto simp: itrunc_direct_def split: if_splits intro!: keeps)

lemma itrunc_indirect_keeps [keeps]: "(\<And>s'. core s' = core s \<Longrightarrow> Q s') \<Longrightarrow> partR (itrunc_indirect ip bp j s) Q"
  by (auto simp: itrunc_indirect_def Let_def split: if_splits intro!: keeps)

lemma itrunc_loops_keep [keeps]:
  "(\<And>s'. core s' = core s \<Longrightarrow> Q s') \<Longrightarrow> partR (forR is (itrunc_direct ip) s) Q"
  "(\<And>s'. core s' = core s \<Longrightarrow> Q s') \<Longrightarrow> partR (forR is (itrunc_indirect ip bp) s) Q"
  by (auto intro!: forR_keeps [where c = core] keeps)

lemma itrunc_keeps [keeps]: "(\<And>s'. core s' = core s \<Longrightarrow> Q s') \<Longrightarrow> partR (itrunc ip s) Q"
  by (auto simp: itrunc_def split: if_splits intro!: keeps)

lemma iput_keeps [keeps]: "(\<And>s'. core s' = core s \<Longrightarrow> Q s') \<Longrightarrow> partR (iput ip s) Q"
  by (auto simp: iput_def split: if_splits intro!: keeps)

lemma iunlockput_keeps [keeps]: "(\<And>s'. core s' = core s \<Longrightarrow> Q s') \<Longrightarrow> partR (iunlockput ip s) Q"
  by (auto simp: iunlockput_def intro!: keeps)

lemma block_step: "tot < n \<Longrightarrow> n - (tot + min (n - tot) (BSIZE - off mod BSIZE)) < n - (tot :: nat)"
proof -
  assume t: "tot < n"
  have "off mod BSIZE < BSIZE" by simp
  then have "0 < min (n - tot) (BSIZE - off mod BSIZE)" using t by simp
  then show ?thesis using t by linarith
qed

lemma readi_loop_keeps [keeps]: "(\<And>r s'. core s' = core s \<Longrightarrow> Q (r, s')) \<Longrightarrow> partR (readi_loop ip dst off n tot s) Q"
proof (induction "n - tot" arbitrary: dst off tot s Q rule: less_induct)
  case less
  show ?case by (subst readi_loop.simps) (auto simp: Let_def block_step split: if_splits option.splits intro!: keeps less)
qed

lemma readi_keeps [keeps]: "(\<And>r s'. core s' = core s \<Longrightarrow> Q (r, s')) \<Longrightarrow> partR (readi ip dst off n s) Q"
  by (auto simp: readi_def Let_def split: if_splits intro!: keeps)

lemma writei_loop_keeps [keeps]: "(\<And>t o' s'. core s' = core s \<Longrightarrow> Q (t, o', s')) \<Longrightarrow> partR (writei_loop ip src off n tot s) Q"
proof (induction "n - tot" arbitrary: src off tot s Q rule: less_induct)
  case less
  show ?case by (subst writei_loop.simps) (auto simp: Let_def block_step split: if_splits option.splits intro!: keeps less)
qed

lemma writei_keeps [keeps]: "(\<And>r s'. core s' = core s \<Longrightarrow> Q (r, s')) \<Longrightarrow> partR (writei ip src off n s) Q"
  by (auto simp: writei_def Let_def split: if_splits intro!: keeps)

lemma dirlookup_from_keeps [keeps]: "(\<And>r s'. core s' = core s \<Longrightarrow> Q (r, s')) \<Longrightarrow> partR (dirlookup_from dp name offs s) Q"
proof (induction offs arbitrary: s Q)
  case (Cons x xs)
  show ?case using Cons.prems by (auto split: if_splits intro!: keeps Cons.IH)
qed simp

lemma dirlookup_keeps [keeps]: "(\<And>r s'. core s' = core s \<Longrightarrow> Q (r, s')) \<Longrightarrow> partR (dirlookup dp name s) Q"
  by (auto simp: dirlookup_def split: if_splits intro!: keeps)

lemma dirlink_slot_keeps [keeps]: "(\<And>r s'. core s' = core s \<Longrightarrow> Q (r, s')) \<Longrightarrow> partR (dirlink_slot dp offs e s) Q"
proof (induction offs arbitrary: s Q)
  case (Cons x xs)
  show ?case using Cons.prems by (auto split: if_splits intro!: keeps Cons.IH)
qed simp

lemma dirlink_keeps [keeps]: "(\<And>r s'. core s' = core s \<Longrightarrow> Q (r, s')) \<Longrightarrow> partR (dirlink dp name n s) Q"
  by (auto simp: dirlink_def Let_def split: option.splits if_splits intro!: keeps)

lemma namex_loop_keeps [keeps]: "(\<And>r nm s'. core s' = core s \<Longrightarrow> Q (r, nm, s')) \<Longrightarrow> partR (namex_loop par ip pth name s) Q"
proof (induction "length pth" arbitrary: par ip pth name s Q rule: less_induct)
  case less
  show ?case by (subst namex_loop.simps) (auto simp: Let_def skipelem_shorter split: if_splits option.splits intro!: keeps less)
qed

lemma namex_keeps [keeps]: "(\<And>r nm s'. core s' = core s \<Longrightarrow> Q (r, nm, s')) \<Longrightarrow> partR (namex pth par name s) Q"
  by (auto simp: namex_def split: option.splits if_splits intro!: keeps)

lemma namei_keeps [keeps]: "(\<And>r s'. core s' = core s \<Longrightarrow> Q (r, s')) \<Longrightarrow> partR (namei pth s) Q"
  by (auto simp: namei_def intro!: keeps)

lemma nameiparent_keeps [keeps]: "(\<And>r nm s'. core s' = core s \<Longrightarrow> Q (r, nm, s')) \<Longrightarrow> partR (nameiparent pth s) Q"
  by (auto simp: nameiparent_def intro!: keeps)

lemma isdirempty_from_keeps [keeps]: "(\<And>r s'. core s' = core s \<Longrightarrow> Q (r, s')) \<Longrightarrow> partR (isdirempty_from dp offs s) Q"
proof (induction offs arbitrary: s Q)
  case (Cons x xs)
  show ?case using Cons.prems by (auto split: if_splits intro!: keeps Cons.IH)
qed simp

lemma isdirempty_keeps [keeps]: "(\<And>r s'. core s' = core s \<Longrightarrow> Q (r, s')) \<Longrightarrow> partR (isdirempty dp s) Q"
  by (auto simp: isdirempty_def intro!: keeps)

lemma unlink_entry_keeps [keeps]: "(\<And>s'. core s' = core s \<Longrightarrow> Q s') \<Longrightarrow> partR (unlink_entry dp ip off s) Q"
  by (auto simp: unlink_entry_def split: if_splits intro!: keeps)

lemma create_fail_keeps [keeps]: "(\<And>r s'. core s' = core s \<Longrightarrow> Q (r, s')) \<Longrightarrow> partR (create_fail ip dp s) Q"
  by (auto simp: create_fail_def intro!: keeps)

lemma create_dots_keeps [keeps]: "(\<And>r s'. core s' = core s \<Longrightarrow> Q (r, s')) \<Longrightarrow> partR (create_dots ip dp s) Q"
  by (auto simp: create_dots_def split: if_splits intro!: keeps)

lemma create_new_keeps [keeps]: "(\<And>r s'. core s' = core s \<Longrightarrow> Q (r, s')) \<Longrightarrow> partR (create_new dp name ty mj mn s) Q"
  by (auto simp: create_new_def split: option.splits if_splits intro!: keeps)

lemma create_keeps [keeps]: "(\<And>r s'. core s' = core s \<Longrightarrow> Q (r, s')) \<Longrightarrow> partR (create pth ty mj mn s) Q"
  by (auto simp: create_def split: option.splits if_splits intro!: keeps)

lemma open_inode_keeps [keeps]: "(\<And>r s'. core s' = core s \<Longrightarrow> Q (r, s')) \<Longrightarrow> partR (open_inode pth omode s) Q"
  by (auto simp: open_inode_def split: option.splits if_splits intro!: keeps)

section \<open>The kernel\<close>

text \<open>
  The view of the descriptors: for each process its descriptors and whether it has ended or not begun, the running
  process, and the reference counts of the open files.
\<close>

definition dead :: "proc \<Rightarrow> bool" where
  "dead p \<longleftrightarrow> state p = UNUSED \<or> state p = ZOMBIE"

definition pview :: "proc \<Rightarrow> nat option list \<times> bool" where
  "pview p = (ofile p, dead p)"

definition dview :: "kern \<Rightarrow> (nat option list \<times> bool) list \<times> nat \<times> (nat \<Rightarrow> int)" where
  "dview k = (map pview (procs (pt (fs k))), me (fs k), \<lambda>f. fref (ftable k f))"

lemma dview_set_fs [simp]: "core s = core (fs k) \<Longrightarrow> dview (set_fs k s) = dview k"
  by (simp add: dview_def set_fs_def core_def)

lemma dview_simps [simp]:
  "dview (set_km m k) = dview k" "dview (updpipe a h k) = dview k" "dview (k\<lparr>con := c\<rparr>) = dview k" "dview (on_mem g k) = dview k"
  "dview (tf_put x v k) = dview k" "dview (k\<lparr>ticks := t\<rparr>) = dview k"
  by (simp_all add: dview_def set_km_def updpipe_def on_mem_def tf_put_def)

lemma dview_lg [simp]: "dview (k\<lparr>fs := (fs k)\<lparr>lg := l\<rparr>\<rparr>) = dview k"
  by (simp add: dview_def)

lemma dview_updfile [simp]: "(\<And>x. fref (g x) = fref x) \<Longrightarrow> dview (updfile f g k) = dview k"
  by (auto simp: dview_def updfile_def)

lemma pview_upd: "(\<And>p. pview (g p) = pview p) \<Longrightarrow> map pview (upd i g ps) = map pview ps"
  by (auto simp: upd_def map_update list_update_same_conv)

lemma dview_on_procs: "map pview (g (procs (pt (fs k)))) = map pview (procs (pt (fs k))) \<Longrightarrow> dview (on_procs g k) = dview k"
  by (simp add: dview_def on_procs_def)

lemma dview_set_pt: "map pview (procs p) = map pview (procs (pt (fs k))) \<Longrightarrow> dview (set_pt p k) = dview k"
  by (simp add: dview_def set_pt_def)

lemma pview_wakeup: "map pview (wakeup x ch ps) = map pview ps"
  by (rule nth_equalityI) (auto simp: wakeup_def nth_enumerate_eq pview_def dead_def)

lemma pview_kill: "map pview (snd (kill pd ps)) = map pview ps"
  by (induction ps) (auto simp: pview_def dead_def Let_def split: prod.splits)

lemma dview_k_wakeup [simp]: "dview (k_wakeup ch k) = dview k"
  unfolding k_wakeup_def by (rule dview_on_procs) (rule pview_wakeup)

lemma dview_wake_proc [simp]: "dview (wake_proc i k) = dview k"
  by (simp add: wake_proc_def split: option.splits)

lemma k_begin_op_keeps [keeps]: "(\<And>k'. dview k' = dview k \<Longrightarrow> Q k') \<Longrightarrow> partR (k_begin_op k) Q"
  by (simp add: k_begin_op_def) (rule partR_any, auto)

lemma k_end_op_keeps [keeps]: "(\<And>k'. dview k' = dview k \<Longrightarrow> Q k') \<Longrightarrow> partR (k_end_op k) Q"
  by (simp add: k_end_op_def) (rule partR_any, auto)

lemma onfs_keeps [keeps]:
  "(\<And>s Q. (\<And>s'. core s' = core s \<Longrightarrow> Q s') \<Longrightarrow> partR (g s) Q) \<Longrightarrow> (\<And>k'. dview k' = dview k \<Longrightarrow> Q k') \<Longrightarrow> partR (onfs g k) Q"
  by (simp add: onfs_def)

lemma onfs2_keeps [keeps]:
  "(\<And>s Q. (\<And>x s'. core s' = core s \<Longrightarrow> Q (x, s')) \<Longrightarrow> partR (g s) Q) \<Longrightarrow> (\<And>x k'. dview k' = dview k \<Longrightarrow> Q (x, k')) \<Longrightarrow> partR (onfs2 g k) Q"
  by (simp add: onfs2_def)

lemma k_copyout_keeps [keeps]: "(\<And>r k'. dview k' = dview k \<Longrightarrow> Q (r, k')) \<Longrightarrow> partR (k_copyout va bs k) Q"
  by (simp add: k_copyout_def) (rule partR_any, auto)

text \<open>Operations on memory and on the console are free to do what they want, as they do not see processes.\<close>

lemma free_keeps [keeps]:
  "(\<And>x. Q1 x) \<Longrightarrow> partR (kfree m a) Q1" "(\<And>x. Q2 x) \<Longrightarrow> partR (k_copyin va n k) Q2"
  "(\<And>x. Q3 x) \<Longrightarrow> partR (copyout m t va bs) Q3" "(\<And>x. Q4 x) \<Longrightarrow> partR (uvmalloc m t a b c) Q4"
  "(\<And>x. Q5 x) \<Longrightarrow> partR (uvmdealloc m t a b) Q5" "(\<And>x. Q6 x) \<Longrightarrow> partR (uvmclear m t a) Q6"
  "(\<And>x. Q7 x) \<Longrightarrow> partR (proc_pagetable m tr tf) Q7" "(\<And>x. Q8 x) \<Longrightarrow> partR (proc_freepagetable m t z) Q8"
  "(\<And>x. Q9 x) \<Longrightarrow> partR (walkaddr m t a) Q9" "(\<And>x. Q10 x) \<Longrightarrow> partR (argint i k) Q10" "(\<And>x. Q11 x) \<Longrightarrow> partR (argaddr i k) Q11"
  "(\<And>x. Q12 x) \<Longrightarrow> partR (argstr i n k) Q12" "(\<And>x. Q13 x) \<Longrightarrow> partR (fetchaddr a k) Q13" "(\<And>x. Q14 x) \<Longrightarrow> partR (fetchstr a n k) Q14"
  "(\<And>x. Q15 x) \<Longrightarrow> partR (consolewrite p i u a cnt s) Q15" "(\<And>x. Q16 x) \<Longrightarrow> partR (uvmcopy m t t' z) Q16"
  "(\<And>x. Q17 x) \<Longrightarrow> partR (printf fmt as cc) Q17"
  by (rule partR_any; assumption)+

lemma consoleread_run_keeps:
  "(\<And>r p' s'. procs p' = procs p \<Longrightarrow> Q (r, p', s')) \<Longrightarrow> partR (consoleread_run i u target dst n p s) Q"
proof (induction "nat n" arbitrary: dst n p s Q rule: less_induct)
  case less
  have e: "partR (either_copyout p i u d bs) Q" if "\<And>r p'. procs p' = procs p \<Longrightarrow> Q (r, p')" for d bs Q
    using that by (auto simp: either_copyout_def intro!: keeps)
  show ?case by (subst consoleread_run.simps) (auto simp: Let_def intro!: e less)
qed

lemma consoleread_keeps [keeps]: "(\<And>r p' s'. procs p' = procs p \<Longrightarrow> Q (r, p', s')) \<Longrightarrow> partR (consoleread i u dst n p s) Q"
  by (simp add: consoleread_def) (rule consoleread_run_keeps, auto split: sum.splits)

lemma ret_keeps [keeps]: "(\<And>r. Q (r, k)) \<Longrightarrow> partR (ret x k) Q"
  by (simp add: ret_def)

lemma end_ret_keeps [keeps]: "(\<And>r k'. dview k' = dview k \<Longrightarrow> Q (r, k')) \<Longrightarrow> partR (end_ret x k) Q"
  by (auto simp: end_ret_def intro!: keeps)

lemma k_printf_keeps [keeps]: "(\<And>k'. dview k' = dview k \<Longrightarrow> Q k') \<Longrightarrow> partR (k_printf fmt as k) Q"
  by (auto simp: k_printf_def intro!: keeps)

lemma pipewrite_run_keeps [keeps]: "(\<And>r k'. dview k' = dview k \<Longrightarrow> Q (r, k')) \<Longrightarrow> partR (pipewrite_run pi addr i n k) Q"
  by (induction n arbitrary: i k Q) (auto intro!: keeps)

lemma piperead_copy_keeps [keeps]: "(\<And>r k'. dview k' = dview k \<Longrightarrow> Q (r, k')) \<Longrightarrow> partR (piperead_copy pi addr i n k) Q"
  by (induction n arbitrary: i k Q) (auto simp: pipe_get_def intro!: keeps)

lemma pipewrite_keeps [keeps]: "(\<And>r k'. dview k' = dview k \<Longrightarrow> Q (r, k')) \<Longrightarrow> partR (pipewrite pi addr n k) Q"
  by (auto simp: pipewrite_def no_sleep_def intro!: keeps split: sum.splits)

lemma piperead_keeps [keeps]: "(\<And>r k'. dview k' = dview k \<Longrightarrow> Q (r, k')) \<Longrightarrow> partR (piperead pi addr n k) Q"
  by (auto simp: piperead_def piperead_run_def no_sleep_def intro!: keeps split: sum.splits)

lemma filestat_keeps [keeps]: "(\<And>r k'. dview k' = dview k \<Longrightarrow> Q (r, k')) \<Longrightarrow> partR (filestat f addr k) Q"
  by (auto simp: filestat_def Let_def intro!: keeps)

lemma fileread_keeps [keeps]: "(\<And>r k'. dview k' = dview k \<Longrightarrow> Q (r, k')) \<Longrightarrow> partR (fileread f addr n k) Q"
  by (auto simp: fileread_def Let_def intro!: keeps split: ftype.splits option.splits device.splits) (simp_all add: dview_def)

lemma filewrite_loop_keeps [keeps]: "(\<And>r k'. dview k' = dview k \<Longrightarrow> Q (r, k')) \<Longrightarrow> partR (filewrite_loop f addr n i k) Q"
proof (induction "n - i" arbitrary: i k Q rule: less_induct)
  case less
  show ?case by (subst filewrite_loop.simps) (auto simp: Let_def intro!: keeps less)
qed

lemma filewrite_keeps [keeps]: "(\<And>r k'. dview k' = dview k \<Longrightarrow> Q (r, k')) \<Longrightarrow> partR (filewrite f addr n k) Q"
  by (auto simp: filewrite_def Let_def intro!: keeps split: ftype.splits option.splits device.splits)

end
