(* ===== verification/Xv6_Block.thy ===== *)
theory Xv6_Block
  imports Xv6_Fs
begin

text \<open>
  What the block layer of \<^verbatim>\<open>kernel/fs.c\<close> does to the blocks of the disk, as the kernel sees them inside a
  transaction: reading and rewriting a block, the allocator and its bitmap, and the inodes on disk.
\<close>

section \<open>Inside a transaction\<close>

abbreviation fview :: "fsys \<Rightarrow> u32 \<Rightarrow> u8 list" where
  "fview s \<equiv> blk (ldev (lg s)) (bc (lg s))"

text \<open>\<open>H\<close> gives the blocks that are in locked buffers.\<close>

definition fok :: "(nat \<rightharpoonup> u32) \<Rightarrow> fsys \<Rightarrow> bool" where
  "fok H s \<longleftrightarrow> linv H (lg s) \<and> lsize (lg s) \<le> int NBUF \<and> (\<forall>n. length (fview s n) = BSIZE)"

text \<open>The blocks that are in the transaction, and the blocks of the bitmap.\<close>

definition logset :: "fsys \<Rightarrow> u32 set" where
  "logset s = lh_block (lg s) ` {..<nat (lh_n (lg s))}"

definition bitmap :: "fsys \<Rightarrow> u32 set" where
  "bitmap s = (\<lambda>m. BBLOCK m (sb s)) ` {..<fsize (sb s)}"

text \<open>\<open>room k\<close>: a transaction is open, and there is space in the log for the bitmap, for \<open>k\<close> more blocks and for one block that is in it already.\<close>

definition room :: "nat \<Rightarrow> fsys \<Rightarrow> bool" where
  "room k s \<longleftrightarrow> 1 \<le> outstanding (lg s) \<and> int (card (logset s \<union> bitmap s) + k) + 1 < lsize (lg s)"

text \<open>\<open>logged W s s'\<close>: between the states no block but those of \<open>W\<close> was added to the log, and nothing but log and cache changed.\<close>

definition logged :: "u32 set \<Rightarrow> fsys \<Rightarrow> fsys \<Rightarrow> bool" where
  "logged W s s' \<longleftrightarrow> s' = s\<lparr>lg := lg s'\<rparr> \<and> lstart (lg s') = lstart (lg s) \<and> ldev (lg s') = ldev (lg s) \<and>
     lsize (lg s') = lsize (lg s) \<and> outstanding (lg s') = outstanding (lg s) \<and> f_pid s' = f_pid s \<and>
     logset s' \<subseteq> logset s \<union> W"

lemma logged_refl [simp]: "logged W s s"
  by (simp add: logged_def)

lemma logged_trans:
  assumes "logged A s s'" and "logged B s' s''"
  shows "logged (A \<union> B) s s''"
proof -
  have "s'' = s'\<lparr>lg := lg s''\<rparr>" "s' = s\<lparr>lg := lg s'\<rparr>" using assms by (auto simp: logged_def)
  then have "s'' = s\<lparr>lg := lg s''\<rparr>" by (metis fsys.surjective fsys.update_convs(1))
  then show ?thesis using assms by (auto simp: logged_def)
qed

lemma logged_mono: "logged A s s' \<Longrightarrow> A \<subseteq> B \<Longrightarrow> logged B s s'"
  by (auto simp: logged_def)

lemma logged_fields:
  assumes "logged W s s'"
  shows "sb s' = sb s" "itable s' = itable s" "pt s' = pt s" "me s' = me s" "local s' = local s"
    "lstart (lg s') = lstart (lg s)" "ldev (lg s') = ldev (lg s)" "lsize (lg s') = lsize (lg s)" "f_pid s' = f_pid s"
    "bitmap s' = bitmap s"
proof -
  have e: "s' = s\<lparr>lg := lg s'\<rparr>" using assms by (simp add: logged_def)
  show "sb s' = sb s" "itable s' = itable s" "pt s' = pt s" "me s' = me s" "local s' = local s"
    by (subst e, simp)+
  then show "bitmap s' = bitmap s" by (simp add: bitmap_def)
qed (use assms in \<open>simp_all add: logged_def\<close>)

lemma room_logged:
  assumes l: "logged (bitmap s \<union> X) s s'" and r: "room (card X + k) s"
  shows "room k s'"
proof -
  have "card (logset s' \<union> bitmap s') \<le> card (logset s \<union> bitmap s \<union> X)"
    using l logged_fields(10) [OF l] by (intro card_mono) (auto simp: logged_def)
  also have "\<dots> \<le> card (logset s \<union> bitmap s) + card X" by (rule card_Un_le)
  finally show ?thesis using r l logged_fields(8) [OF l] by (simp add: room_def logged_def)
qed

lemma room_mono: "room k s \<Longrightarrow> j \<le> k \<Longrightarrow> room j s"
  by (simp add: room_def)

lemma fok_cst: "fok H s \<Longrightarrow> cst (ldev (lg s)) (logset s) H (bc (lg s))"
  by (simp add: fok_def linv_def logset_def)

lemma fok_len: "fok H s \<Longrightarrow> length (fview s n) = BSIZE"
  by (simp add: fok_def)

lemma fok_data: "fok H s \<Longrightarrow> H b = Some n \<Longrightarrow> bdata s b = fview s n"
  using cst_data [OF fok_cst] by (simp add: bdata_def)

lemma fok_card:
  assumes "fok H s"
  shows "lh_n (lg s) = int (card (logset s))" and "room k s \<Longrightarrow> lh_n (lg s) + 1 < lsize (lg s)"
proof -
  have "card (logset s) = nat (lh_n (lg s))"
    unfolding logset_def by (subst card_image) (use assms in \<open>auto simp: fok_def linv_def\<close>)
  then show e: "lh_n (lg s) = int (card (logset s))" using assms by (simp add: fok_def linv_def)
  assume "room k s"
  moreover have "card (logset s) \<le> card (logset s \<union> bitmap s)" by (intro card_mono) auto
  ultimately show "lh_n (lg s) + 1 < lsize (lg s)" using e by (simp add: room_def)
qed

lemma linv_bc:
  assumes "linv H l" and "cst (ldev l) (lh_block l ` {..<nat (lh_n l)}) H' x" and "disk x = disk (bc l)" and "lstart l \<notin> ran H'"
  shows "linv H' (l\<lparr>bc := x\<rparr>)"
  using assms by (simp add: linv_def)

text \<open>\<open>viewed\<close>: only buffers moved in the cache.\<close>

definition viewed :: "fsys \<Rightarrow> fsys \<Rightarrow> bool" where
  "viewed s s' \<longleftrightarrow> logged {} s s' \<and> fview s' = fview s \<and> disk (bc (lg s')) = disk (bc (lg s)) \<and>
     lh_block (lg s') = lh_block (lg s) \<and> lh_n (lg s') = lh_n (lg s)"

lemma viewed_refl [simp]: "viewed s s"
  by (simp add: viewed_def)

lemma viewed_trans: "viewed s s' \<Longrightarrow> viewed s' s'' \<Longrightarrow> viewed s s''"
  using logged_trans [of "{}" s s' "{}" s''] by (auto simp: viewed_def)

lemma viewed_logged: "viewed s s' \<Longrightarrow> logged {} s s'"
  by (simp add: viewed_def)

lemma viewed_view: "viewed s s' \<Longrightarrow> fview s' = fview s"
  by (simp add: viewed_def)

lemma room_viewed: "viewed s s1 \<Longrightarrow> room k s \<Longrightarrow> room k s1"
  using logged_fields(10) [of "{}" s s1] by (simp add: room_def viewed_def logged_def logset_def)

lemma viewed_set_bc:
  assumes "fok H s" and "cst (ldev (lg s)) (logset s) H' x" and "disk x = disk (bc (lg s))"
    and "lstart (lg s) \<notin> ran H'" and "blk (ldev (lg s)) x = fview s" and "curpid x = curpid (bc (lg s))"
  shows "fok H' (set_bc x s) \<and> viewed s (set_bc x s)"
  using assms linv_bc [of H "lg s" H' x] by (simp add: fok_def set_bc_def viewed_def logged_def f_pid_def logset_def)

lemma f_bread_ok:
  assumes f: "fok H s" and n: "n \<notin> ran H" "n \<noteq> lstart (lg s)" and r: "lh_n (lg s) + int (card (dom H)) < int NBUF"
    and d: "dv = ldev (lg s)"
  shows "okR (f_bread dv n s) (\<lambda>(b, s'). fok (H(b \<mapsto> n)) s' \<and> b \<notin> dom H \<and> viewed s s')"
  unfolding f_bread_def
proof (rule okR_bindI2)
  let ?B = "logset s"
  have "0 \<le> lh_n (lg s)" using f by (simp add: fok_def linv_def)
  then have "n \<in> ?B \<or> card ?B + card (dom H) < NBUF" using fok_card(1) [OF f] r by linarith
  then show "okR (bread dv n (bc (lg s))) (\<lambda>(b, x). cst dv ?B (H(b \<mapsto> n)) x \<and> b \<notin> dom H \<and> blk dv x = fview s \<and>
      disk x = disk (bc (lg s)) \<and> curpid x = curpid (bc (lg s)))"
    unfolding d by (intro okR_mono [OF cst_bread [OF fok_cst [OF f] n(1)]]) auto
next
  fix b x
  let ?B = "logset s"
  assume x: "cst dv ?B (H(b \<mapsto> n)) x \<and> b \<notin> dom H \<and> blk dv x = fview s \<and> disk x = disk (bc (lg s)) \<and>
    curpid x = curpid (bc (lg s))"
  have "ran (H(b \<mapsto> n)) \<subseteq> insert n (ran H)" by (auto simp: ran_def)
  then have "lstart (lg s) \<notin> ran (H(b \<mapsto> n))" using f n by (auto simp: fok_def linv_def)
  then show "okR (case (b, x) of (b, x) \<Rightarrow> Ok (b, set_bc x s)) (\<lambda>(b, s'). fok (H(b \<mapsto> n)) s' \<and> b \<notin> dom H \<and> viewed s s')"
    using viewed_set_bc [OF f, of "H(b \<mapsto> n)" x] x d by simp
qed

lemma f_brelse_ok:
  assumes f: "fok H s" and b: "H b = Some n" and c: "n \<in> logset s \<or> fview s n = disk (bc (lg s)) n"
  shows "okR (f_brelse b s) (\<lambda>s'. fok (H(b := None)) s' \<and> viewed s s')"
  unfolding f_brelse_def
proof (rule okR_bindI [OF cst_brelse [OF fok_cst [OF f] b c]])
  fix x
  let ?B = "logset s"
  assume x: "cst (ldev (lg s)) ?B (H(b := None)) x \<and> blk (ldev (lg s)) x = fview s \<and> disk x = disk (bc (lg s)) \<and>
    writes x = writes (bc (lg s)) \<and> curpid x = curpid (bc (lg s)) \<and> woken x = woken (bc (lg s)) @ [Chan_buf_lock b]"
  have "ran (H(b := None)) \<subseteq> ran H" by (auto simp: ran_def split: if_splits)
  then have "lstart (lg s) \<notin> ran (H(b := None))" using f by (auto simp: fok_def linv_def)
  then show "okR (Ok (set_bc x s)) (\<lambda>s'. fok (H(b := None)) s' \<and> viewed s s')"
    using viewed_set_bc [OF f, of "H(b := None)" x] x by simp
qed

text \<open>A block that is read and not changed is released.\<close>

lemma brelse_clean:
  assumes f: "fok H s" and n: "n \<notin> ran H" and o: "fok (H(b \<mapsto> n)) s'" "b \<notin> dom H" "viewed s s'"
  shows "okR (f_brelse b s') (\<lambda>s''. fok H s'' \<and> viewed s s'')"
proof -
  have "n \<in> logset s' \<or> fview s' n = disk (bc (lg s')) n"
    using cst_clean [OF fok_cst [OF f], of n] n o(3) by (auto simp: viewed_def logset_def)
  moreover have "H(b \<mapsto> n, b := None) = H" using o(2) by (auto simp: fun_eq_iff domIff)
  ultimately show ?thesis
    using o viewed_trans [OF o(3)] by (intro okR_mono [OF f_brelse_ok [OF o(1), of b n]]) auto
qed

text \<open>The bytes of a held buffer are changed and the block is logged.\<close>

lemma log_write_pid: "log_write b l = Ok l' \<Longrightarrow> curpid (bc l') = curpid (bc l)"
  by (auto simp: log_write_def Let_def upd_bc_def bpin_def split: if_splits)

definition wrote :: "u32 set \<Rightarrow> (u32 \<Rightarrow> u8 list) \<Rightarrow> fsys \<Rightarrow> fsys \<Rightarrow> bool" where
  "wrote W V s s' \<longleftrightarrow> logged W s s' \<and> fview s' = V"

lemma bset_ok:
  assumes f: "fok H s" and b: "H b = Some n" and l: "length bs = BSIZE"
  shows "fok H (bset b bs s) \<and> fview (bset b bs s) = (fview s)(n := bs) \<and> bset b bs s = s\<lparr>lg := (lg s)\<lparr>bc := set_data b bs (bc (lg s))\<rparr>\<rparr>"
  using cst_set_data [OF fok_cst [OF f] b, of bs] f l
  by (auto simp: fok_def linv_def bset_def set_bc_def set_data_def logset_def)

lemma f_log_write_ok:
  assumes f: "fok H s" and b: "H b = Some n" and n: "n \<notin> log_area (lstart (lg s))" and r: "room k s" and l: "length bs = BSIZE"
  shows "okR (f_log_write b (bset b bs s)) (\<lambda>s'. fok H s' \<and> wrote {n} ((fview s)(n := bs)) s s' \<and>
    n \<in> logset s')"
proof -
  let ?s = "bset b bs s"
  note o = bset_ok [OF f b l]
  have sz: "lh_n (lg ?s) < lsize (lg ?s) - 1" "lsize (lg ?s) \<le> int NBUF" "1 \<le> outstanding (lg ?s)" "Xv6_Log.linv H (lg ?s)"
    using fok_card(2) [OF f r] r f o by (simp_all add: fok_def bset_def set_bc_def room_def)
  have "n \<notin> log_area (lstart (lg ?s))" using n by (simp add: bset_def set_bc_def)
  moreover have V: "blk (ldev (lg s)) (set_data b bs (bc (lg s))) = (fview s)(n := bs)"
    using cst_set_data [OF fok_cst [OF f] b, of bs] by simp
  moreover note log_write_spec [OF sz(4) b _ sz(3,1,2)]
  ultimately obtain l' where l': "log_write b (lg ?s) = Ok l'" "Xv6_Log.linv H l'"
      "lh_block l' ` {..<nat (lh_n l')} = insert n (logset s)" "blk (ldev (lg s)) (bc l') = (fview s)(n := bs)"
      "outstanding l' = outstanding (lg s)" "lstart l' = lstart (lg s)" "ldev l' = ldev (lg s)" "lsize l' = lsize (lg s)"
    by (auto simp: okR_Ex bset_def set_bc_def logset_def)
  have pid: "curpid (bc l') = curpid (bc (lg s))"
    using log_write_pid [OF l'(1)] by (simp add: bset_def set_bc_def set_data_def)
  have "\<forall>m. length (blk (ldev l') (bc l') m) = BSIZE" using l'(4,7) o f l by (simp add: fok_def)
  moreover have "(bset b bs s)\<lparr>lg := l'\<rparr> = s\<lparr>lg := l'\<rparr>" by (simp add: bset_def set_bc_def)
  ultimately show ?thesis
    using l' pid f o by (auto simp: f_log_write_def fok_def wrote_def logged_def f_pid_def logset_def)
qed

lemma room_bread: "fok H s \<Longrightarrow> room k s \<Longrightarrow> card (dom H) \<le> 1 \<Longrightarrow> lh_n (lg s) + int (card (dom H)) < int NBUF"
  using fok_card(2) [of H s k] by (auto simp: fok_def)

text \<open>A block is read, changed by \<open>g\<close>, logged and released.\<close>

lemma write_held:
  assumes f: "fok (H(b \<mapsto> n)) s" and b: "b \<notin> dom H" and n: "n \<notin> log_area (lstart (lg s))" and r: "room k s"
    and l: "length bs = BSIZE"
  shows "okR (bindR (f_log_write b (bset b bs s)) (f_brelse b)) (\<lambda>s'. fok H s' \<and> wrote {n} ((fview s)(n := bs)) s s')"
proof (rule okR_bindI)
  show "okR (f_log_write b (bset b bs s)) (\<lambda>s'. fok (H(b \<mapsto> n)) s' \<and> wrote {n} ((fview s)(n := bs)) s s' \<and>
    n \<in> logset s')"
    by (rule f_log_write_ok [OF f _ n r l]) simp
next
  fix s1
  assume a: "fok (H(b \<mapsto> n)) s1 \<and> wrote {n} ((fview s)(n := bs)) s s1 \<and> n \<in> logset s1"
  have e: "H(b \<mapsto> n, b := None) = H" using b by (auto simp: fun_eq_iff domIff)
  show "okR (f_brelse b s1) (\<lambda>s'. fok H s' \<and> wrote {n} ((fview s)(n := bs)) s s')"
    by (rule okR_mono [OF f_brelse_ok [of "H(b \<mapsto> n)" s1 b n]])
      (use a e logged_trans [of "{n}" s s1 "{}"] in \<open>auto simp: viewed_def wrote_def\<close>)
qed

lemma rewrite_block:
  assumes f: "fok H s" and c: "card (dom H) \<le> 1" and n: "n \<notin> ran H" "n \<notin> log_area (lstart (lg s))" and r: "room k s"
    and d: "dv = ldev (lg s)" and l: "\<And>bs. length bs = BSIZE \<Longrightarrow> length (g bs) = BSIZE"
    and F: "\<And>b s1. bdata s1 b = fview s n \<Longrightarrow> F b s1 = bindR (f_log_write b (bset b (g (bdata s1 b)) s1)) (f_brelse b)"
  shows "okR (bindR (f_bread dv n s) (\<lambda>(b, s1). F b s1)) (\<lambda>s'. fok H s' \<and> wrote {n} ((fview s)(n := g (fview s n))) s s')"
proof (rule okR_bindI2 [OF f_bread_ok [OF f n(1) area_not_start [OF n(2)] room_bread [OF f r c] d]])
  fix b s1
  assume a: "fok (H(b \<mapsto> n)) s1 \<and> b \<notin> dom H \<and> viewed s s1"
  have v: "logged {} s s1" "fview s1 = fview s" "lstart (lg s1) = lstart (lg s)"
    using a by (auto simp: viewed_def logged_def)
  have bd: "bdata s1 b = fview s n" using fok_data [of "H(b \<mapsto> n)" s1 b n] a v by simp
  have "okR (F b s1) (\<lambda>s'. fok H s' \<and> wrote {n} ((fview s1)(n := g (bdata s1 b))) s1 s')"
    unfolding F [OF bd] by (rule write_held) (use a n(2) v bd l fok_len [OF f] room_viewed [of s s1] r in auto)
  then show "okR (case (b, s1) of (b, s1) \<Rightarrow> F b s1) (\<lambda>s'. fok H s' \<and> wrote {n} ((fview s)(n := g (fview s n))) s s')"
    using bd v logged_trans [OF v(1), of "{n}"] by (auto elim!: okR_mono simp: wrote_def)
qed

section \<open>The allocator\<close>

lemma bzero_ok:
  assumes "fok H s" "card (dom H) \<le> 1" "n \<notin> ran H" "n \<notin> log_area (lstart (lg s))" "room k s" "dv = ldev (lg s)"
  shows "okR (bzero dv n s) (\<lambda>s'. fok H s' \<and> wrote {n} ((fview s)(n := replicate BSIZE 0)) s s')"
  unfolding bzero_def by (rule rewrite_block [OF assms, where g = "\<lambda>_. replicate BSIZE 0"]) simp_all

lemma is_free_bit: "is_free bs i \<longleftrightarrow> \<not> bit (bs ! (i div 8)) (i mod 8)"
proof -
  have "bs ! (i div 8) AND bitmask i = (if bit (bs ! (i div 8)) (i mod 8) then bitmask i else 0)"
    by (rule bit_word_eqI) (auto simp: bitmask_def bit_simps)
  moreover have "bitmask i \<noteq> 0" using bit_push_bit_iff [of "i mod 8" "1 :: u8" "i mod 8"] by (auto simp: bitmask_def simp del: push_bit_of_1)
  ultimately show ?thesis by (auto simp: is_free_def)
qed

lemma div_mod_eq: "i div 8 = j div 8 \<Longrightarrow> i mod 8 = j mod 8 \<Longrightarrow> i = (j :: nat)"
  by (metis div_mult_mod_eq)

lemma is_free_set:
  assumes "i div 8 < length bs"
  shows "is_free (bs[i div 8 := bs ! (i div 8) OR bitmask i]) j \<longleftrightarrow> j \<noteq> i \<and> is_free bs j"
    and "is_free (bs[i div 8 := bs ! (i div 8) AND NOT (bitmask i)]) j \<longleftrightarrow> j = i \<or> is_free bs j"
  using assms div_mod_eq [of i j]
  by (auto simp: is_free_bit nth_list_update bitmask_def bit_simps)

text \<open>The bit of a block in the bitmap.\<close>

definition used :: "fsys \<Rightarrow> u32 \<Rightarrow> bool" where
  "used s n \<longleftrightarrow> \<not> is_free (fview s (BBLOCK n (sb s))) (unat n mod BPB)"

text \<open>
  What the layout of the disk gives the allocator: log, bitmap and inodes do not overlap, their blocks and block 0 are marked as in
  use, and so are the blocks that are being held.
\<close>

definition iblocks :: "fsys \<Rightarrow> u32 set" where
  "iblocks s = (\<lambda>i. IBLOCK i (sb s)) ` {..<ninodes (sb s)}"

definition layout :: "(nat \<rightharpoonup> u32) \<Rightarrow> fsys \<Rightarrow> bool" where
  "layout H s \<longleftrightarrow> fsize (sb s) \<noteq> 0 \<and> used s 0 \<and> bitmap s \<inter> (log_area (lstart (lg s)) \<union> ran H) = {} \<and>
     iblocks s \<inter> (log_area (lstart (lg s)) \<union> bitmap s) = {} \<and>
     (\<forall>n < fsize (sb s). \<not> used s n \<longrightarrow> n \<notin> log_area (lstart (lg s)) \<union> ran H \<union> bitmap s \<union> iblocks s)"

definition mark_used :: "u32 \<Rightarrow> u8 list \<Rightarrow> u8 list" where
  "mark_used n bs = (let i = unat n mod BPB in bs[i div 8 := bs ! (i div 8) OR bitmask i])"

definition mark_free :: "u32 \<Rightarrow> u8 list \<Rightarrow> u8 list" where
  "mark_free n bs = (let i = unat n mod BPB in bs[i div 8 := bs ! (i div 8) AND NOT (bitmask i)])"

lemma mark_length [simp]: "length (mark_used n bs) = length bs" "length (mark_free n bs) = length bs"
  by (simp_all add: mark_used_def mark_free_def Let_def)

lemma u32_bound: "unat (n :: u32) < 2 ^ 32"
  using unsigned_less [where 'a = nat and w = n] by simp

lemma BBLOCK_same:
  assumes "BBLOCK n x = BBLOCK m x" and "unat n mod BPB = unat m mod BPB"
  shows "n = m"
proof -
  have "n div of_nat BPB = m div of_nat BPB" using assms(1) by (simp add: BBLOCK_def)
  then have "unat (n div of_nat BPB) = unat (m div of_nat BPB)" by simp
  then have "unat n div BPB = unat m div BPB" by (simp add: unat_div)
  then show ?thesis using assms(2) by (metis div_mult_mod_eq word_unat_eq_iff)
qed

text \<open>After \<open>mark_used\<close> exactly one more block is in use.\<close>

lemma used_after:
  assumes f: "fok H s" and sb: "sb s' = sb s"
  shows "fview s' (BBLOCK m (sb s)) = ((fview s)(BBLOCK n (sb s) := mark_used n (fview s (BBLOCK n (sb s))))) (BBLOCK m (sb s)) \<Longrightarrow>
      used s' m \<longleftrightarrow> m = n \<or> used s m"
    and "fview s' (BBLOCK m (sb s)) = ((fview s)(BBLOCK n (sb s) := mark_free n (fview s (BBLOCK n (sb s))))) (BBLOCK m (sb s)) \<Longrightarrow>
      used s' m \<longleftrightarrow> m \<noteq> n \<and> used s m"
proof -
  have l: "unat n mod BPB div 8 < length (fview s (BBLOCK n (sb s)))"
    using fok_len [OF f] by simp
  note S = is_free_set [OF l, of "unat m mod BPB"]
  { assume v: "fview s' (BBLOCK m (sb s)) = ((fview s)(BBLOCK n (sb s) := mark_used n (fview s (BBLOCK n (sb s))))) (BBLOCK m (sb s))"
    show "used s' m \<longleftrightarrow> m = n \<or> used s m"
      using S(1) BBLOCK_same [of n "sb s" m] unfolding used_def sb v mark_used_def Let_def fun_upd_apply by auto }
  { assume v: "fview s' (BBLOCK m (sb s)) = ((fview s)(BBLOCK n (sb s) := mark_free n (fview s (BBLOCK n (sb s))))) (BBLOCK m (sb s))"
    show "used s' m \<longleftrightarrow> m \<noteq> n \<and> used s m"
      using S(2) BBLOCK_same [of n "sb s" m] unfolding used_def sb v mark_free_def Let_def fun_upd_apply by auto }
qed

text \<open>\<^verbatim>\<open>bfree\<close> clears the bit of the block.\<close>

lemma bfree_ok:
  assumes "fok H s" "card (dom H) \<le> 1" "BBLOCK n (sb s) \<notin> ran H" "BBLOCK n (sb s) \<notin> log_area (lstart (lg s))" "room k s"
    "dv = ldev (lg s)" and u: "used s n"
  shows "okR (bfree dv n s) (\<lambda>s'. fok H s' \<and> wrote {BBLOCK n (sb s)} ((fview s)(BBLOCK n (sb s) := mark_free n (fview s (BBLOCK n (sb s))))) s s')"
  unfolding bfree_def
  by (rule rewrite_block [OF assms(1-6), where g = "mark_free n"]) (use u in \<open>simp_all add: used_def mark_free_def Let_def\<close>)

text \<open>The word of a block number in the range of the bitmap block that starts at \<open>j * BPB\<close>.\<close>

lemma BBLOCK_in:
  assumes "i < BPB" and "j * BPB + i < 2 ^ 32"
  shows "unat (of_nat (j * BPB + i) :: u32) = j * BPB + i" and "unat (of_nat (j * BPB + i) :: u32) mod BPB = i"
    and "BBLOCK (of_nat (j * BPB + i)) x = BBLOCK (of_nat (j * BPB)) x"
proof -
  show u: "unat (of_nat (j * BPB + i) :: u32) = j * BPB + i"
    using assms(2) by (simp add: unat_of_nat del: of_nat_add of_nat_mult)
  then show "unat (of_nat (j * BPB + i) :: u32) mod BPB = i" using assms(1) by simp
  have v: "unat (of_nat (j * BPB) :: u32) = j * BPB" using assms(2) by (simp add: unat_of_nat del: of_nat_add of_nat_mult)
  have "unat ((of_nat (j * BPB + i) :: u32) div of_nat BPB) = unat ((of_nat (j * BPB) :: u32) div of_nat BPB)"
    using assms(1) by (simp add: unat_div u v del: of_nat_add of_nat_mult)
  then show "BBLOCK (of_nat (j * BPB + i)) x = BBLOCK (of_nat (j * BPB)) x"
    unfolding BBLOCK_def by (metis word_unat_eq_iff)
qed

lemma find_upt:
  "find P [0..<n] = None \<longleftrightarrow> (\<forall>i<n. \<not> P i)"
  "find P [0..<n] = Some k \<Longrightarrow> k < n \<and> P k \<and> (\<forall>i<k. \<not> P i)"
proof -
  show "find P [0..<n] = None \<longleftrightarrow> (\<forall>i<n. \<not> P i)" by (auto simp: find_None_iff)
  assume "find P [0..<n] = Some k"
  then obtain i where i: "i < n" "P ([0..<n] ! i)" "k = [0..<n] ! i" "\<forall>j<i. \<not> P ([0..<n] ! j)"
    by (auto simp: find_Some_iff)
  then show "k < n \<and> P k \<and> (\<forall>i<k. \<not> P i)" by simp
qed

text \<open>The result of the allocator when it has looked at the blocks from \<open>j\<close> on.\<close>

definition balloced :: "nat \<Rightarrow> fsys \<Rightarrow> u32 \<Rightarrow> fsys \<Rightarrow> bool" where
  "balloced j s a s' \<longleftrightarrow>
     (if \<exists>i. j \<le> i \<and> i < unat (fsize (sb s)) \<and> \<not> used s (of_nat i)
      then j \<le> unat a \<and> unat a < unat (fsize (sb s)) \<and> \<not> used s a \<and> (\<forall>i. j \<le> i \<and> i < unat a \<longrightarrow> used s (of_nat i)) \<and>
        wrote {BBLOCK a (sb s), a} ((fview s)(BBLOCK a (sb s) := mark_used a (fview s (BBLOCK a (sb s))), a := replicate BSIZE 0)) s s'
      else a = 0 \<and> viewed s s')"

lemma layout_logged:
  assumes "layout H s" and "sb s' = sb s" and "lstart (lg s') = lstart (lg s)" and "fview s' = fview s"
  shows "layout H s'"
  using assms by (auto simp: layout_def used_def bitmap_def iblocks_def)

lemma balloc_take:
  assumes f: "fok (H(b \<mapsto> BBLOCK a (sb s))) s" and b: "b \<notin> dom H" and c: "card (dom H) \<le> 1" and L: "layout H s" and r: "room k s"
    and d: "dv = ldev (lg s)" and a: "unat a < unat (fsize (sb s))" "\<not> used s a"
  shows "okR (bindR (f_log_write b (bset b (mark_used a (bdata s b)) s)) (\<lambda>s. bindR (f_brelse b s) (bzero dv a)))
    (\<lambda>s'. fok H s' \<and> wrote {BBLOCK a (sb s), a} ((fview s)(BBLOCK a (sb s) := mark_used a (fview s (BBLOCK a (sb s))), a := replicate BSIZE 0)) s s')"
proof -
  let ?n = "BBLOCK a (sb s)" and ?bs = "mark_used a (bdata s b)"
  let ?W = "(fview s)(?n := mark_used a (fview s ?n))"
  have bd: "bdata s b = fview s ?n" using fok_data [OF f, of b] by simp
  have nb: "?n \<in> bitmap s" using a(1) by (simp add: bitmap_def word_less_nat_alt)
  then have n: "?n \<notin> log_area (lstart (lg s))" "a \<notin> log_area (lstart (lg s))" "a \<notin> ran H"
    using L a by (auto simp: layout_def word_less_nat_alt)
  have "okR (bindR (f_log_write b (bset b ?bs s)) (f_brelse b)) (\<lambda>s'. fok H s' \<and> wrote {?n} ((fview s)(?n := ?bs)) s s')"
    by (rule write_held [OF f b n(1) r]) (use fok_len [OF f] bd in auto)
  then obtain s1 where s1: "bindR (f_log_write b (bset b ?bs s)) (f_brelse b) = Ok s1" "fok H s1" "wrote {?n} ?W s s1"
    unfolding okR_Ex bd by blast
  have l1: "lstart (lg s1) = lstart (lg s)" "ldev (lg s1) = ldev (lg s)"
    using s1(3) by (auto simp: wrote_def logged_def)
  have "logged (bitmap s \<union> {}) s s1" using s1(3) nb by (auto simp: wrote_def intro: logged_mono)
  then have r1: "room k s1" by (rule room_logged) (simp add: r)
  obtain s2 where s2: "bzero dv a s1 = Ok s2" "fok H s2" "wrote {a} (?W(a := replicate BSIZE 0)) s1 s2"
    using bzero_ok [OF s1(2) c n(3)] n(2) l1 r1 d s1(3) by (auto simp: okR_Ex wrote_def)
  have "wrote {?n, a} (?W(a := replicate BSIZE 0)) s s2"
    using s1(3) s2(3) logged_trans [of "{?n}" s s1 "{a}" s2] by (simp add: wrote_def insert_commute)
  moreover have "bindR (f_log_write b (bset b ?bs s)) (\<lambda>s. bindR (f_brelse b s) (bzero dv a)) = Ok s2"
    using s1(1) s2(1) by (auto simp: bindR_eq_Ok)
  ultimately show ?thesis using s2(2) by simp
qed

text \<open>One round of the outer loop looks at the bits of one block of the bitmap.\<close>

lemma balloc_bits:
  assumes j: "j * BPB < unat (fsize (sb s))"
  shows "(case find (is_free (fview s (BBLOCK (of_nat (j * BPB)) (sb s)))) [0..<min BPB (unat (fsize (sb s)) - j * BPB)] of
      None \<Rightarrow> \<forall>i. j * BPB \<le> i \<and> i < Suc j * BPB \<and> i < unat (fsize (sb s)) \<longrightarrow> used s (of_nat i)
    | Some k \<Rightarrow> k < BPB \<and> j * BPB + k < unat (fsize (sb s)) \<and> \<not> used s (of_nat (j * BPB + k)) \<and>
        (\<forall>i. j * BPB \<le> i \<and> i < j * BPB + k \<longrightarrow> used s (of_nat i)))"
proof -
  let ?P = "is_free (fview s (BBLOCK (of_nat (j * BPB)) (sb s)))" and ?m = "min BPB (unat (fsize (sb s)) - j * BPB)"
  have U: "used s (of_nat (j * BPB + k)) \<longleftrightarrow> \<not> ?P k" if "k < ?m" for k
  proof -
    have "unat (fsize (sb s)) < 2 ^ 32" by (rule u32_bound)
    then have k: "k < BPB" "j * BPB + k < 2 ^ 32" using that by auto
    show ?thesis unfolding used_def BBLOCK_in(2,3) [OF k] ..
  qed
  have D: "used s (of_nat i) \<longleftrightarrow> \<not> ?P (i - j * BPB)" if "j * BPB \<le> i" "i - j * BPB < ?m" for i
    using U [OF that(2)] that(1) by (simp only: le_add_diff_inverse)
  show ?thesis
  proof (cases "find ?P [0..<?m]")
    case None
    then have "used s (of_nat i)" if "j * BPB \<le> i" "i < Suc j * BPB" "i < unat (fsize (sb s))" for i
      using D [OF that(1)] that diff_less_mono [OF that(3,1)] less_diff_conv2 [OF that(1), of BPB] unfolding find_upt by simp
    then show ?thesis using None by simp
  next
    case (Some k)
    then have k: "k < ?m" "?P k" "\<forall>i<k. \<not> ?P i" using find_upt(2) by blast+
    have "used s (of_nat i)" if "j * BPB \<le> i" "i < j * BPB + k" for i
      using D [OF that(1)] k less_diff_conv2 [OF that(1), of k] that(2) by simp
    moreover have "\<not> used s (of_nat (j * BPB + k))" using U k by blast
    ultimately show ?thesis using Some k(1) by auto
  qed
qed

lemma wrote_viewed: "viewed s s1 \<Longrightarrow> wrote k V s1 s2 \<Longrightarrow> wrote k V s s2"
  using logged_trans [of "{}" s s1 k s2] by (simp add: viewed_def wrote_def)

lemma used_viewed: "viewed s s1 \<Longrightarrow> used s1 = used s"
  using logged_fields(1) [of "{}" s s1] by (auto simp: used_def viewed_def fun_eq_iff)

lemma balloc_skip:
  assumes v: "viewed s s1" and u: "\<forall>i. a \<le> i \<and> i < b \<and> i < unat (fsize (sb s)) \<longrightarrow> used s (of_nat i)" and "a \<le> b"
    and B: "balloced b s1 c s2"
  shows "balloced a s c s2"
proof -
  have f: "fview s1 = fview s" "sb s1 = sb s" "used s1 = used s"
    using v logged_fields(1) [OF viewed_logged [OF v]] used_viewed [OF v] by (simp_all add: viewed_def)
  have e: "(\<exists>i. a \<le> i \<and> i < unat (fsize (sb s)) \<and> \<not> used s (of_nat i)) \<longleftrightarrow> (\<exists>i. b \<le> i \<and> i < unat (fsize (sb s)) \<and> \<not> used s (of_nat i))"
    using u \<open>a \<le> b\<close> by (meson leI le_trans)
  have g: "(\<forall>i. a \<le> i \<and> i < unat c \<longrightarrow> used s (of_nat i))"
    if "\<forall>i. b \<le> i \<and> i < unat c \<longrightarrow> used s (of_nat i)" "unat c < unat (fsize (sb s))"
    using that u by (meson leI less_trans)
  show ?thesis
  proof (cases "\<exists>i. b \<le> i \<and> i < unat (fsize (sb s)) \<and> \<not> used s (of_nat i)")
    case True
    have m: "a \<le> unat c" if "b \<le> unat c" using that \<open>a \<le> b\<close> by simp
    have "balloced b s1 c s2 \<Longrightarrow> ?thesis"
      unfolding balloced_def f e if_P [OF True] using g m wrote_viewed [OF v] by blast
    then show ?thesis using B by blast
  next
    case False
    show ?thesis using B viewed_trans [OF v] unfolding balloced_def f e if_not_P [OF False] by blast
  qed
qed

lemma balloc_found:
  assumes s1: "fok (H(b \<mapsto> BBLOCK a (sb s))) s1" "b \<notin> dom H" "viewed s s1" and c: "card (dom H) \<le> 1" and L: "layout H s"
    and r: "room k s" and d: "dv = ldev (lg s)" and a: "j \<le> unat a" "unat a < unat (fsize (sb s))" "\<not> used s a"
    "\<forall>i. j \<le> i \<and> i < unat a \<longrightarrow> used s (of_nat i)"
  shows "okR (bindR (f_log_write b (bset b (mark_used a (bdata s1 b)) s1)) (\<lambda>s. bindR (f_brelse b s) (\<lambda>s. bindR (bzero dv a s) (\<lambda>s. Ok (a, s)))))
    (\<lambda>(a, s'). fok H s' \<and> balloced j s a s')"
proof -
  note k = logged_fields [OF viewed_logged [OF s1(3)]]
  have V: "fview s1 = fview s" "used s1 = used s" using s1(3) used_viewed by (auto simp: viewed_def)
  have L1: "layout H s1" by (rule layout_logged [OF L]) (use k V in auto)
  have "fok (H(b \<mapsto> BBLOCK a (sb s1))) s1" using s1(1) k(1) by simp
  moreover have "dv = ldev (lg s1)" "unat a < unat (fsize (sb s1))" "\<not> used s1 a" using k(1,7) V d a(2,3) by simp_all
  ultimately have "\<exists>s2. bindR (f_log_write b (bset b (mark_used a (bdata s1 b)) s1)) (\<lambda>s. bindR (f_brelse b s) (bzero dv a)) = Ok s2 \<and>
      fok H s2 \<and> wrote {BBLOCK a (sb s), a} ((fview s)(BBLOCK a (sb s) := mark_used a (fview s (BBLOCK a (sb s))), a := replicate BSIZE 0)) s1 s2"
    using balloc_take [OF _ s1(2) c L1 room_viewed [OF s1(3) r], of a dv] unfolding okR_Ex k(1) V(1) by simp
  then obtain s2 where s2: "bindR (f_log_write b (bset b (mark_used a (bdata s1 b)) s1)) (\<lambda>s. bindR (f_brelse b s) (bzero dv a)) = Ok s2"
      "fok H s2" "wrote {BBLOCK a (sb s), a} ((fview s)(BBLOCK a (sb s) := mark_used a (fview s (BBLOCK a (sb s))), a := replicate BSIZE 0)) s1 s2"
    by auto
  have i: "unat (fsize (sb s)) < 2 ^ 32" by (rule u32_bound)
  have "\<exists>i. j \<le> i \<and> i < unat (fsize (sb s)) \<and> \<not> used s (of_nat i)" using a(1-3) by (intro exI [of _ "unat a"]) simp
  then have "balloced j s a s2" using a wrote_viewed [OF s1(3) s2(3)] by (simp add: balloced_def)
  moreover have "bindR (f_log_write b (bset b (mark_used a (bdata s1 b)) s1)) (\<lambda>s. bindR (f_brelse b s) (\<lambda>s. bindR (bzero dv a s) (\<lambda>s. Ok (a, s)))) = Ok (a, s2)"
    using s2(1) by (auto simp: bindR_eq_Ok)
  ultimately show ?thesis using s2(2) by simp
qed

lemma balloc_from_ok:
  assumes "fok H s" "card (dom H) \<le> 1" "layout H s" "room k s" "dv = ldev (lg s)" "fs = unat (fsize (sb s))"
  shows "okR (balloc_from dv (map (\<lambda>i. i * BPB) [j..<(fs + (BPB - 1)) div BPB]) s) (\<lambda>(a, s'). fok H s' \<and> balloced (j * BPB) s a s')"
  using assms
proof (induction "(fs + (BPB - 1)) div BPB - j" arbitrary: j s)
  case 0
  then have "(fs + (BPB - 1)) div BPB \<le> j" by simp
  then have "fs \<le> j * BPB" by linarith
  then have "balloced (j * BPB) s 0 s" using 0 by (auto simp: balloced_def)
  then show ?case using 0 by simp
next
  case (Suc m)
  let ?N = "(fs + (BPB - 1)) div BPB"
  have j: "j < ?N" using Suc(2) by linarith
  then have jf: "j * BPB < unat (fsize (sb s))" unfolding Suc.prems(6) by linarith
  let ?n = "BBLOCK (of_nat (j * BPB)) (sb s)"
  have fs: "unat (fsize (sb s)) < 2 ^ 32" by (rule u32_bound)
  have "unat (of_nat (j * BPB) :: u32) = j * BPB" using BBLOCK_in(1) [of 0 j] jf fs by (simp del: of_nat_mult)
  then have "(of_nat (j * BPB) :: u32) < fsize (sb s)" using jf by (simp add: word_less_nat_alt del: of_nat_mult)
  then have "?n \<in> bitmap s" by (simp add: bitmap_def)
  then have n: "?n \<notin> log_area (lstart (lg s))" "?n \<notin> ran H" using Suc.prems(3) by (auto simp: layout_def)
  note r1 = Suc.prems(4)
  have e: "[j..<?N] = j # [Suc j..<?N]" using j by (rule upt_conv_Cons)
  obtain b s1 where s1: "f_bread dv ?n s = Ok (b, s1)" "fok (H(b \<mapsto> ?n)) s1" "b \<notin> dom H" "viewed s s1"
    using f_bread_ok [OF Suc.prems(1) n(2) area_not_start [OF n(1)] room_bread [OF Suc.prems(1) r1 Suc.prems(2)] Suc.prems(5)]
    by (auto simp: okR_Ex)
  note k = logged_fields [OF viewed_logged [OF s1(4)]]
  have bd: "bdata s1 b = fview s ?n" using fok_data [OF s1(2), of b] viewed_view [OF s1(4)] by simp
  show ?case
  proof (cases "find (is_free (fview s ?n)) [0..<min BPB (unat (fsize (sb s)) - j * BPB)]")
    case None
    have u: "\<forall>i. j * BPB \<le> i \<and> i < Suc j * BPB \<and> i < unat (fsize (sb s)) \<longrightarrow> used s (of_nat i)"
      using balloc_bits [OF jf] None by simp
    obtain s2 where s2: "f_brelse b s1 = Ok s2" "fok H s2" "viewed s s2"
      using brelse_clean [OF Suc.prems(1) n(2) s1(2-4)] by (auto simp: okR_Ex)
    note k2 = logged_fields [OF viewed_logged [OF s2(3)]]
    have m: "m = ?N - Suc j" using Suc(2) by linarith
    have "okR (balloc_from dv (map (\<lambda>i. i * BPB) [Suc j..<?N]) s2) (\<lambda>(a, s'). fok H s' \<and> balloced (Suc j * BPB) s2 a s')"
      by (rule Suc(1) [OF m s2(2) Suc.prems(2) layout_logged [OF Suc.prems(3)]])
        (use k2 viewed_view [OF s2(3)] Suc.prems(4-6) room_viewed [OF s2(3)] in auto)
    then have "okR (balloc_from dv (map (\<lambda>i. i * BPB) [Suc j..<?N]) s2) (\<lambda>(a, s'). fok H s' \<and> balloced (j * BPB) s a s')"
      by (rule okR_mono) (use balloc_skip [OF s2(3) u] in auto)
    then show ?thesis unfolding e list.map balloc_from.simps by (simp add: s1(1) bd k None s2(1) del: of_nat_mult upt_Suc)
  next
    case (Some i)
    let ?a = "of_nat (j * BPB + i) :: u32"
    have i: "i < BPB" "j * BPB + i < unat (fsize (sb s))" "\<not> used s ?a" "\<forall>c. j * BPB \<le> c \<and> c < j * BPB + i \<longrightarrow> used s (of_nat c)"
      using balloc_bits [OF jf] Some by simp_all
    have "j * BPB + i < 2 ^ 32" using i(2) fs by linarith
    note A = BBLOCK_in [OF i(1) this]
    have "okR (bindR (f_log_write b (bset b (mark_used ?a (bdata s1 b)) s1)) (\<lambda>s. bindR (f_brelse b s) (\<lambda>s. bindR (bzero dv ?a s) (\<lambda>s. Ok (?a, s)))))
        (\<lambda>(a, s'). fok H s' \<and> balloced (j * BPB) s a s')"
      by (rule balloc_found) (use s1 A i Suc.prems in \<open>auto simp del: of_nat_add of_nat_mult\<close>)
    then show ?thesis
      unfolding e list.map balloc_from.simps
      by (simp add: s1(1) k Some mark_used_def Let_def A(2) bd del: of_nat_mult of_nat_add upt_Suc)
  qed
qed

lemma balloc_ok:
  assumes "fok H s" "card (dom H) \<le> 1" "layout H s" "room k s" "dv = ldev (lg s)"
  shows "okR (balloc dv s) (\<lambda>(a, s'). fok H s' \<and> balloced 0 s a s')"
  using balloc_from_ok [OF assms refl, of 0] by (simp add: balloc_def)

text \<open>What a client sees of an allocation.\<close>

definition taken :: "fsys \<Rightarrow> u32 \<Rightarrow> fsys \<Rightarrow> bool" where
  "taken s a s' \<longleftrightarrow> a \<noteq> 0 \<and> a < fsize (sb s) \<and> \<not> used s a \<and> logged (insert a (bitmap s)) s s' \<and> fview s' a = replicate BSIZE 0 \<and>
     (\<forall>n. n \<noteq> a \<and> n \<notin> bitmap s \<longrightarrow> fview s' n = fview s n) \<and> (\<forall>n < fsize (sb s). used s' n \<longleftrightarrow> n = a \<or> used s n)"

lemma balloced_cases:
  assumes f: "fok H s" and L: "layout H s" and B: "balloced 0 s a s'"
  shows "layout H s' \<and> (if \<forall>n < fsize (sb s). used s n then a = 0 \<and> viewed s s'
    else taken s a s' \<and> (\<forall>n < a. used s n))"
proof (cases "\<forall>n < fsize (sb s). used s n")
  case True
  then have "\<nexists>i. 0 \<le> i \<and> i < unat (fsize (sb s)) \<and> \<not> used s (of_nat i)"
    using u32_bound [of "fsize (sb s)"] by (auto simp: word_less_nat_alt unat_of_nat)
  then have "a = 0 \<and> viewed s s'" using B unfolding balloced_def by (simp only: if_False)
  then show ?thesis using True layout_logged [OF L, of s'] logged_fields [of "{}" s s'] by (auto simp: viewed_def)
next
  case False
  then obtain n where "n < fsize (sb s)" "\<not> used s n" by blast
  then have "\<exists>i. 0 \<le> i \<and> i < unat (fsize (sb s)) \<and> \<not> used s (of_nat i)"
    by (intro exI [of _ "unat n"]) (simp add: word_less_nat_alt)
  then have b: "unat a < unat (fsize (sb s))" "\<not> used s a" "\<forall>i. i < unat a \<longrightarrow> used s (of_nat i)"
      "wrote {BBLOCK a (sb s), a} ((fview s)(BBLOCK a (sb s) := mark_used a (fview s (BBLOCK a (sb s))), a := replicate BSIZE 0)) s s'"
    using B unfolding balloced_def by simp_all
  have aL: "a \<notin> bitmap s" "a \<noteq> 0" "BBLOCK a (sb s) \<in> bitmap s"
    using L b by (auto simp: layout_def bitmap_def word_less_nat_alt)
  have lg: "logged {BBLOCK a (sb s), a} s s'" using b(4) by (simp add: wrote_def)
  note ks = logged_fields [OF lg]
  have u: "used s' m \<longleftrightarrow> m = a \<or> used s m" if "m < fsize (sb s)" for m
  proof (rule used_after(1) [OF f ks(1)])
    have "BBLOCK m (sb s) \<noteq> a" using aL(1) that by (auto simp: bitmap_def)
    then show "fview s' (BBLOCK m (sb s)) = ((fview s)(BBLOCK a (sb s) := mark_used a (fview s (BBLOCK a (sb s))))) (BBLOCK m (sb s))"
      using b(4) by (simp add: wrote_def)
  qed
  moreover have "used s' 0" using u [of 0] L by (simp add: layout_def word_neq_0_conv)
  ultimately have "layout H s'" using L ks unfolding layout_def iblocks_def by auto
  moreover have "fview s' n = fview s n" if "n \<noteq> a" "n \<notin> bitmap s" for n
    using b(4) that aL(3) by (auto simp: wrote_def)
  moreover have "used s n" if "n < a" for n using b(3) [rule_format, of "unat n"] that by (simp add: word_less_nat_alt)
  moreover have "logged (insert a (bitmap s)) s s'" by (rule logged_mono [OF lg]) (use aL(3) in auto)
  ultimately show ?thesis using False b u aL by (auto simp: taken_def wrote_def word_less_nat_alt)
qed

section \<open>Inodes on disk\<close>

text \<open>The fields of an inode that are kept on disk.\<close>

definition same_dinode :: "inode \<Rightarrow> inode \<Rightarrow> bool" where
  "same_dinode x y \<longleftrightarrow> itype x = itype y \<and> major x = major y \<and> minor x = minor y \<and> nlink x = nlink y \<and> isize x = isize y \<and>
     addrs x = addrs y"

lemma get_splice_disj:
  assumes "off + length new \<le> length bs"
  shows "o' + 2 \<le> length bs \<Longrightarrow> o' + 2 \<le> off \<or> off + length new \<le> o' \<Longrightarrow> get16 o' (splice off new bs) = get16 o' bs"
    and "o' + 4 \<le> length bs \<Longrightarrow> o' + 4 \<le> off \<or> off + length new \<le> o' \<Longrightarrow> get32 o' (splice off new bs) = get32 o' bs"
  using assms by (simp_all add: get16_def get32_def slice_splice_disj)

lemma get_put_disj':
  "off + 2 \<le> length bs \<Longrightarrow> o' + 2 \<le> length bs \<Longrightarrow> o' + 2 \<le> off \<or> off + 2 \<le> o' \<Longrightarrow> get16 o' (put16 off v bs) = get16 o' bs"
  "off + 4 \<le> length bs \<Longrightarrow> o' + 2 \<le> length bs \<Longrightarrow> o' + 2 \<le> off \<or> off + 4 \<le> o' \<Longrightarrow> get16 o' (put32 off w bs) = get16 o' bs"
  "off + 2 \<le> length bs \<Longrightarrow> o' + 4 \<le> length bs \<Longrightarrow> o' + 4 \<le> off \<or> off + 2 \<le> o' \<Longrightarrow> get32 o' (put16 off v bs) = get32 o' bs"
  by (simp_all add: put16_def put32_def get_splice_disj)

lemma slice_concat_bytes:
  "i < length xs \<Longrightarrow> slice (4 * i) 4 (concat (map (le_bytes 4) xs)) = le_bytes 4 (xs ! i :: u32)"
proof (induction xs arbitrary: i)
  case (Cons x xs)
  have l: "length (le_bytes 4 x :: u8 list) = 4" by simp
  show ?case
  proof (cases i)
    case (Suc j)
    then show ?thesis using Cons l by (simp add: slice_def)
  qed (use l in \<open>simp add: slice_def\<close>)
qed simp

lemma length_concat_bytes [simp]: "length (concat (map (le_bytes 4) (xs :: u32 list))) = 4 * length xs"
  by (induction xs) auto

lemma slice_in_splice:
  assumes "off + length new \<le> length bs" and "i + n \<le> length new"
  shows "slice (off + i) n (splice off new bs) = slice i n new"
  by (rule nth_equalityI) (use assms in \<open>auto simp: nth_slice nth_splice\<close>)

lemma get_dinode_put_dinode:
  assumes "length (addrs ip) = NDIRECT + 1" and "off + 64 \<le> length bs"
  shows "same_dinode (get_dinode off (put_dinode off ip bs) x) ip"
proof -
  let ?A = "concat (map (le_bytes 4) (addrs ip))"
  have l: "length ?A = 52" using assms(1) by simp
  have "map (\<lambda>i. get32 (off + 12 + 4 * i) (splice (off + 12) ?A b)) [0..<NDIRECT + 1] = addrs ip" if "length b = length bs" for b
  proof (rule nth_equalityI)
    fix i
    assume i: "i < length (map (\<lambda>i. get32 (off + 12 + 4 * i) (splice (off + 12) ?A b)) [0..<NDIRECT + 1])"
    then have "slice (off + 12 + 4 * i) 4 (splice (off + 12) ?A b) = le_bytes 4 (addrs ip ! i)"
      using slice_in_splice [of "off + 12" ?A b "4 * i" 4] slice_concat_bytes [of i "addrs ip"] assms that l by simp
    then have "get32 (off + 12 + 4 * i) (splice (off + 12) ?A b) = addrs ip ! i" by (simp add: get32_def)
    then show "map (\<lambda>i. get32 (off + 12 + 4 * i) (splice (off + 12) ?A b)) [0..<NDIRECT + 1] ! i = addrs ip ! i"
      using i by (simp del: upt_Suc)
  qed (use assms in simp)
  then show ?thesis using assms l
    by (simp add: same_dinode_def get_dinode_def put_dinode_def get_splice_disj get_put_disj' del: upt_Suc)
qed

text \<open>Writing one inode leaves the others of its block as they are.\<close>

lemma get_dinode_other:
  assumes "length (addrs ip) = NDIRECT + 1" and "off + 64 \<le> length bs" and "o' + 64 \<le> length bs" and "o' + 64 \<le> off \<or> off + 64 \<le> o'"
  shows "get_dinode o' (put_dinode off ip bs) x = get_dinode o' bs x"
  using assms(4) by (elim disjE) (use assms(1-3) in \<open>simp_all add: get_dinode_def put_dinode_def get_splice_disj get_put_disj' get_put_disj\<close>)

lemma length_put_dinode [simp]:
  "length (addrs ip) = NDIRECT + 1 \<Longrightarrow> off + 64 \<le> length bs \<Longrightarrow> length (put_dinode off ip bs) = length bs"
  by (simp add: put_dinode_def)

lemma dinode_off_bound: "dinode_off i + 64 \<le> BSIZE"
proof -
  have "unat i mod 16 < 16" by simp
  then show ?thesis unfolding dinode_off_def by linarith
qed

text \<open>\<^verbatim>\<open>iupdate\<close> writes the inode to its place on disk.\<close>

lemma iupdate_ok:
  assumes "fok H s" "card (dom H) \<le> 1" "IBLOCK (inum (itable s ip)) (sb s) \<notin> ran H"
    "IBLOCK (inum (itable s ip)) (sb s) \<notin> log_area (lstart (lg s))" "room k s" "idev (itable s ip) = ldev (lg s)"
    and l: "length (addrs (itable s ip)) = NDIRECT + 1"
  shows "okR (iupdate ip s) (\<lambda>s'. fok H s' \<and> wrote {IBLOCK (inum (itable s ip)) (sb s)} ((fview s)(IBLOCK (inum (itable s ip)) (sb s) :=
    put_dinode (dinode_off (inum (itable s ip))) (itable s ip) (fview s (IBLOCK (inum (itable s ip)) (sb s))))) s s')"
  unfolding iupdate_def Let_def
  by (rule rewrite_block [OF assms(1-6), where g = "put_dinode (dinode_off (inum (itable s ip))) (itable s ip)"])
    (use l dinode_off_bound in simp_all)

end
