(* ===== verification/Xv6_Inode.thy ===== *)
theory Xv6_Inode
  imports Xv6_Block
begin

text \<open>
  The contents of an inode: the map from the blocks of a file to blocks of the disk that \<^verbatim>\<open>bmap\<close> of
  \<^verbatim>\<open>kernel/fs.c\<close> reads and extends, the file as a sequence of bytes, and what \<^verbatim>\<open>readi\<close> and \<^verbatim>\<open>writei\<close> do to it.
\<close>

section \<open>The bytes of a file\<close>

text \<open>Block \<open>bn\<close> of the file, or 0.\<close>

definition fblk :: "fsys \<Rightarrow> nat \<Rightarrow> nat \<Rightarrow> u32" where
  "fblk s ip bn = (let A = addrs (itable s ip) in
     if bn < NDIRECT then A ! bn else if A ! NDIRECT = 0 then 0 else get32 (4 * (bn - NDIRECT)) (fview s (A ! NDIRECT)))"

text \<open>Byte \<open>k\<close> of the file; a block that is not there is one of zeros.\<close>

definition fdata :: "fsys \<Rightarrow> nat \<Rightarrow> nat \<Rightarrow> u8" where
  "fdata s ip k = (let a = fblk s ip (k div BSIZE) in if a = 0 then 0 else fview s a ! (k mod BSIZE))"

text \<open>A block for data: in use, and not one of the log, the bitmap or the inodes.\<close>

definition dblock :: "fsys \<Rightarrow> u32 \<Rightarrow> bool" where
  "dblock s a \<longleftrightarrow> a < fsize (sb s) \<and> used s a \<and> a \<notin> log_area (lstart (lg s)) \<union> bitmap s \<union> iblocks s"

text \<open>The blocks of a file are data blocks and no block is there twice.\<close>

definition inode_ok :: "fsys \<Rightarrow> nat \<Rightarrow> bool" where
  "inode_ok s ip \<longleftrightarrow> length (addrs (itable s ip)) = NDIRECT + 1 \<and> idev (itable s ip) = ldev (lg s) \<and>
     inum (itable s ip) < ninodes (sb s) \<and>
     (addrs (itable s ip) ! NDIRECT \<noteq> 0 \<longrightarrow> dblock s (addrs (itable s ip) ! NDIRECT)) \<and>
     (\<forall>i < MAXFILE. fblk s ip i \<noteq> 0 \<longrightarrow> dblock s (fblk s ip i) \<and> fblk s ip i \<noteq> addrs (itable s ip) ! NDIRECT \<and>
        (\<forall>j < MAXFILE. fblk s ip j = fblk s ip i \<longrightarrow> j = i))"

definition iok :: "nat \<Rightarrow> fsys \<Rightarrow> bool" where
  "iok ip s \<longleftrightarrow> fok Map.empty s \<and> layout Map.empty s \<and> inode_ok s ip"

lemma upi_fields [simp]:
  "lg (upi ip f s) = lg s" "sb (upi ip f s) = sb s" "pt (upi ip f s) = pt s" "me (upi ip f s) = me s" "local (upi ip f s) = local s"
  "itable (upi ip f s) = (itable s)(ip := f (itable s ip))" "f_pid (upi ip f s) = f_pid s"
  by (simp_all add: upi_def f_pid_def)

lemma upi_views [simp]:
  "fok H (upi ip f s) = fok H s" "used (upi ip f s) = used s" "bitmap (upi ip f s) = bitmap s" "iblocks (upi ip f s) = iblocks s"
  "logset (upi ip f s) = logset s" "layout H (upi ip f s) = layout H s" "room k (upi ip f s) = room k s" "dblock (upi ip f s) = dblock s"
  by (auto simp: fok_def used_def bitmap_def iblocks_def logset_def layout_def room_def dblock_def fun_eq_iff)

text \<open>Only the block numbers of one inode changed besides the log.\<close>

definition grown :: "u32 set \<Rightarrow> nat \<Rightarrow> fsys \<Rightarrow> fsys \<Rightarrow> bool" where
  "grown W ip s s' \<longleftrightarrow> logged W (upi ip (\<lambda>x. x\<lparr>addrs := addrs (itable s' ip)\<rparr>) s) s'"

lemma logged_grown:
  assumes "logged W s s'"
  shows "grown W ip s s'"
proof -
  have "upi ip (\<lambda>x. x\<lparr>addrs := addrs (itable s' ip)\<rparr>) s = s"
    using logged_fields(2) [OF assms] by (simp add: upi_def)
  then show ?thesis using assms by (simp add: grown_def)
qed

lemma grown_fields:
  assumes "grown W ip s s'"
  shows "sb s' = sb s" "pt s' = pt s" "me s' = me s" "local s' = local s"
    "lstart (lg s') = lstart (lg s)" "ldev (lg s') = ldev (lg s)" "lsize (lg s') = lsize (lg s)" "f_pid s' = f_pid s"
    "bitmap s' = bitmap s" "iblocks s' = iblocks s" "itable s' = (itable s)(ip := (itable s ip)\<lparr>addrs := addrs (itable s' ip)\<rparr>)"
    "logset s' \<subseteq> logset s \<union> W"
  using logged_fields [OF assms [unfolded grown_def]] assms by (simp_all add: iblocks_def grown_def logged_def)

lemma upd_addrs:
  "g = f(ip := (f ip)\<lparr>addrs := A\<rparr>) \<Longrightarrow> g(ip := (g ip)\<lparr>addrs := B\<rparr>) = f(ip := (f ip)\<lparr>addrs := B\<rparr>)"
  by simp

lemma grown_trans:
  assumes "grown A ip s s1" and "grown B ip s1 s2"
  shows "grown (A \<union> B) ip s s2"
proof -
  let ?u = "\<lambda>x. upi ip (\<lambda>i. i\<lparr>addrs := addrs (itable s2 ip)\<rparr>) x"
  have "s1 = (upi ip (\<lambda>x. x\<lparr>addrs := addrs (itable s1 ip)\<rparr>) s)\<lparr>lg := lg s1\<rparr>"
    using assms(1) by (simp add: grown_def logged_def)
  then have "?u s1 = (?u s)\<lparr>lg := lg s1\<rparr>" by (cases s; cases s1) (auto simp: upi_def intro: upd_addrs)
  then have "logged A (?u s) (?u s1)" using assms(1) by (simp add: grown_def logged_def f_pid_def logset_def)
  then show ?thesis using assms(2) logged_trans unfolding grown_def by blast
qed

section \<open>Mapping a block\<close>

text \<open>The file is what it was: blocks that are there stay, its bytes are the same, and so are the blocks of others.\<close>

definition extends :: "nat \<Rightarrow> fsys \<Rightarrow> fsys \<Rightarrow> bool" where
  "extends ip s s' \<longleftrightarrow> iok ip s' \<and> (\<forall>i < MAXFILE. fblk s ip i \<noteq> 0 \<longrightarrow> fblk s' ip i = fblk s ip i) \<and>
     (\<forall>i < MAXFILE. fblk s ip i = 0 \<and> fblk s' ip i \<noteq> 0 \<longrightarrow> \<not> used s (fblk s' ip i)) \<and>
     (addrs (itable s ip) ! NDIRECT = 0 \<and> addrs (itable s' ip) ! NDIRECT \<noteq> 0 \<longrightarrow> \<not> used s (addrs (itable s' ip) ! NDIRECT)) \<and>
     (addrs (itable s ip) ! NDIRECT \<noteq> 0 \<longrightarrow> addrs (itable s' ip) ! NDIRECT = addrs (itable s ip) ! NDIRECT) \<and>
     (\<forall>k < MAXFILE * BSIZE. fdata s' ip k = fdata s ip k) \<and> (\<forall>n < fsize (sb s). used s n \<longrightarrow> used s' n) \<and>
     (\<forall>n. (dblock s n \<or> n \<in> iblocks s) \<and> (n = 0 \<or> n \<noteq> addrs (itable s' ip) ! NDIRECT) \<longrightarrow> fview s' n = fview s n)"

lemma viewed_inode:
  assumes "viewed s s'"
  shows "fblk s' = fblk s" "fdata s' = fdata s" "dblock s' = dblock s" "inode_ok s' = inode_ok s" "layout H s' = layout H s"
    "itable s' = itable s" "iblocks s' = iblocks s"
proof -
  note k = logged_fields [OF viewed_logged [OF assms]] and u = used_viewed [OF assms] 
  have v: "blk (ldev (lg s)) (bc (lg s')) = fview s" using viewed_view [OF assms] k by simp
  show d: "iblocks s' = iblocks s" "itable s' = itable s" using k by (simp_all add: iblocks_def)
  show a: "fblk s' = fblk s" by (intro ext) (simp add: fblk_def Let_def k v cong: if_cong)
  then show "fdata s' = fdata s" by (intro ext) (simp add: fdata_def Let_def k v cong: if_cong)
  show b: "dblock s' = dblock s" using k u d by (simp add: dblock_def fun_eq_iff)
  show "inode_ok s' = inode_ok s" using a b k by (simp add: inode_ok_def fun_eq_iff)
  show "layout H s' = layout H s" using k u d by (simp add: layout_def)
qed

lemma extends_viewed: "iok ip s \<Longrightarrow> viewed s s' \<Longrightarrow> fok Map.empty s' \<Longrightarrow> extends ip s s'"
  using viewed_inode [of s s'] used_viewed [of s s'] viewed_view [of s s'] by (simp add: extends_def iok_def)

lemma extends_trans:
  assumes "extends ip s s1" and "extends ip s1 s2" and "grown W ip s s1" and g2: "sb s2 = sb s1"
  shows "extends ip s s2"
proof -
  note k = grown_fields [OF assms(3)]
  have d: "dblock s1 n" if "dblock s n" for n using that assms(1) k by (simp add: dblock_def extends_def)
  have i: "n = 0 \<or> n \<noteq> addrs (itable s1 ip) ! NDIRECT" if "n = 0 \<or> n \<noteq> addrs (itable s2 ip) ! NDIRECT" for n
    using that assms(2) by (auto simp: extends_def)
  have "fview s2 n = fview s n" if "dblock s n \<or> n \<in> iblocks s" "n = 0 \<or> n \<noteq> addrs (itable s2 ip) ! NDIRECT" for n
    using that i [OF that(2)] d [of n] k(10) assms(1,2) unfolding extends_def by metis
  moreover have "fblk s2 ip j = fblk s ip j" if "j < MAXFILE" "fblk s ip j \<noteq> 0" for j
    using that assms(1,2) unfolding extends_def by metis
  moreover have "\<not> used s (fblk s2 ip j)" if j: "j < MAXFILE" "fblk s ip j = 0" "fblk s2 ip j \<noteq> 0" for j
  proof (cases "fblk s1 ip j = 0")
    case True
    have "dblock s2 (fblk s2 ip j)" using j assms(2) by (simp add: extends_def iok_def inode_ok_def)
    then have "fblk s2 ip j < fsize (sb s2)" by (simp add: dblock_def)
    then show ?thesis using True j assms(1,2) g2 k(1) unfolding extends_def by metis
  next
    case False
    then show ?thesis using j assms(1,2) unfolding extends_def by metis
  qed
  moreover have "\<not> used s (addrs (itable s2 ip) ! NDIRECT)" if j: "addrs (itable s ip) ! NDIRECT = 0" "addrs (itable s2 ip) ! NDIRECT \<noteq> 0"
  proof (cases "addrs (itable s1 ip) ! NDIRECT = 0")
    case True
    have "dblock s2 (addrs (itable s2 ip) ! NDIRECT)" using j assms(2) by (simp add: extends_def iok_def inode_ok_def)
    then have "addrs (itable s2 ip) ! NDIRECT < fsize (sb s2)" by (simp add: dblock_def)
    then show ?thesis using True j assms(1,2) g2 k(1) unfolding extends_def by metis
  next
    case False
    then show ?thesis using j assms(1,2) unfolding extends_def by metis
  qed
  ultimately show ?thesis using assms(1,2) k(1) unfolding extends_def by simp
qed

text \<open>The inode takes a block that was just allocated, as block \<open>bn\<close> or as its indirect block.\<close>

lemma get32_zeros: "4 * i + 4 \<le> n \<Longrightarrow> get32 (4 * i) (replicate n 0) = 0"
  by (rule bit_word_eqI) (auto simp: get32_def slice_def bit_le_word)

lemma taken_dblock:
  assumes "layout H s" and t: "taken s a s'"
  shows "dblock s' a" and "dblock s n \<Longrightarrow> dblock s' n \<and> n \<noteq> a \<and> fview s' n = fview s n"
    and "n \<in> iblocks s \<Longrightarrow> n \<noteq> a \<and> fview s' n = fview s n"
proof -
  have lg: "logged (insert a (bitmap s)) s s'" using t by (simp add: taken_def)
  have k: "sb s' = sb s" "lstart (lg s') = lstart (lg s)" "bitmap s' = bitmap s" "iblocks s' = iblocks s"
    using logged_fields [OF lg] by (simp_all add: iblocks_def)
  have a: "a \<notin> log_area (lstart (lg s)) \<union> ran H \<union> bitmap s \<union> iblocks s"
    using assms by (auto simp: layout_def taken_def)
  then show "dblock s' a" using t k by (auto simp: dblock_def taken_def)
  show "dblock s n \<Longrightarrow> dblock s' n \<and> n \<noteq> a \<and> fview s' n = fview s n"
    using t k by (auto simp: dblock_def taken_def)
  show "n \<in> iblocks s \<Longrightarrow> n \<noteq> a \<and> fview s' n = fview s n"
    using t a assms(1) by (auto simp: taken_def layout_def)
qed

lemma fblk_taken:
  assumes o: "iok ip s" and t: "taken s a s1" and e: "s' = upi ip (\<lambda>x. x\<lparr>addrs := (addrs x)[i := a]\<rparr>) s1"
    and i: "i \<le> NDIRECT" "addrs (itable s ip) ! i = 0" and j: "j < MAXFILE"
  shows "fblk s' ip j = (if j = i \<and> i < NDIRECT then a else fblk s ip j)"
proof -
  define A where "A = addrs (itable s ip)"
  have "itable s1 = itable s" using t logged_fields(2) by (auto simp: taken_def)
  then have s': "s' = upi ip (\<lambda>x. x\<lparr>addrs := A[i := a]\<rparr>) s1" using e by (simp add: A_def upi_def)
  have len: "length A = 13" using o by (simp add: iok_def inode_ok_def A_def)
  have a0: "a \<noteq> 0" "fview s1 a = replicate BSIZE 0" using t by (auto simp: taken_def)
  have L: "layout Map.empty s" using o by (simp add: iok_def)
  have v: "fview s1 (A ! 12) = fview s (A ! 12)" if "A ! 12 \<noteq> 0"
    using taken_dblock(2) [OF L t, of "A ! 12"] that o by (simp add: iok_def inode_ok_def A_def)
  show ?thesis
  proof (cases "i = NDIRECT")
    case True
    then have "A ! 12 = 0" using i(2) by (simp add: A_def)
    then show ?thesis using True a0 len j by (auto simp: fblk_def s' Let_def A_def get32_zeros)
  next
    case False
    then show ?thesis using i v len by (auto simp: fblk_def s' Let_def A_def nth_list_update)
  qed
qed

lemma inode_ok_add:
  assumes I: "inode_ok s ip" and "length (addrs (itable s' ip)) = NDIRECT + 1" "idev (itable s' ip) = ldev (lg s')"
    "inum (itable s' ip) < ninodes (sb s')"
    and D: "dblock s' a" "a \<noteq> 0" "\<And>n. dblock s n \<Longrightarrow> dblock s' n \<and> n \<noteq> a"
    and b: "\<And>j. j < MAXFILE \<Longrightarrow> fblk s' ip j = (if j = i \<and> \<not> c then a else fblk s ip j)"
    and ind: "addrs (itable s' ip) ! NDIRECT = (if c then a else addrs (itable s ip) ! NDIRECT)"
  shows "inode_ok s' ip"
proof -
  let ?A = "addrs (itable s ip)"
  have bd: "dblock s (fblk s ip j)" if "j < MAXFILE" "fblk s ip j \<noteq> 0" for j
    using I that by (simp add: inode_ok_def)
  have na: "fblk s ip j \<noteq> a" if "j < MAXFILE" for j
    using bd [OF that] D by (cases "fblk s ip j = 0") auto
  have ni: "?A ! NDIRECT \<noteq> a" using I D by (cases "?A ! NDIRECT = 0") (auto simp: inode_ok_def)
  show ?thesis
    unfolding inode_ok_def
  proof (intro conjI allI impI)
    show "dblock s' (addrs (itable s' ip) ! NDIRECT)" if "addrs (itable s' ip) ! NDIRECT \<noteq> 0"
      using that ind D I by (auto simp: inode_ok_def)
  next
    fix j
    assume j: "j < MAXFILE" "fblk s' ip j \<noteq> 0"
    show "dblock s' (fblk s' ip j)" using b [OF j(1)] j D bd by auto
    show "fblk s' ip j \<noteq> addrs (itable s' ip) ! NDIRECT"
      using b [OF j(1)] j ind na [OF j(1)] ni I by (auto simp: inode_ok_def)
  next
    fix j l
    assume j: "j < MAXFILE" "fblk s' ip j \<noteq> 0" and l: "l < MAXFILE" "fblk s' ip l = fblk s' ip j"
    show "l = j" using b [OF j(1)] b [OF l(1)] j l na [OF j(1)] na [OF l(1)] I by (auto simp: inode_ok_def split: if_splits)
  qed (use assms(2-4) in auto)
qed

lemma extends_taken:
  assumes o: "iok ip s" and f: "fok Map.empty s1" "layout Map.empty s1" and t: "taken s a s1"
    and e: "s' = upi ip (\<lambda>x. x\<lparr>addrs := (addrs x)[i := a]\<rparr>) s1" and i: "i \<le> NDIRECT" "addrs (itable s ip) ! i = 0"
  shows "extends ip s s'" and "grown (insert a (bitmap s)) ip s s'"
proof -
  let ?A = "addrs (itable s ip)"
  have lg: "logged (insert a (bitmap s)) s s1" using t by (simp add: taken_def)
  note k = logged_fields [OF lg]
  have L: "layout Map.empty s" and I: "inode_ok s ip" using o by (auto simp: iok_def)
  have len: "length ?A = 13" using I by (simp add: inode_ok_def)
  have a0: "a \<noteq> 0" "fview s1 a = replicate BSIZE 0" using t by (auto simp: taken_def)
  have s': "itable s' ip = (itable s ip)\<lparr>addrs := ?A[i := a]\<rparr>" "dblock s' = dblock s1" "lg s' = lg s1" "sb s' = sb s"
      "used s' = used s1"
    using k by (simp_all add: e)
  have b: "fblk s' ip j = (if j = i \<and> i < NDIRECT then a else fblk s ip j)" if "j < MAXFILE" for j
    by (rule fblk_taken [OF o t e i that])
  have D: "dblock s1 a" "dblock s n \<Longrightarrow> dblock s1 n \<and> n \<noteq> a \<and> fview s1 n = fview s n"
      "n \<in> iblocks s \<Longrightarrow> n \<noteq> a \<and> fview s1 n = fview s n" for n
    using taken_dblock [OF L t] by blast+
  have bd: "dblock s (fblk s ip j)" if "j < MAXFILE" "fblk s ip j \<noteq> 0" for j
    using I that by (simp add: inode_ok_def)
  have 0: "fblk s ip i = 0" if "i < NDIRECT" using i(2) that by (simp add: fblk_def)
  have ind: "addrs (itable s' ip) ! NDIRECT = (if i = NDIRECT then a else ?A ! NDIRECT)" "?A ! NDIRECT \<noteq> 0 \<Longrightarrow> i \<noteq> NDIRECT"
    using s'(1) len i by auto
  have "inode_ok s' ip"
    by (rule inode_ok_add [OF I, where a = a and i = i and c = "i = NDIRECT"])
      (use I s' k(7) len b D(1,2) a0(1) ind i in \<open>auto simp: inode_ok_def\<close>)
  then have ok: "iok ip s'" using f by (simp add: iok_def e)
  have "fdata s' ip m = fdata s ip m" if "m < MAXFILE * BSIZE" for m
  proof -
    have j: "m div BSIZE < MAXFILE" using that by (simp add: less_mult_imp_div_less)
    show ?thesis using b [OF j] 0 a0 D(2) [OF bd [OF j]] s'(3) k(7) by (auto simp: fdata_def Let_def)
  qed
  then show "extends ip s s'" using ok b 0 t D len s' i ind unfolding extends_def by (auto simp: taken_def k(7))
  have "s1 = s\<lparr>lg := lg s1\<rparr>" using lg by (simp add: logged_def)
  then have "s' = (upi ip (\<lambda>x. x\<lparr>addrs := ?A[i := a]\<rparr>) s)\<lparr>lg := lg s1\<rparr>" unfolding e by (cases s; cases s1) (simp add: upi_def)
  then show "grown (insert a (bitmap s)) ip s s'" using lg s'(1) by (simp add: grown_def logged_def f_pid_def logset_def)
qed

text \<open>The indirect block takes the new block.\<close>

lemma layout_empty: "layout H s \<Longrightarrow> layout Map.empty s"
  by (auto simp: layout_def)

lemma get_put32:
  "i < NINDIRECT \<Longrightarrow> k < NINDIRECT \<Longrightarrow> length bs = BSIZE \<Longrightarrow>
   get32 (4 * i) (put32 (4 * k) a bs) = (if i = k then a else get32 (4 * i) bs)"
  by (cases i k rule: linorder_cases) (auto simp: get_put_disj)

lemma extends_entry:
  assumes o: "iok ip s" and f: "fok H s2" "layout H s2" "fok Map.empty s3" and t: "taken s a s2"
    and ind: "ind = addrs (itable s ip) ! NDIRECT" "ind \<noteq> 0" and k: "k < NINDIRECT" "fblk s ip (NDIRECT + k) = 0"
    and w: "wrote {ind} ((fview s2)(ind := put32 (4 * k) a (fview s2 ind))) s2 s3"
  shows "extends ip s s3" and "grown (insert a (insert ind (bitmap s))) ip s s3"
    and "j < MAXFILE \<Longrightarrow> fblk s3 ip j = (if j = NDIRECT + k then a else fblk s ip j)"
proof -
  have lg: "logged (insert a (bitmap s)) s s2" "logged {ind} s2 s3" using t w by (simp_all add: taken_def wrote_def)
  note k2 = logged_fields [OF lg(1)] and k3 = logged_fields [OF lg(2)]
  have L: "layout Map.empty s" and I: "inode_ok s ip" using o by (auto simp: iok_def)
  note D = taken_dblock [OF L t]
  have di: "dblock s ind" using I ind by (simp add: inode_ok_def)
  have a0: "a \<noteq> 0" "fview s2 a = replicate BSIZE 0" "ind \<noteq> a" using t D(2) [OF di] by (auto simp: taken_def)
  have V3: "blk (ldev (lg s)) (bc (lg s3)) = (fview s2)(ind := put32 (4 * k) a (fview s ind))"
    using w D(2) [OF di] k2(7) k3(7) by (simp add: wrote_def)
  have bm: "ind \<notin> bitmap s" using di by (simp add: dblock_def)
  have u: "used s3 n = used s2 n" if "n < fsize (sb s)" for n
  proof -
    have "BBLOCK n (sb s) \<noteq> ind" using that bm by (auto simp: bitmap_def)
    then show ?thesis using k2 k3 V3 by (simp add: used_def)
  qed
  have b: "fblk s3 ip j = (if j = NDIRECT + k then a else fblk s ip j)" if "j < MAXFILE" for j
  proof (cases "j < NDIRECT")
    case False
    then have j: "j - 12 < 256" "j = NDIRECT + k \<longleftrightarrow> j - 12 = k" using that by auto
    show ?thesis using False get_put32 [OF j(1) k(1), of "fview s ind" a] fok_len [of Map.empty s ind] o ind k2 k3 V3 j(2)
      by (simp add: fblk_def Let_def iok_def)
  qed (use k2 k3 in \<open>simp add: fblk_def\<close>)
  then show "j < MAXFILE \<Longrightarrow> fblk s3 ip j = (if j = NDIRECT + k then a else fblk s ip j)" .
  have bd: "dblock s (fblk s ip j) \<and> fblk s ip j \<noteq> ind" if "j < MAXFILE" "fblk s ip j \<noteq> 0" for j
    using I that ind by (simp add: inode_ok_def)
  have D3: "dblock s3 n = dblock s2 n" for n
  proof -
    have "sb s3 = sb s" "lstart (lg s3) = lstart (lg s)" "bitmap s3 = bitmap s" "iblocks s3 = iblocks s" "iblocks s2 = iblocks s"
      using k2 k3 by (simp_all add: iblocks_def)
    then show ?thesis using u [of n] k2 by (auto simp: dblock_def)
  qed
  have "layout Map.empty s3"
    using layout_empty [OF f(2)] u k2 k3 unfolding layout_def iblocks_def by (auto simp: word_neq_0_conv)
  moreover have "inode_ok s3 ip"
    by (rule inode_ok_add [OF I, where a = a and i = "NDIRECT + k" and c = False])
      (use I k2 k3 b D(1,2) D3 a0(1) in \<open>auto simp: inode_ok_def\<close>)
  ultimately have ok: "iok ip s3" using f(3) by (simp add: iok_def)
  have "fdata s3 ip m = fdata s ip m" if "m < MAXFILE * BSIZE" for m
  proof -
    have j: "m div BSIZE < MAXFILE" using that by (simp add: less_mult_imp_div_less)
    show ?thesis using b [OF j] k(2) a0 D(2) [of "fblk s ip (m div BSIZE)"] bd [OF j] V3 k2(7) k3(7) by (auto simp: fdata_def Let_def)
  qed
  then show "extends ip s s3"
    using ok b k(2) t D(2,3) V3 u k2 k3 ind unfolding extends_def by (auto simp: taken_def)
  show "grown (insert a (insert ind (bitmap s))) ip s s3"
    by (rule logged_grown) (use logged_trans [OF lg] in \<open>auto intro: logged_mono\<close>)
qed

text \<open>The result of \<^verbatim>\<open>bmap\<close>: the address of the block, or 0 when there is no block left.\<close>

definition mapped :: "nat \<Rightarrow> nat \<Rightarrow> fsys \<Rightarrow> u32 \<Rightarrow> fsys \<Rightarrow> bool" where
  "mapped ip bn s a s' \<longleftrightarrow> extends ip s s' \<and> grown (insert a (insert (addrs (itable s' ip) ! NDIRECT) (bitmap s))) ip s s' \<and>
     fblk s' ip bn = a \<and> (\<forall>j < MAXFILE. j \<noteq> bn \<longrightarrow> fblk s' ip j = fblk s ip j) \<and> (a = 0 \<longrightarrow> (\<forall>n < fsize (sb s). used s' n))"

lemma iok_room: "iok ip s \<Longrightarrow> idev (itable s ip) = ldev (lg s)" "iok ip s \<Longrightarrow> fok Map.empty s" "iok ip s \<Longrightarrow> layout Map.empty s"
  "iok ip s \<Longrightarrow> length (addrs (itable s ip)) = 13"
  by (simp_all add: iok_def inode_ok_def)

lemma mapped_viewed:
  assumes "iok ip s" "viewed s s'" "fok Map.empty s'" "fblk s ip bn = a" "a = 0 \<Longrightarrow> \<forall>n < fsize (sb s). used s n"
  shows "mapped ip bn s a s'"
  using assms extends_viewed [OF assms(1-3)] viewed_inode [OF assms(2)] used_viewed [OF assms(2)]
    logged_grown [OF logged_mono [OF viewed_logged [OF assms(2)]]] by (simp add: mapped_def)

lemma balloc_iok:
  assumes "iok ip s" "room k s"
  obtains (full) s1 where "balloc (ldev (lg s)) s = Ok (0, s1)" "fok Map.empty s1" "viewed s s1" "\<forall>n < fsize (sb s). used s n"
    | (new) a s1 where "balloc (ldev (lg s)) s = Ok (a, s1)" "fok Map.empty s1" "layout Map.empty s1" "taken s a s1"
proof -
  obtain a s1 where b: "balloc (ldev (lg s)) s = Ok (a, s1)" "fok Map.empty s1" "balloced 0 s a s1"
    using balloc_ok [OF iok_room(2) [OF assms(1)] _ iok_room(3) [OF assms(1)] assms(2) refl] by (auto simp: okR_Ex)
  note c = balloced_cases [OF iok_room(2,3) [OF assms(1)] b(3)]
  show ?thesis
  proof (cases "\<forall>n < fsize (sb s). used s n")
    case True
    then have "a = 0" "viewed s s1" using c unfolding if_P [OF True] by blast+
    then show ?thesis using full [OF _ b(2)] b(1) True by blast
  next
    case False
    then have "taken s a s1" "layout Map.empty s1" using c unfolding if_not_P [OF False] by blast+
    then show ?thesis using new [OF b(1,2)] by blast
  qed
qed

lemma bmap_direct:
  assumes o: "iok ip s" and r: "room k s" and i: "i \<le> NDIRECT"
  shows "okR (if addrs (itable s ip) ! i = 0 then
      bindR (balloc (idev (itable s ip)) s) (\<lambda>(addr, s).
        if addr = 0 then Ok (0, s) else Ok (addr, upi ip (\<lambda>x. x\<lparr>addrs := (addrs x)[i := addr]\<rparr>) s))
      else Ok (addrs (itable s ip) ! i, s))
    (\<lambda>(a, s'). extends ip s s' \<and> grown (insert a (bitmap s)) ip s s' \<and> addrs (itable s' ip) ! i = a \<and>
      (\<forall>j < MAXFILE. j \<noteq> i \<or> i = NDIRECT \<longrightarrow> fblk s' ip j = fblk s ip j) \<and> (a = 0 \<longrightarrow> (\<forall>n < fsize (sb s). used s' n)))"
proof (cases "addrs (itable s ip) ! i = 0")
  case True
  from o r show ?thesis
  proof (cases rule: balloc_iok)
    case (full s1)
    then show ?thesis
      using True o extends_viewed [OF o full(3,2)] viewed_inode [OF full(3)] used_viewed [OF full(3)]
        logged_grown [OF logged_mono [OF viewed_logged [OF full(3)], of "insert 0 (bitmap s)"]] by (simp add: iok_room(1))
  next
    case (new a s1)
    let ?s = "upi ip (\<lambda>x. x\<lparr>addrs := (addrs x)[i := a]\<rparr>) s1"
    note E = extends_taken [OF o new(2-4) refl i True] and B = fblk_taken [OF o new(4) refl i True]
    have "itable s1 = itable s" "a \<noteq> 0" using new(4) logged_fields(2) by (auto simp: taken_def)
    then show ?thesis using True new(1) E B o i by (simp add: iok_room(1,4))
  qed
next
  case False
  then show ?thesis using o extends_viewed [OF o viewed_refl] logged_grown [OF logged_refl] by (simp add: iok_room)
qed

text \<open>The second half of the indirect case, as the body of \<^verbatim>\<open>bmap\<close> has it.\<close>

lemma layout_held:
  assumes "layout Map.empty s" and "dblock s n"
  shows "layout [b \<mapsto> n] s"
  using assms by (auto simp: layout_def dblock_def)

lemma taken_viewed:
  assumes v: "viewed s s1" and t: "taken s1 a s2"
  shows "taken s a s2"
proof -
  note k = logged_fields [OF viewed_logged [OF v]]
  have "logged (insert a (bitmap s)) s s2"
    using logged_trans [OF viewed_logged [OF v], of "insert a (bitmap s1)" s2] t k by (simp add: taken_def)
  moreover have "fview s1 = fview s" "used s1 = used s" using viewed_view [OF v] used_viewed [OF v] by auto
  ultimately show ?thesis using t k unfolding taken_def by simp
qed

lemma bmap_entry:
  assumes o: "iok ip s" and r: "room (Suc k) s" and ind: "ind = addrs (itable s ip) ! NDIRECT" "ind \<noteq> 0" and i: "i < NINDIRECT" and dv: "dv = ldev (lg s)"
  shows "okR (bindR (f_bread dv ind s) (\<lambda>(bp, s).
      if get32 (4 * i) (bdata s bp) = 0 then
        bindR (balloc dv s) (\<lambda>(addr, s).
        bindR (if addr \<noteq> 0 then f_log_write bp (bset bp (put32 (4 * i) addr (bdata s bp)) s) else Ok s) (\<lambda>s.
        bindR (f_brelse bp s) (\<lambda>s. Ok (addr, s))))
      else (let addr = get32 (4 * i) (bdata s bp) in bindR (f_brelse bp s) (\<lambda>s. Ok (addr, s)))))
    (\<lambda>(a, s'). mapped ip (NDIRECT + i) s a s')"
proof -
  note F = iok_room(2) [OF o] and L = iok_room(3) [OF o]
  have di: "dblock s ind" "ind \<notin> log_area (lstart (lg s))" using o ind by (auto simp: iok_def inode_ok_def dblock_def)
  have rb: "lh_n (lg s) + int (card (dom (Map.empty :: nat \<rightharpoonup> u32))) < int NBUF" by (rule room_bread [OF F r]) simp
  obtain bp s1 where s1: "f_bread dv ind s = Ok (bp, s1)" "fok [bp \<mapsto> ind] s1" "viewed s s1"
    using f_bread_ok [OF F _ area_not_start [OF di(2)] rb dv] by (auto simp: okR_Ex)
  note k = logged_fields [OF viewed_logged [OF s1(3)]] and vi = viewed_inode [OF s1(3)]
  have bd: "bdata s1 bp = fview s ind" using fok_data [OF s1(2), of bp] viewed_view [OF s1(3)] by simp
  have e: "get32 (4 * i) (fview s ind) = fblk s ip (NDIRECT + i)" using ind by (simp add: fblk_def)
  show ?thesis
  proof (cases "fblk s ip (NDIRECT + i) = 0")
    case False
    obtain s2 where s2: "f_brelse bp s1 = Ok s2" "fok Map.empty s2" "viewed s s2"
      using brelse_clean [OF F _ s1(2) _ s1(3)] by (auto simp: okR_Ex)
    then show ?thesis using False s1(1) bd e mapped_viewed [OF o s2(3,2) refl] by simp
  next
    case True
    have "layout [bp \<mapsto> ind] s1" using layout_held [OF L di(1)] vi(5) by simp
    moreover have "room (Suc k) s1" by (rule room_viewed [OF s1(3) r])
    ultimately obtain a s2 where s2: "balloc dv s1 = Ok (a, s2)" "fok [bp \<mapsto> ind] s2" "balloced 0 s1 a s2"
      using balloc_ok [OF s1(2), of "Suc k" dv] dv k by (auto simp: okR_Ex)
    note c = balloced_cases [OF s1(2) \<open>layout [bp \<mapsto> ind] s1\<close> s2(3)]
    show ?thesis
    proof (cases "\<forall>n < fsize (sb s1). used s1 n")
      case full: True
      then have a: "a = 0" "viewed s1 s2" using c unfolding if_P [OF full] by blast+
      obtain s3 where s3: "f_brelse bp s2 = Ok s3" "fok Map.empty s3" "viewed s s3"
        using brelse_clean [OF F _ s2(2) _ viewed_trans [OF s1(3) a(2)]] by (auto simp: okR_Ex)
      have "\<forall>n < fsize (sb s). used s n" using full k used_viewed [OF s1(3)] by simp
      then have "mapped ip (NDIRECT + i) s 0 s3" using mapped_viewed [OF o s3(3,2) True] by blast
      then show ?thesis using True s1(1) bd e s2(1) a(1) s3(1) by simp
    next
      case False
      then have t: "taken s1 a s2" "layout [bp \<mapsto> ind] s2" using c unfolding if_not_P [OF False] by blast+
      have t0: "taken s a s2" by (rule taken_viewed [OF s1(3) t(1)])
      have lg2: "logged (insert a (bitmap s1)) s1 s2" using t(1) by (simp add: taken_def)
      note k2 = logged_fields [OF lg2]
      have r2: "room k s2" by (rule room_logged [where X = "{a}" and s = s1]) (use lg2 \<open>room (Suc k) s1\<close> in simp_all)
      have v2: "bdata s2 bp = fview s2 ind" using fok_data [OF s2(2), of bp] by simp
      have "okR (bindR (f_log_write bp (bset bp (put32 (4 * i) a (bdata s2 bp)) s2)) (f_brelse bp))
          (\<lambda>s'. fok Map.empty s' \<and> wrote {ind} ((fview s2)(ind := put32 (4 * i) a (bdata s2 bp))) s2 s')"
        by (rule write_held [OF s2(2) _ _ r2]) (use k k2 di(2) fok_len [OF s2(2)] v2 i in auto)
      then obtain s3 where s3: "bindR (f_log_write bp (bset bp (put32 (4 * i) a (bdata s2 bp)) s2)) (f_brelse bp) = Ok s3"
          "fok Map.empty s3" "wrote {ind} ((fview s2)(ind := put32 (4 * i) a (fview s2 ind))) s2 s3"
        unfolding v2 by (auto simp: okR_Ex)
      note X = extends_entry [OF o s2(2) t(2) s3(2) t0 ind i True s3(3)]
      have "addrs (itable s3 ip) ! NDIRECT = ind" using X(1) ind by (simp add: extends_def)
      moreover have "a \<noteq> 0" using t0 by (simp add: taken_def)
      ultimately have "mapped ip (NDIRECT + i) s a s3" using X i by (auto simp: mapped_def)
      moreover have "bindR (f_log_write bp (bset bp (put32 (4 * i) a (bdata s2 bp)) s2)) (\<lambda>s. bindR (f_brelse bp s) (\<lambda>s. Ok (a, s))) = Ok (a, s3)"
        using s3(1) by (auto simp: bindR_eq_Ok)
      ultimately show ?thesis using True s1(1) bd e s2(1) \<open>a \<noteq> 0\<close> by simp
    qed
  qed
qed

lemma grown_mono: "grown A ip s s' \<Longrightarrow> A \<subseteq> B \<Longrightarrow> grown B ip s s'"
  unfolding grown_def by (rule logged_mono)

lemma room_grown:
  assumes "grown (bitmap s \<union> X) ip s s'" and "room (card X + k) s"
  shows "room k s'"
  by (rule room_logged [of "upi ip (\<lambda>x. x\<lparr>addrs := addrs (itable s' ip)\<rparr>) s" X]) (use assms in \<open>simp_all add: grown_def\<close>)

lemma extends_iok: "extends ip s s' \<Longrightarrow> iok ip s'"
  by (simp add: extends_def)

lemma mapped_trans:
  assumes e: "extends ip s s1" "grown (insert (addrs (itable s1 ip) ! NDIRECT) (bitmap s)) ip s s1"
    "\<forall>j < MAXFILE. fblk s1 ip j = fblk s ip j"
    and m: "mapped ip bn s1 a s2" and nz: "addrs (itable s1 ip) ! NDIRECT \<noteq> 0"
  shows "mapped ip bn s a s2"
proof -
  note k = grown_fields [OF e(2)]
  have i: "addrs (itable s2 ip) ! NDIRECT = addrs (itable s1 ip) ! NDIRECT" using m nz by (simp add: mapped_def extends_def)
  have "grown (insert a (insert (addrs (itable s2 ip) ! NDIRECT) (bitmap s))) ip s s2"
    using m grown_trans [OF e(2)] unfolding mapped_def i k(9) by (auto intro: grown_mono)
  moreover have "extends ip s s2" using m extends_trans [OF e(1) _ e(2)] grown_fields(1) [of _ ip s1 s2] by (auto simp: mapped_def)
  moreover have "fblk s2 ip j = fblk s ip j" if "j < MAXFILE" "j \<noteq> bn" for j
    using m e(3) that unfolding mapped_def by metis
  ultimately show ?thesis using m k(1) unfolding mapped_def by simp
qed

lemma bmap_ok:
  assumes o: "iok ip s" and r: "room (Suc (Suc k)) s" and bn: "bn < MAXFILE"
  shows "okR (bmap ip (of_nat bn) s) (\<lambda>(a, s'). mapped ip bn s a s')"
proof -
  have u: "unat (of_nat bn :: u32) = bn" using bn by (simp add: unat_of_nat)
  note dv = iok_room(1) [OF o]
  show ?thesis
  proof (cases "bn < NDIRECT")
    case True
    have b: "fblk s' ip bn = addrs (itable s' ip) ! bn" for s' using True by (simp add: fblk_def)
    show ?thesis
      unfolding bmap_def Let_def u if_P [OF True]
      by (rule okR_mono [OF bmap_direct [OF o r, of bn]]) (use True in \<open>auto simp: mapped_def b intro: grown_mono\<close>)
  next
    case False
    have i: "bn - NDIRECT < NINDIRECT" "NDIRECT + (bn - NDIRECT) = bn" using False bn by auto
    show ?thesis
      unfolding bmap_def Let_def u if_not_P [OF False] if_P [OF i(1)]
    proof (rule okR_bindI2 [OF bmap_direct [OF o r order_refl]])
      fix ind s1
      assume a: "extends ip s s1 \<and> grown (insert ind (bitmap s)) ip s s1 \<and> addrs (itable s1 ip) ! NDIRECT = ind \<and>
        (\<forall>j < MAXFILE. j \<noteq> NDIRECT \<or> NDIRECT = NDIRECT \<longrightarrow> fblk s1 ip j = fblk s ip j) \<and> (ind = 0 \<longrightarrow> (\<forall>n < fsize (sb s). used s1 n))"
      have o1: "iok ip s1" using a by (simp add: extends_def)
      have dv1: "idev (itable s ip) = ldev (lg s1)" using a dv grown_fields(6) [of _ ip s s1] by auto
      have r1: "room (Suc k) s1" by (rule room_grown [where X = "{ind}" and s = s and ip = ip]) (use a r in simp_all)
      have m0: "mapped ip bn s 0 s1" if "ind = 0"
        using a that False bn by (auto simp: mapped_def fblk_def intro: grown_mono)
      have mt: "mapped ip bn s a s2" if "mapped ip (NDIRECT + (bn - NDIRECT)) s1 a s2" "ind \<noteq> 0" for a s2
        by (rule mapped_trans) (use a that i(2) in auto)
      show "okR (case (ind, s1) of (ind, s') \<Rightarrow> if ind = 0 then Ok (0, s') else bindR (f_bread (idev (itable s ip)) ind s') (\<lambda>(bp, s').
          if get32 (4 * (bn - NDIRECT)) (bdata s' bp) = 0 then
            bindR (balloc (idev (itable s ip)) s') (\<lambda>(addr, s').
            bindR (if addr \<noteq> 0 then f_log_write bp (bset bp (put32 (4 * (bn - NDIRECT)) addr (bdata s' bp)) s') else Ok s') (\<lambda>s'.
            bindR (f_brelse bp s') (\<lambda>s'. Ok (addr, s'))))
          else bindR (f_brelse bp s') (\<lambda>t. Ok (get32 (4 * (bn - NDIRECT)) (bdata s' bp), t))))
        (\<lambda>(a, s'). mapped ip bn s a s')"
      proof (cases "ind = 0")
        case nz: False
        show ?thesis
          unfolding prod.case if_not_P [OF nz]
          by (rule okR_mono [OF bmap_entry [OF o1 r1 _ nz i(1) dv1, unfolded Let_def]]) (use a mt nz in auto)
      qed (use m0 in simp)
    qed
  qed
qed

end
