(* ===== verification/Xv6_Readi.thy ===== *)
theory Xv6_Readi
  imports Xv6_Inode
begin

text \<open>
  \<^verbatim>\<open>readi\<close> and \<^verbatim>\<open>writei\<close> of \<^verbatim>\<open>kernel/fs.c\<close> against the bytes of a file: reading returns the bytes from the offset on, up to
  the end of the file; writing changes exactly the range, growing the file.
\<close>

section \<open>Reading\<close>

text \<open>\<open>reads\<close>: buffers moved in the cache, and bytes went to memory or to the object of the caller.\<close>

definition reads :: "fsys \<Rightarrow> fsys \<Rightarrow> bool" where
  "reads s s' \<longleftrightarrow> viewed (s\<lparr>pt := pt s', local := local s'\<rparr>) s'"

lemma put_mem_views [simp]:
  "fok H (s\<lparr>pt := p, local := l\<rparr>) = fok H s" "used (s\<lparr>pt := p, local := l\<rparr>) = used s" "bitmap (s\<lparr>pt := p, local := l\<rparr>) = bitmap s"
  "iblocks (s\<lparr>pt := p, local := l\<rparr>) = iblocks s" "logset (s\<lparr>pt := p, local := l\<rparr>) = logset s" "layout H (s\<lparr>pt := p, local := l\<rparr>) = layout H s"
  "dblock (s\<lparr>pt := p, local := l\<rparr>) = dblock s" "fblk (s\<lparr>pt := p, local := l\<rparr>) = fblk s" "fdata (s\<lparr>pt := p, local := l\<rparr>) = fdata s"
  "inode_ok (s\<lparr>pt := p, local := l\<rparr>) = inode_ok s" "f_pid (s\<lparr>pt := p, local := l\<rparr>) = f_pid s" "iok ip (s\<lparr>pt := p, local := l\<rparr>) = iok ip s"
proof -
  let ?s = "s\<lparr>pt := p, local := l\<rparr>"
  show d: "fok H ?s = fok H s" "used ?s = used s" "bitmap ?s = bitmap s" "iblocks ?s = iblocks s" "logset ?s = logset s" "layout H ?s = layout H s"
      "dblock ?s = dblock s" "f_pid ?s = f_pid s" for H
    by (auto simp: fok_def used_def bitmap_def iblocks_def logset_def layout_def dblock_def fun_eq_iff f_pid_def)
  show b: "fblk ?s = fblk s" by (intro ext) (simp add: fblk_def Let_def cong: if_cong)
  then show "fdata ?s = fdata s" by (intro ext) (simp add: fdata_def Let_def cong: if_cong)
  show i: "inode_ok ?s = inode_ok s" by (intro ext) (simp add: inode_ok_def b d)
  show "iok ip ?s = iok ip s" by (simp add: iok_def d i)
qed

lemma reads_viewed: "viewed s s' \<Longrightarrow> reads s s'"
  using logged_fields [OF viewed_logged, of s s'] by (simp add: reads_def)

lemma viewed_put_mem:
  assumes "viewed s s'"
  shows "viewed (s\<lparr>pt := p, local := l\<rparr>) (s'\<lparr>pt := p, local := l\<rparr>)"
proof -
  have "s' = s\<lparr>lg := lg s'\<rparr>" using assms by (simp add: viewed_def logged_def)
  then have "s'\<lparr>pt := p, local := l\<rparr> = s\<lparr>pt := p, local := l, lg := lg s'\<rparr>" by (cases s; cases s') simp
  moreover have "blk (ldev (lg s)) (bc (lg s')) = fview s" using viewed_view [OF assms] logged_fields(7) [OF viewed_logged [OF assms]] by simp
  ultimately show ?thesis using assms by (simp add: viewed_def logged_def f_pid_def logset_def)
qed

lemma reads_trans:
  assumes "reads s s1" and "reads s1 s2"
  shows "reads s s2"
proof -
  have "viewed (s\<lparr>pt := pt s2, local := local s2\<rparr>) (s1\<lparr>pt := pt s2, local := local s2\<rparr>)"
    using viewed_put_mem [OF assms(1) [unfolded reads_def], where p = "pt s2" and l = "local s2"] by simp
  then show ?thesis using assms(2) viewed_trans unfolding reads_def by blast
qed

lemma reads_fields:
  assumes "reads s s'"
  shows "fblk s' = fblk s" "fdata s' = fdata s" "inode_ok s' = inode_ok s" "layout H s' = layout H s" "itable s' = itable s"
    "me s' = me s" "sb s' = sb s" "fview s' = fview s" "ldev (lg s') = ldev (lg s)" "logset s' = logset s" "lsize (lg s') = lsize (lg s)"
    "bitmap s' = bitmap s" "outstanding (lg s') = outstanding (lg s)"
  using viewed_inode [OF assms [unfolded reads_def]] logged_fields [OF viewed_logged [OF assms [unfolded reads_def]]] assms
  by (simp_all add: reads_def viewed_def logged_def logset_def bitmap_def)

text \<open>A mapped block is found without a change.\<close>

lemma bmap_found:
  assumes o: "iok ip s" and bn: "bn < MAXFILE" and m: "fblk s ip bn \<noteq> 0"
  shows "okR (bmap ip (of_nat bn) s) (\<lambda>(a, s'). a = fblk s ip bn \<and> viewed s s' \<and> fok Map.empty s')"
proof -
  have u: "unat (of_nat bn :: u32) = bn" using bn by (simp add: unat_of_nat)
  note F = iok_room(2) [OF o] and dv = iok_room(1) [OF o]
  show ?thesis
  proof (cases "bn < NDIRECT")
    case True
    then show ?thesis using F m by (simp add: bmap_def u Let_def fblk_def)
  next
    case False
    let ?ind = "addrs (itable s ip) ! NDIRECT"
    have i: "?ind \<noteq> 0" "get32 (4 * (bn - 12)) (fview s ?ind) = fblk s ip bn" using m False by (auto simp: fblk_def Let_def split: if_splits)
    then have n: "?ind \<noteq> lstart (lg s)"
      using o area_not_start by (auto simp: iok_def inode_ok_def dblock_def)
    have rb: "lh_n (lg s) + int (card (dom (Map.empty :: nat \<rightharpoonup> u32))) < int NBUF" using F by (simp add: fok_def linv_def)
    obtain bp s1 where s1: "f_bread (ldev (lg s)) ?ind s = Ok (bp, s1)" "fok [bp \<mapsto> ?ind] s1" "viewed s s1"
      using f_bread_ok [OF F _ n rb refl] by (auto simp: okR_Ex)
    have bd: "bdata s1 bp = fview s ?ind" using fok_data [OF s1(2), of bp] viewed_view [OF s1(3)] by simp
    obtain s2 where s2: "f_brelse bp s1 = Ok s2" "fok Map.empty s2" "viewed s s2"
      using brelse_clean [OF F _ s1(2) _ s1(3)] by (auto simp: okR_Ex)
    show ?thesis using False bn i s1(1) bd s2 m dv by (simp add: bmap_def u Let_def)
  qed
qed

lemma adv_adv: "adv (adv a i) j = adv a (i + j)"
  by (cases a) (simp_all add: adv_def add.assoc)

lemma adv_0 [simp]: "adv a 0 = a"
  by (cases a) (simp_all add: adv_def)

lemma div_mod_within: "a mod b + i < b \<Longrightarrow> (a + i) div b = a div b \<and> (a + i) mod b = a mod b + (i :: nat)"
proof -
  assume l: "a mod b + i < b"
  have e: "b * (a div b) + a mod b = a" by (rule mult_div_mod_eq)
  have d: "(a + i) div b = a div b" by (rule div_nat_eqI) (insert l e, unfold mult_Suc_right, linarith+)
  moreover have "b * ((a + i) div b) + (a + i) mod b = a + i" by (rule mult_div_mod_eq)
  then have "(a + i) mod b = a mod b + i" using e unfolding d by linarith
  ultimately show ?thesis by blast
qed

lemma slice_fdata:
  assumes "fok H s" and "fblk s ip (k div BSIZE) \<noteq> 0" and "m \<le> BSIZE - k mod BSIZE"
  shows "slice (k mod BSIZE) m (fview s (fblk s ip (k div BSIZE))) = map (fdata s ip) [k..<k + m]"
proof (rule nth_equalityI)
  show l: "length (slice (k mod BSIZE) m (fview s (fblk s ip (k div BSIZE)))) = length (map (fdata s ip) [k..<k + m])"
    using assms fok_len [OF assms(1)] by simp
  fix i
  assume "i < length (slice (k mod BSIZE) m (fview s (fblk s ip (k div BSIZE))))"
  then have i: "i < m" using l by simp
  then have "k mod BSIZE + i < BSIZE" using assms(3) by simp
  then have "(k + i) div BSIZE = k div BSIZE" "(k + i) mod BSIZE = k mod BSIZE + i" using div_mod_within by blast+
  then show "slice (k mod BSIZE) m (fview s (fblk s ip (k div BSIZE))) ! i = map (fdata s ip) [k..<k + m] ! i"
    using i assms(2,3) fok_len [OF assms(1)] by (simp add: nth_slice fdata_def Let_def)
qed

text \<open>
  The loop of \<^verbatim>\<open>readi\<close> over a destination that takes the bytes: \<open>R t\<close> says that \<open>t\<close> bytes have arrived, and the copy of one
  chunk keeps it.
\<close>

lemma readi_loop_ok:
  assumes "iok ip s" and "tot \<le> n"
    and "\<And>k. off + tot \<le> k \<Longrightarrow> k < off + n \<Longrightarrow> k < MAXFILE * BSIZE \<and> fblk s ip (k div BSIZE) \<noteq> 0"
    and "R tot s" and "D = fdata s ip"
    and stable: "\<And>t s s'. R t s \<Longrightarrow> pt s' = pt s \<Longrightarrow> me s' = me s \<Longrightarrow> local s' = local s \<Longrightarrow> R t s'"
    and step: "\<And>t m s'. R t s' \<Longrightarrow> 0 < m \<Longrightarrow> t + m \<le> n \<Longrightarrow>
      okR (copy_to (adv dst t) (map D [off + t..<off + t + m]) s') (\<lambda>(r, s''). r \<noteq> -1 \<and> R (t + m) s'' \<and> s'' = s'\<lparr>pt := pt s'', local := local s''\<rparr>)"
  shows "okR (readi_loop ip (adv dst tot) (off + tot) n tot s) (\<lambda>(r, s'). r = int n \<and> R n s' \<and> reads s s' \<and> fok Map.empty s')"
  using assms(1-5)
proof (induction "n - tot" arbitrary: tot s rule: less_induct)
  case less
  show ?case
  proof (cases "tot < n")
    case False
    then show ?thesis using less.prems iok_room(2) reads_viewed [OF viewed_refl] by (simp add: readi_loop.simps)
  next
    case True
    let ?k = "off + tot"
    define m where "m = min (n - tot) (BSIZE - ?k mod BSIZE)"
    let ?a = "fblk s ip (?k div BSIZE)"
    have k: "?k div BSIZE < MAXFILE" "?a \<noteq> 0" using less.prems(3) [of ?k] True by (auto simp: less_mult_imp_div_less)
    have "m \<le> n - tot" "0 < m" "m \<le> BSIZE - ?k mod BSIZE" using True by (simp_all add: m_def)
    then have m: "0 < m" "tot + m \<le> n" "m \<le> BSIZE - ?k mod BSIZE" using True by linarith+
    obtain s1 where s1: "bmap ip (of_nat (?k div BSIZE)) s = Ok (?a, s1)" "viewed s s1" "fok Map.empty s1"
      using bmap_found [OF less.prems(1) k] by (auto simp: okR_Ex)
    note v1 = viewed_inode [OF s1(2)] and l1 = logged_fields [OF viewed_logged [OF s1(2)]]
    have a: "?a \<notin> log_area (lstart (lg s))" using less.prems(1) k by (auto simp: iok_def inode_ok_def dblock_def)
    then have a1: "?a \<noteq> lstart (lg s1)" using area_not_start l1 by simp
    have rb: "lh_n (lg s1) + int (card (dom (Map.empty :: nat \<rightharpoonup> u32))) < int NBUF" using s1(3) by (simp add: fok_def linv_def)
    have dv: "idev (itable s1 ip) = ldev (lg s1)" using iok_room(1) [OF less.prems(1)] l1 by simp
    obtain bp s2 where s2: "f_bread (idev (itable s1 ip)) ?a s1 = Ok (bp, s2)" "fok [bp \<mapsto> ?a] s2" "viewed s1 s2"
      using f_bread_ok [OF s1(3) _ a1 rb dv] by (auto simp: okR_Ex)
    have bd: "slice (?k mod BSIZE) m (bdata s2 bp) = map D [?k..<?k + m]"
      using fok_data [OF s2(2), of bp] viewed_view [OF s2(3)] viewed_view [OF s1(2)]
        slice_fdata [OF iok_room(2) [OF less.prems(1)] k(2) m(3)] less.prems(5) by simp
    have "R tot s2" by (rule stable [OF less.prems(4)]) (use l1 logged_fields [OF viewed_logged [OF s2(3)]] in simp_all)
    then obtain r s3 where s3: "copy_to (adv dst tot) (map D [?k..<?k + m]) s2 = Ok (r, s3)" "r \<noteq> -1" "R (tot + m) s3"
        "s3 = s2\<lparr>pt := pt s3, local := local s3\<rparr>"
      using step [OF _ m(1,2)] unfolding okR_Ex split_paired_Ex prod.case by blast
    let ?b = "s1\<lparr>pt := pt s3, local := local s3\<rparr>"
    have b: "fok Map.empty ?b" "fok [bp \<mapsto> ?a] s3" "viewed ?b s3"
      using s1(3) s2(2) viewed_put_mem [OF s2(3)] s3(4) put_mem_views(1) by (simp, metis, metis)
    obtain s4 where s4: "f_brelse bp s3 = Ok s4" "fok Map.empty s4" "viewed ?b s4"
      using brelse_clean [OF b(1) _ b(2) _ b(3)] by (auto simp: okR_Ex)
    have p4: "pt s4 = pt s3" "local s4 = local s3" using logged_fields [OF viewed_logged [OF s4(3)]] by simp_all
    have "reads s1 s4" using s4(3) p4 by (simp add: reads_def)
    then have rs: "reads s s4" using reads_trans reads_viewed s1(2) by blast
    note f4 = reads_fields [OF rs]
    have "me s3 = me s2" by (subst s3(4)) simp
    then have "R (tot + m) s4"
      by (intro stable [OF s3(3) p4(1) _ p4(2)]) (use f4(6) l1 logged_fields [OF viewed_logged [OF s2(3)]] in simp)
    have IH: "okR (readi_loop ip (adv dst (tot + m)) (off + (tot + m)) n (tot + m) s4) (\<lambda>(r, s'). r = int n \<and> R n s' \<and> reads s4 s' \<and> fok Map.empty s')"
      by (rule less.hyps) (use less.prems s4(2) f4 m \<open>R (tot + m) s4\<close> True in \<open>auto simp: iok_def\<close>)
    have "readi_loop ip (adv dst tot) ?k n tot s = readi_loop ip (adv dst (tot + m)) (off + (tot + m)) n (tot + m) s4"
      by (subst readi_loop.simps) (simp add: True s1(1) k(2) s2(1) bd s3(1) [unfolded add.assoc] s3(2) s4(1) Let_def adv_adv add.assoc flip: m_def del: upt_Suc)
    then show ?thesis using reads_trans [OF rs] by (simp only:) (rule okR_mono [OF IH], auto)
  qed
qed

text \<open>The file has a block for every byte.\<close>

definition dense :: "nat \<Rightarrow> fsys \<Rightarrow> bool" where
  "dense ip s \<longleftrightarrow> (\<forall>k < unat (isize (itable s ip)). k < MAXFILE * BSIZE \<and> fblk s ip (k div BSIZE) \<noteq> 0)"

text \<open>The number of bytes that \<^verbatim>\<open>readi\<close> returns.\<close>

definition read_len :: "nat \<Rightarrow> u32 \<Rightarrow> u32 \<Rightarrow> nat" where
  "read_len fz off n = min (unat n) (fz - unat off)"

lemma readi_ok:
  assumes o: "iok ip s" and d: "dense ip s" and R0: "R 0 s" and no: "unat off + unat n < 2 ^ 32"
    and fz: "fz = unat (isize (itable s ip))"
    and stable: "\<And>t s s'. R t s \<Longrightarrow> pt s' = pt s \<Longrightarrow> me s' = me s \<Longrightarrow> local s' = local s \<Longrightarrow> R t s'"
    and step: "\<And>t m s'. R t s' \<Longrightarrow> 0 < m \<Longrightarrow> t + m \<le> read_len fz off n \<Longrightarrow>
      okR (copy_to (adv dst t) (map (fdata s ip) [unat off + t..<unat off + t + m]) s')
        (\<lambda>(r, s''). r \<noteq> -1 \<and> R (t + m) s'' \<and> s'' = s'\<lparr>pt := pt s'', local := local s''\<rparr>)"
  shows "okR (readi ip dst off n s) (\<lambda>(r, s'). r = int (read_len fz off n) \<and> R (read_len fz off n) s' \<and> reads s s' \<and> fok Map.empty s')"
proof -
  let ?z = "isize (itable s ip)"
  have nw: "unat (off + n) = unat off + unat n" using no by (simp add: unat_word_ariths)
  show ?thesis
  proof (cases "off > ?z")
    case True
    then have "read_len fz off n = 0" using fz by (simp add: read_len_def word_less_nat_alt)
    then show ?thesis using True R0 iok_room(2) [OF o] reads_viewed [OF viewed_refl] by (simp add: readi_def)
  next
    case False
    have l: "unat (if off + n > ?z then ?z - off else n) = read_len fz off n"
      using False nw fz by (auto simp: read_len_def word_less_nat_alt unat_sub word_le_nat_alt)
    have "okR (readi_loop ip (adv dst 0) (unat off + 0) (read_len fz off n) 0 s)
        (\<lambda>(r, s'). r = int (read_len fz off n) \<and> R (read_len fz off n) s' \<and> reads s s' \<and> fok Map.empty s')"
    proof (rule readi_loop_ok [OF o _ _ R0 refl stable step])
      fix k
      assume "unat off + 0 \<le> k" "k < unat off + read_len fz off n"
      then have "k < unat ?z" using fz by (simp add: read_len_def)
      then show "k < MAXFILE * BSIZE \<and> fblk s ip (k div BSIZE) \<noteq> 0" using d by (simp add: dense_def)
    qed auto
    moreover have "\<not> off + n < off" using nw by (simp add: word_less_nat_alt)
    ultimately show ?thesis using False l by (simp add: readi_def Let_def)
  qed
qed

text \<open>Into an object of the caller.\<close>

lemma splice_append:
  "off + length xs + length ys \<le> length bs \<Longrightarrow> splice (off + length xs) ys (splice off xs bs) = splice off (xs @ ys) bs"
  by (simp add: splice_def ac_simps)

lemma map_upt_add: "map f [a..<a + (t + m)] = map f [a..<a + t] @ map f [a + t..<a + t + m]"
  using upt_add_eq_append [of a "a + t" m] by (simp add: add.assoc)

lemma readi_local:
  assumes "iok ip s" "dense ip s" "unat off + unat n < 2 ^ 32" and l: "i + unat n \<le> length (local s)"
    and r: "r = read_len (unat (isize (itable s ip))) off n"
  shows "okR (readi ip (Local i) off n s) (\<lambda>(x, s'). x = int r \<and> local s' = splice i (map (fdata s ip) [unat off..<unat off + r]) (local s) \<and>
    pt s' = pt s \<and> reads s s' \<and> fok Map.empty s')"
proof -
  let ?D = "\<lambda>t. map (fdata s ip) [unat off..<unat off + t]"
  let ?R = "\<lambda>t s'. local s' = splice i (?D t) (local s) \<and> pt s' = pt s"
  have st: "okR (copy_to (adv (Local i) t) (map (fdata s ip) [unat off + t..<unat off + t + m]) s')
      (\<lambda>(x, s''). x \<noteq> -1 \<and> ?R (t + m) s'' \<and> s'' = s'\<lparr>pt := pt s'', local := local s''\<rparr>)"
    if "?R t s'" "t + m \<le> read_len (unat (isize (itable s ip))) off n" for t m s'
  proof -
    note map_upt_add [of "fdata s ip" "unat off" t m]
    moreover have "i + t + m \<le> length (local s)" using that(2) l by (simp add: read_len_def)
    ultimately have "splice (i + t) (map (fdata s ip) [unat off + t..<unat off + t + m]) (local s') = splice i (?D (t + m)) (local s)"
      using that(1) splice_append [of i "?D t" "map (fdata s ip) [unat off + t..<unat off + t + m]" "local s"] by simp
    then show ?thesis using that(1) by (simp add: copy_to_def adv_def)
  qed
  show ?thesis
    by (rule okR_mono [OF readi_ok [where R = ?R, OF assms(1,2) _ assms(3) refl _ st]]) (auto simp: r splice_def)
qed

text \<open>Into the memory of the process: \<open>t\<close> bytes have been written from the user address \<open>x\<close> on.\<close>

abbreviation umem :: "fsys \<Rightarrow> bytemem" where
  "umem s \<equiv> mem (km (pt s))"

abbreviation utable :: "fsys \<Rightarrow> u64" where
  "utable s \<equiv> pagetable (procs (pt s) ! me s)"

definition user_got :: "fsys \<Rightarrow> u64 list \<Rightarrow> u64 \<Rightarrow> (nat \<Rightarrow> u8) \<Rightarrow> nat \<Rightarrow> fsys \<Rightarrow> bool" where
  "user_got s xs x f t s' \<longleftrightarrow> pt s' = (pt s)\<lparr>km := km (pt s')\<rparr> \<and> me s' = me s \<and> local s' = local s \<and>
     pt_inv (km (pt s')) (utable s) xs \<and> user_ok (km (pt s')) (utable s) xs \<and>
     (\<forall>v. vpte (umem s') (utable s) v = vpte (umem s) (utable s) v) \<and>
     (\<forall>i < t. umem s' (the (waddr (umem s) (utable s) (x + of_nat i))) = f i) \<and>
     (\<forall>a. (\<forall>i < t. waddr (umem s) (utable s) (x + of_nat i) \<noteq> Some a) \<longrightarrow> umem s' a = umem s a)"

lemma of_nat64_inj: "i < 2 ^ 64 \<Longrightarrow> j < 2 ^ 64 \<Longrightarrow> (of_nat i :: u64) = of_nat j \<longleftrightarrow> i = j"
  by (metis unat_of_nat64)

lemma waddr_inj:
  assumes ok: "user_ok k t xs" and "waddr (mem k) t (x + of_nat i) = Some a" "waddr (mem k) t (x + of_nat j) = Some a"
    and "i < 2 ^ 64" "j < 2 ^ 64"
  shows "i = j"
proof -
  have "uaddr (mem k) t (x + of_nat i) = Some a" "uaddr (mem k) t (x + of_nat j) = Some a"
    using assms(2,3) by (auto simp: waddr_def split: option.splits if_splits)
  then have "x + of_nat i = x + of_nat j" using ok unfolding user_ok_def by blast
  then show ?thesis using of_nat64_inj [OF assms(4,5)] by simp
qed

lemma user_got_step:
  assumes g: "user_got s xs x f t s'" and n: "t + m \<le> n" "n < 2 ^ 64"
    and w: "\<forall>i < n. waddr (umem s) (utable s) (x + of_nat i) \<noteq> None" and ok: "user_ok (km (pt s)) (utable s) xs"
  shows "okR (copy_to (adv (User x) t) (map f [t..<t + m]) s')
    (\<lambda>(r, s''). r \<noteq> -1 \<and> user_got s xs x f (t + m) s'' \<and> s'' = s'\<lparr>pt := pt s'', local := local s''\<rparr>)"
proof -
  let ?T = "utable s" and ?k = "km (pt s')" and ?bs = "map f [t..<t + m]"
  have p: "pt s' = (pt s)\<lparr>km := ?k\<rparr>" "me s' = me s" using g by (simp_all add: user_got_def)
  then have T: "utable s' = ?T" by (metis ptab.select_convs(2) ptab.surjective ptab.update_convs(1))
  have V: "vpte (umem s') ?T v = vpte (umem s) ?T v" for v using g by (simp add: user_got_def)
  have W: "waddr (umem s') ?T v = waddr (umem s) ?T v" for v by (rule waddr_cong) (rule V)
  have inv: "pt_inv ?k ?T xs" "user_ok ?k ?T xs" using g by (simp_all add: user_got_def)
  have "length ?bs < 2 ^ 64" using n by simp
  from copyout_spec [OF inv this, of "x + of_nat t"] obtain r k' where
    c: "copyout ?k ?T (x + of_nat t) ?bs = Ok (r, k')" "copied_out ?k ?T xs (x + of_nat t) ?bs r k'"
    by (auto simp: okR_Ex)
  have all: "\<forall>i < length ?bs. waddr (umem s') ?T (x + of_nat t + of_nat i) \<noteq> None"
  proof (intro allI impI)
    fix i
    assume "i < length ?bs"
    then have "t + i < n" using n by simp
    then show "waddr (umem s') ?T (x + of_nat t + of_nat i) \<noteq> None" using w W by (metis add.assoc of_nat_add)
  qed
  let ?s = "s'\<lparr>pt := (pt s')\<lparr>km := k'\<rparr>\<rparr>"
  have cc: "r = 0" "\<And>i. i < m \<Longrightarrow> mem k' (the (waddr (umem s) ?T (x + of_nat (t + i)))) = f (t + i)"
    "\<And>a. (\<forall>i < m. waddr (umem s) ?T (x + of_nat (t + i)) \<noteq> Some a) \<Longrightarrow> mem k' a = umem s' a"
    "pt_inv k' ?T xs" "user_ok k' ?T xs" "\<And>v. vpte (mem k') ?T v = vpte (umem s) ?T v"
    using c(2) all W V unfolding copied_out_def by (simp_all add: add.assoc)
  have old: "mem k' (the (waddr (umem s) ?T (x + of_nat i))) = f i" if i: "i < t" for i
  proof -
    have "i < n" using i n by simp
    then obtain a where a: "waddr (umem s) ?T (x + of_nat i) = Some a" using w by blast
    have "waddr (umem s) ?T (x + of_nat (t + j)) \<noteq> Some a" if "j < m" for j
      using waddr_inj [OF ok a, of "t + j"] i that n by auto
    then have "mem k' a = umem s' a" using cc(3) by blast
    moreover have "umem s' (the (waddr (umem s) ?T (x + of_nat i))) = f i" using g i by (simp add: user_got_def)
    ultimately show ?thesis using a by simp
  qed
  have new: "mem k' (the (waddr (umem s) ?T (x + of_nat i))) = f i" if "i < t + m" for i
    using old [of i] cc(2) [of "i - t"] that by (cases "i < t") auto
  have fr: "mem k' a = umem s a" if "\<forall>i < t + m. waddr (umem s) ?T (x + of_nat i) \<noteq> Some a" for a
  proof -
    have "mem k' a = umem s' a" by (rule cc(3)) (use that in \<open>auto simp del: of_nat_add\<close>)
    then show ?thesis using that g by (simp add: user_got_def)
  qed
  have "(pt s')\<lparr>km := k'\<rparr> = (pt s)\<lparr>km := k'\<rparr>" by (subst p(1)) simp
  then have "user_got s xs x f (t + m) ?s"
    using g p(2) new fr cc(4-6) by (simp add: user_got_def)
  moreover have "copy_to (adv (User x) t) ?bs s' = Ok (r, ?s)"
    using c(1) T by (simp add: copy_to_def adv_def either_copyout_def)
  ultimately show ?thesis using cc(1) by simp
qed

lemma user_got_0: "pt_inv (km (pt s)) (utable s) xs \<Longrightarrow> user_ok (km (pt s)) (utable s) xs \<Longrightarrow> user_got s xs x f 0 s"
  by (simp add: user_got_def)

lemma readi_user:
  assumes "iok ip s" "dense ip s" "unat off + unat n < 2 ^ 32"
    and k: "pt_inv (km (pt s)) (utable s) xs" "user_ok (km (pt s)) (utable s) xs"
    and r: "r = read_len (unat (isize (itable s ip))) off n"
    and w: "\<forall>i < r. waddr (umem s) (utable s) (x + of_nat i) \<noteq> None"
  shows "okR (readi ip (User x) off n s) (\<lambda>(y, s'). y = int r \<and> user_got s xs x (\<lambda>i. fdata s ip (unat off + i)) r s' \<and>
    reads s s' \<and> fok Map.empty s')"
proof -
  let ?f = "\<lambda>i. fdata s ip (unat off + i)"
  have m: "map (fdata s ip) [unat off + t..<unat off + t + m] = map ?f [t..<t + m]" for t m
    by (rule nth_equalityI) (auto simp: add.assoc)
  have "r \<le> unat n" by (simp add: r read_len_def)
  then have "r < 2 ^ 64" using assms(3) by simp
  then have st: "okR (copy_to (adv (User x) t) (map (fdata s ip) [unat off + t..<unat off + t + m]) s')
      (\<lambda>(y, s''). y \<noteq> -1 \<and> user_got s xs x ?f (t + m) s'' \<and> s'' = s'\<lparr>pt := pt s'', local := local s''\<rparr>)"
    if "user_got s xs x ?f t s'" "t + m \<le> read_len (unat (isize (itable s ip))) off n" for t m s'
    using user_got_step [OF that(1) _ _ w k(2)] that(2) unfolding m r by blast
  have stable: "user_got s xs x ?f t s2" if "user_got s xs x ?f t s1" "pt s2 = pt s1" "me s2 = me s1" "local s2 = local s1" for t s1 s2
    using that by (simp add: user_got_def)
  show ?thesis
    by (rule okR_mono [OF readi_ok [where R = "user_got s xs x ?f", OF assms(1,2) user_got_0 [OF k] assms(3) refl stable st]]) (auto simp: r)
qed

end
