(* ===== verification/Xv6_Writei.thy ===== *)
theory Xv6_Writei
  imports Xv6_Readi
begin

text \<open>
  \<^verbatim>\<open>writei\<close> of \<^verbatim>\<open>kernel/fs.c\<close> against the bytes of a file: the bytes of the source replace those of the range, the file
  grows with zeros nowhere, and the blocks of other files stay as they are.
\<close>

section \<open>One block\<close>

lemma iok_used_cong:
  assumes "sb s' = sb s" "lstart (lg s') = lstart (lg s)" and "\<And>n. n \<in> bitmap s \<Longrightarrow> fview s' n = fview s n"
  shows "n < fsize (sb s) \<Longrightarrow> used s' n = used s n" and "dblock s' = dblock s" and "layout Map.empty s \<Longrightarrow> layout Map.empty s'"
    and "bitmap s' = bitmap s" and "iblocks s' = iblocks s"
proof -
  show u: "n < fsize (sb s) \<Longrightarrow> used s' n = used s n" for n
    using assms(1) assms(3) [of "BBLOCK n (sb s)"] by (simp add: used_def bitmap_def)
  show b: "bitmap s' = bitmap s" "iblocks s' = iblocks s" using assms(1) by (simp_all add: bitmap_def iblocks_def)
  show "dblock s' = dblock s" using u b assms(1,2) by (auto simp: dblock_def fun_eq_iff)
  assume L: "layout Map.empty s"
  then have "0 < fsize (sb s)" by (simp add: layout_def word_neq_0_conv)
  then show "layout Map.empty s'" using L u b assms(1,2) unfolding layout_def by auto
qed

text \<open>A block of the file is overwritten.\<close>

lemma data_written:
  assumes o: "iok ip s" and f: "fok Map.empty s'" and b: "b < MAXFILE" "fblk s ip b \<noteq> 0"
    and w: "wrote {fblk s ip b} ((fview s)(fblk s ip b := bs)) s s'"
  shows "iok ip s'" and "j < MAXFILE \<Longrightarrow> fblk s' ip j = fblk s ip j"
    and "k < MAXFILE * BSIZE \<Longrightarrow> fdata s' ip k = (if k div BSIZE = b then bs ! (k mod BSIZE) else fdata s ip k)"
    and "n < fsize (sb s) \<Longrightarrow> used s' n = used s n" and "dblock s' = dblock s"
proof -
  let ?a = "fblk s ip b" and ?A = "addrs (itable s ip)"
  have lg: "logged {?a} s s'" using w by (simp add: wrote_def)
  note k = logged_fields [OF lg]
  have V: "blk (ldev (lg s)) (bc (lg s')) = (fview s)(?a := bs)" using w k(7) by (simp add: wrote_def)
  have I: "inode_ok s ip" and L: "layout Map.empty s" using o by (auto simp: iok_def)
  have a: "dblock s ?a" "?a \<noteq> ?A ! NDIRECT" using I b by (auto simp: inode_ok_def)
  have "fview s' n = fview s n" if "n \<in> bitmap s" for n using V k(7) a(1) that by (auto simp: dblock_def)
  note U = iok_used_cong [OF k(1,6) this]
  show "n < fsize (sb s) \<Longrightarrow> used s' n = used s n" "dblock s' = dblock s" using U by blast+
  show B: "j < MAXFILE \<Longrightarrow> fblk s' ip j = fblk s ip j" for j using V k a(2) by (simp add: fblk_def Let_def)
  have "inode_ok s' ip" using I B U(2) k unfolding inode_ok_def by simp
  then show "iok ip s'" using f U(3) L by (simp add: iok_def)
  assume "k < MAXFILE * BSIZE"
  then have j: "k div BSIZE < MAXFILE" by (simp add: less_mult_imp_div_less)
  have "fblk s ip (k div BSIZE) \<noteq> ?a" if "k div BSIZE \<noteq> b"
    using I b j that unfolding inode_ok_def by metis
  then show "fdata s' ip k = (if k div BSIZE = b then bs ! (k mod BSIZE) else fdata s ip k)"
    using B [OF j] V k(7) b by (auto simp: fdata_def Let_def)
qed

section \<open>The loop\<close>

text \<open>The bytes \<open>bs\<close> can be read from the source.\<close>

definition readable :: "kaddr \<Rightarrow> u8 list \<Rightarrow> fsys \<Rightarrow> bool" where
  "readable src bs s \<longleftrightarrow> (\<forall>i m. i + m \<le> length bs \<longrightarrow> copy_from (adv src i) m s = Ok (0, slice i m bs))"

lemma readable_cong: "readable src bs s \<Longrightarrow> pt s' = pt s \<Longrightarrow> me s' = me s \<Longrightarrow> local s' = local s \<Longrightarrow> readable src bs s'"
  by (simp add: readable_def copy_from_def split: kaddr.splits)

text \<open>The bytes \<open>bs\<close> have been stored at \<open>off\<close>.\<close>

definition stored :: "nat \<Rightarrow> nat \<Rightarrow> u8 list \<Rightarrow> fsys \<Rightarrow> fsys \<Rightarrow> bool" where
  "stored ip off bs s s' \<longleftrightarrow> iok ip s' \<and> off + length bs \<le> MAXFILE * BSIZE \<and>
     (\<forall>k < MAXFILE * BSIZE. fdata s' ip k = (if off \<le> k \<and> k < off + length bs then bs ! (k - off) else fdata s ip k)) \<and>
     (\<forall>j < MAXFILE. fblk s ip j \<noteq> 0 \<longrightarrow> fblk s' ip j = fblk s ip j) \<and>
     (\<forall>j < MAXFILE. fblk s ip j = 0 \<and> fblk s' ip j \<noteq> 0 \<longrightarrow> \<not> used s (fblk s' ip j)) \<and>
     (\<forall>k. off \<le> k \<and> k < off + length bs \<longrightarrow> fblk s' ip (k div BSIZE) \<noteq> 0) \<and>
     (addrs (itable s ip) ! NDIRECT = 0 \<and> addrs (itable s' ip) ! NDIRECT \<noteq> 0 \<longrightarrow> \<not> used s (addrs (itable s' ip) ! NDIRECT)) \<and>
     (addrs (itable s ip) ! NDIRECT \<noteq> 0 \<longrightarrow> addrs (itable s' ip) ! NDIRECT = addrs (itable s ip) ! NDIRECT) \<and>
     (\<forall>n < fsize (sb s). used s n \<longrightarrow> used s' n) \<and>
     (\<forall>n. (dblock s n \<or> n \<in> iblocks s) \<and> n \<notin> fblk s ip ` {..<MAXFILE} \<and> (n = 0 \<or> n \<noteq> addrs (itable s' ip) ! NDIRECT) \<longrightarrow>
        fview s' n = fview s n)"

lemma stored_0: "iok ip s \<Longrightarrow> off \<le> MAXFILE * BSIZE \<Longrightarrow> stored ip off [] s s"
  by (auto simp: stored_def)

lemma stored_extends:
  assumes s: "stored ip off bs s s1" and g: "grown W ip s s1" and e: "extends ip s1 s2" and g2: "grown X ip s1 s2"
  shows "stored ip off bs s s2"
proof -
  note k = grown_fields [OF g] and k2 = grown_fields [OF g2]
  have d: "dblock s1 n" if "dblock s n" for n using that s k by (simp add: dblock_def stored_def)
  have i: "n = 0 \<or> n \<noteq> addrs (itable s1 ip) ! NDIRECT" if "n = 0 \<or> n \<noteq> addrs (itable s2 ip) ! NDIRECT" for n
    using that e by (auto simp: extends_def)
  have 1: "fview s2 n = fview s n" if "dblock s n \<or> n \<in> iblocks s" "n \<notin> fblk s ip ` {..<MAXFILE}" "n = 0 \<or> n \<noteq> addrs (itable s2 ip) ! NDIRECT" for n
    using that i [OF that(3)] d [of n] k(10) s e unfolding extends_def stored_def by metis
  have 2: "fblk s2 ip j = fblk s ip j" if "j < MAXFILE" "fblk s ip j \<noteq> 0" for j
    using that s e unfolding extends_def stored_def by metis
  have 3: "\<not> used s (fblk s2 ip j)" if j: "j < MAXFILE" "fblk s ip j = 0" "fblk s2 ip j \<noteq> 0" for j
  proof (cases "fblk s1 ip j = 0")
    case True
    have "dblock s2 (fblk s2 ip j)" using j e by (simp add: extends_def iok_def inode_ok_def)
    then have "fblk s2 ip j < fsize (sb s)" using k k2 by (simp add: dblock_def)
    then show ?thesis using True j s e unfolding extends_def stored_def by metis
  next
    case False
    then show ?thesis using j s e unfolding extends_def stored_def by metis
  qed
  have 4: "fblk s2 ip (m div BSIZE) \<noteq> 0" if "off \<le> m" "m < off + length bs" "m div BSIZE < MAXFILE" for m
    using that s e unfolding extends_def stored_def by metis
  have 5: "m div BSIZE < MAXFILE" if "off \<le> m" "m < off + length bs" for m
    using that s by (simp add: stored_def less_mult_imp_div_less)
  have 6: "\<not> used s (addrs (itable s2 ip) ! NDIRECT)" if j: "addrs (itable s ip) ! NDIRECT = 0" "addrs (itable s2 ip) ! NDIRECT \<noteq> 0"
  proof (cases "addrs (itable s1 ip) ! NDIRECT = 0")
    case True
    have "dblock s2 (addrs (itable s2 ip) ! NDIRECT)" using j e by (simp add: extends_def iok_def inode_ok_def)
    then have "addrs (itable s2 ip) ! NDIRECT < fsize (sb s)" using k k2 by (simp add: dblock_def)
    then show ?thesis using True j s e unfolding extends_def stored_def by metis
  next
    case False
    then show ?thesis using j s e unfolding extends_def stored_def by metis
  qed
  show ?thesis using s e 1 2 3 4 5 6 k(1) unfolding extends_def stored_def by simp
qed

lemma splice_chunk:
  assumes l: "length bs = BSIZE" and m: "m \<le> BSIZE - k mod BSIZE" and c: "length ch = m"
    and j: "j div BSIZE = k div BSIZE"
  shows "splice (k mod BSIZE) ch bs ! (j mod BSIZE) = (if k \<le> j \<and> j < k + m then ch ! (j - k) else bs ! (j mod BSIZE))"
proof -
  have e: "BSIZE * (k div BSIZE) + k mod BSIZE = k" "BSIZE * (k div BSIZE) + j mod BSIZE = j"
    using mult_div_mod_eq [of BSIZE k] mult_div_mod_eq [of BSIZE j] unfolding j by blast+
  then have i: "k mod BSIZE \<le> j mod BSIZE \<longleftrightarrow> k \<le> j" "j mod BSIZE < k mod BSIZE + m \<longleftrightarrow> j < k + m" "j mod BSIZE - k mod BSIZE = j - k"
    by linarith+
  have "j mod BSIZE < length bs" "k mod BSIZE + length ch \<le> length bs" using l m c by simp_all
  then show ?thesis using nth_splice [of "k mod BSIZE" ch bs "j mod BSIZE"] i c by simp
qed

lemma same_block:
  assumes "k \<le> j" "j < k + m" "m \<le> BSIZE - k mod BSIZE"
  shows "j div BSIZE = k div BSIZE"
proof -
  have "k mod BSIZE + (j - k) < BSIZE" using assms by linarith
  then show ?thesis using div_mod_within [of k BSIZE "j - k"] assms(1) by simp
qed

lemma stored_data:
  assumes s: "stored ip off (take t bs) s s1" and g: "grown W ip s s1" and f: "fok Map.empty s2"
    and k: "k = off + t" "b = k div BSIZE" and m: "m \<le> BSIZE - k mod BSIZE" "t + m \<le> length bs" "0 < m" "off + t + m \<le> MAXFILE * BSIZE"
    and a: "a = fblk s1 ip b" "a \<noteq> 0" and w: "wrote {a} ((fview s1)(a := splice (k mod BSIZE) (slice t m bs) (fview s1 a))) s1 s2"
  shows "stored ip off (take (t + m) bs) s s2"
proof -
  have o: "iok ip s1" using s by (simp add: stored_def)
  have b: "b < MAXFILE" "fblk s1 ip b \<noteq> 0" using k m a by (auto simp: less_mult_imp_div_less)
  note D = data_written [OF o f b w [unfolded a(1)]]
  note kf = grown_fields [OF g]
  have lg: "logged {a} s1 s2" using w by (simp add: wrote_def)
  note k2 = logged_fields [OF lg]
  have lb: "length (fview s1 a) = BSIZE" "length (slice t m bs) = m" using fok_len [OF iok_room(2) [OF o]] m by simp_all
  have "\<forall>k < MAXFILE * BSIZE. fdata s1 ip k = (if off \<le> k \<and> k < off + length (take t bs) then take t bs ! (k - off) else fdata s ip k)"
    using s unfolding stored_def by blast
  then have S: "fdata s1 ip j = (if off \<le> j \<and> j < off + t then bs ! (j - off) else fdata s ip j)" if "j < MAXFILE * BSIZE" for j
    using that m(2) by (auto simp: less_diff_conv2)
  have A: "fdata s2 ip j = (if off \<le> j \<and> j < off + (t + m) then bs ! (j - off) else fdata s ip j)" if j: "j < MAXFILE * BSIZE" for j
  proof (cases "j div BSIZE = b")
    case True
    have old: "fview s1 a ! (j mod BSIZE) = (if off \<le> j \<and> j < off + t then bs ! (j - off) else fdata s ip j)"
      using S [OF j] a True by (simp add: fdata_def [of s1] Let_def)
    have "fdata s2 ip j = (if k \<le> j \<and> j < k + m then slice t m bs ! (j - k) else fview s1 a ! (j mod BSIZE))"
      using D(3) [OF j] splice_chunk [OF lb(1) m(1) lb(2), of j] True k(2) a(1) by simp
    then show ?thesis using old k(1) m(2) by (auto simp: nth_slice)
  next
    case False
    have "\<not> (k \<le> j \<and> j < k + m)" using same_block [of k j m] m(1) False k(2) by blast
    then show ?thesis using D(3) [OF j] False S [OF j] k(1) by auto
  qed
  have B: "fblk s2 ip (j div BSIZE) \<noteq> 0" if j: "off \<le> j" "j < off + (t + m)" for j
  proof (cases "j < off + t")
    case True
    then have "fblk s1 ip (j div BSIZE) \<noteq> 0" using s j(1) m(2) unfolding stored_def by simp
    then show ?thesis using D(2) [of "j div BSIZE"] j m(4) by (simp add: less_mult_imp_div_less)
  next
    case False
    then have "j div BSIZE = b" using same_block [of k j m] m(1) k j by simp
    then show ?thesis using D(2) [OF b(1)] b(2) by simp
  qed
  have na: "a \<notin> {n. dblock s n \<or> n \<in> iblocks s} - fblk s ip ` {..<MAXFILE}"
  proof (cases "fblk s ip b = 0")
    case True
    have "dblock s1 a" using o b a by (simp add: iok_def inode_ok_def)
    moreover have "\<not> used s a" using s True b a unfolding stored_def by blast
    ultimately show ?thesis using kf(10) by (simp add: dblock_def)
  next
    case False
    then have "a = fblk s ip b" using s b(1) a(1) by (simp add: stored_def)
    then show ?thesis using b(1) by auto
  qed
  have C: "fview s2 n = fview s n" if "dblock s n \<or> n \<in> iblocks s" "n \<notin> fblk s ip ` {..<MAXFILE}" "n = 0 \<or> n \<noteq> addrs (itable s2 ip) ! NDIRECT" for n
  proof -
    have "n \<noteq> a" using na that by auto
    then have "fview s2 n = fview s1 n" using w by (simp add: wrote_def)
    then show ?thesis using s that k2(2) by (simp add: stored_def)
  qed
  have A': "fdata s2 ip j = (if off \<le> j \<and> j < off + (t + m) then take (t + m) bs ! (j - off) else fdata s ip j)" if "j < MAXFILE * BSIZE" for j
    using A [OF that] by (auto simp: less_diff_conv2)
  have E: "\<forall>j < MAXFILE. fblk s ip j \<noteq> 0 \<longrightarrow> fblk s2 ip j = fblk s ip j"
      "\<forall>j < MAXFILE. fblk s ip j = 0 \<and> fblk s2 ip j \<noteq> 0 \<longrightarrow> \<not> used s (fblk s2 ip j)"
    using s D(2) by (simp_all add: stored_def)
  show ?thesis
    using s A' B C D(1,4) E kf(1) k2(2) m(2,4) unfolding stored_def by simp
qed

text \<open>The number of blocks that the range from \<open>a\<close> to \<open>b\<close> touches.\<close>

definition nblk :: "nat \<Rightarrow> nat \<Rightarrow> nat" where
  "nblk a b = (b + (BSIZE - 1)) div BSIZE - a div BSIZE"

lemma nblk_pos: "a < b \<Longrightarrow> a div BSIZE < (b + (BSIZE - 1)) div BSIZE"
  by (simp add: div_less_iff_less_mult)

lemma nblk_step:
  assumes "a + m < b" and "m = min (b - a) (BSIZE - a mod BSIZE)"
  shows "Suc (nblk (a + m) b) = nblk a b"
proof -
  have m: "m = BSIZE - a mod BSIZE" using assms by linarith
  have e: "BSIZE * (a div BSIZE) + a mod BSIZE = a" by (rule mult_div_mod_eq)
  have "a mod BSIZE < BSIZE" by simp
  then have "a + m = BSIZE * Suc (a div BSIZE)" using m e unfolding mult_Suc_right by linarith
  then have "(a + m) div BSIZE = Suc (a div BSIZE)" by simp
  moreover have "(a + m) div BSIZE < (b + (BSIZE - 1)) div BSIZE" by (rule nblk_pos [OF assms(1)])
  ultimately show ?thesis unfolding nblk_def by linarith
qed

text \<open>The blocks that are logged besides the bitmap: \<open>X\<close> has one for each block of the range so far and the indirect block.\<close>

abbreviation ind_of :: "nat \<Rightarrow> fsys \<Rightarrow> u32" where
  "ind_of ip s \<equiv> addrs (itable s ip) ! NDIRECT"

lemma mapped_budget:
  assumes g: "grown (bitmap s0 \<union> X) ip s0 s" "ind_of ip s \<in> X" and m: "mapped ip b s a s1"
    and K: "card X + Suc N \<le> (if ind_of ip s = 0 then K else Suc K)"
  defines "Y \<equiv> insert a (insert (ind_of ip s1) X)"
  shows "grown (bitmap s0 \<union> Y) ip s0 s1" and "ind_of ip s1 \<in> Y" and "card Y + N \<le> (if ind_of ip s1 = 0 then K else Suc K)"
proof -
  have "grown (insert a (insert (ind_of ip s1) (bitmap s))) ip s s1" using m by (simp add: mapped_def)
  then show "grown (bitmap s0 \<union> Y) ip s0 s1"
    using grown_trans [OF g(1)] grown_fields(9) [OF g(1)] by (auto simp: Y_def intro: grown_mono)
  show "ind_of ip s1 \<in> Y" by (simp add: Y_def)
  have i: "ind_of ip s1 = ind_of ip s" if "ind_of ip s \<noteq> 0" using m that by (simp add: mapped_def extends_def)
  have c: "card Y \<le> Suc (card (insert (ind_of ip s1) X))" unfolding Y_def by (rule card_insert_le_m1) simp_all
  show "card Y + N \<le> (if ind_of ip s1 = 0 then K else Suc K)"
  proof (cases "ind_of ip s1 \<in> X")
    case True
    then have "card Y \<le> Suc (card X)" using c by (simp add: insert_absorb)
    then show ?thesis using K i by (auto split: if_splits)
  next
    case False
    then have "ind_of ip s1 \<noteq> ind_of ip s" using g(2) by auto
    then have "ind_of ip s = 0" "ind_of ip s1 \<noteq> 0" using i by auto
    moreover have "card Y \<le> Suc (Suc (card X))" using c card_insert_le_m1 [of "Suc (card X)" X "ind_of ip s1"] by simp
    ultimately show ?thesis using K by simp
  qed
qed

lemma write_chunk:
  assumes o: "iok ip s" and r: "room k s" and b: "b < MAXFILE" "a = fblk s ip b" "a \<noteq> 0"
    and l: "\<And>v. length v = BSIZE \<Longrightarrow> length (g v) = BSIZE"
  obtains bp s1 s2 where "f_bread (idev (itable s ip)) a s = Ok (bp, s1)" "bdata s1 bp = fview s a" "pt s1 = pt s" "me s1 = me s" "local s1 = local s"
    "bindR (f_log_write bp (bset bp (g (fview s a)) s1)) (f_brelse bp) = Ok s2" "fok Map.empty s2"
    "wrote {a} ((fview s)(a := g (fview s a))) s s2"
proof -
  note F = iok_room(2) [OF o]
  have a: "a \<notin> log_area (lstart (lg s))" using o b by (auto simp: iok_def inode_ok_def dblock_def)
  have rb: "lh_n (lg s) + int (card (dom (Map.empty :: nat \<rightharpoonup> u32))) < int NBUF" by (rule room_bread [OF F r]) simp
  obtain bp s1 where s1: "f_bread (idev (itable s ip)) a s = Ok (bp, s1)" "fok [bp \<mapsto> a] s1" "viewed s s1"
    using f_bread_ok [OF F _ area_not_start [OF a] rb iok_room(1) [OF o]] by (auto simp: okR_Ex)
  note k = logged_fields [OF viewed_logged [OF s1(3)]]
  have bd: "bdata s1 bp = fview s a" using fok_data [OF s1(2), of bp] viewed_view [OF s1(3)] by simp
  have "okR (bindR (f_log_write bp (bset bp (g (fview s a)) s1)) (f_brelse bp))
      (\<lambda>s'. fok Map.empty s' \<and> wrote {a} ((fview s1)(a := g (fview s a))) s1 s')"
    by (rule write_held [OF s1(2) _ _ room_viewed [OF s1(3) r]]) (use k a l fok_len [OF F] in auto)
  then obtain s2 where s2: "bindR (f_log_write bp (bset bp (g (fview s a)) s1)) (f_brelse bp) = Ok s2" "fok Map.empty s2"
      "wrote {a} ((fview s1)(a := g (fview s a))) s1 s2"
    by (auto simp: okR_Ex)
  have "wrote {a} ((fview s)(a := g (fview s a))) s s2"
    using wrote_viewed [OF s1(3) s2(3)] viewed_view [OF s1(3)] by simp
  then show ?thesis using that s1(1) bd k s2(1,2) by blast
qed

lemma writei_loop_ok:
  assumes rd: "readable src bs s0" and n: "n = length bs" "off + n \<le> MAXFILE * BSIZE" and r: "room (K + 2) s0"
  shows "stored ip off (take tot bs) s0 s \<Longrightarrow> grown (bitmap s0 \<union> X) ip s0 s \<Longrightarrow> ind_of ip s \<in> X \<Longrightarrow> tot \<le> n \<Longrightarrow>
    card X + (if tot < n then nblk (off + tot) (off + n) else 0) \<le> (if ind_of ip s = 0 then K else Suc K) \<Longrightarrow>
    okR (writei_loop ip (adv src tot) (off + tot) n tot s) (\<lambda>(t, o', s'). t \<le> n \<and> o' = off + t \<and> stored ip off (take t bs) s0 s' \<and>
      (\<exists>X. grown (bitmap s0 \<union> X) ip s0 s' \<and> card X \<le> Suc K) \<and> (t < n \<longrightarrow> (\<forall>b < fsize (sb s0). used s' b)))"
proof (induction "n - tot" arbitrary: tot s X rule: less_induct)
  case less
  note g = less.prems(2)
  have o: "iok ip s" using less.prems(1) by (simp add: stored_def)
  show ?case
  proof (cases "tot < n")
    case False
    have "card X \<le> Suc K" using less.prems(5) by (auto split: if_splits)
    then show ?thesis using False less.prems by (subst writei_loop.simps) auto
  next
    case True
    let ?k = "off + tot"
    define m where "m = min (n - tot) (BSIZE - ?k mod BSIZE)"
    have "m \<le> n - tot" "0 < m" "m \<le> BSIZE - ?k mod BSIZE" using True by (simp_all add: m_def)
    then have m: "0 < m" "tot + m \<le> n" "m \<le> BSIZE - ?k mod BSIZE" using True by linarith+
    have b: "?k div BSIZE < MAXFILE" using True n(2) by (simp add: less_mult_imp_div_less)
    obtain N where N: "nblk ?k (off + n) = Suc N" using nblk_pos [of ?k "off + n"] True by (cases "nblk ?k (off + n)") (auto simp: nblk_def)
    have c: "card X + Suc N \<le> (if ind_of ip s = 0 then K else Suc K)" using less.prems(5) True N by simp
    then have "card X \<le> K" by (auto split: if_splits)
    then have r2: "room (Suc (Suc 0)) s" by (intro room_grown [OF g]) (rule room_mono [OF r], simp)
    obtain a s1 where s1: "bmap ip (of_nat (?k div BSIZE)) s = Ok (a, s1)" "mapped ip (?k div BSIZE) s a s1"
      using bmap_ok [OF o r2 b] by (auto simp: okR_Ex)
    let ?X = "insert a (insert (ind_of ip s1) X)"
    note B = mapped_budget [OF g less.prems(3) s1(2) c]
    have e1: "extends ip s s1" "grown (insert a (insert (ind_of ip s1) (bitmap s))) ip s s1" using s1(2) by (simp_all add: mapped_def)
    have st1: "stored ip off (take tot bs) s0 s1" by (rule stored_extends [OF less.prems(1) g e1])
    have cX: "card ?X \<le> Suc K" using B(3) by (auto split: if_splits)
    show ?thesis
    proof (cases "a = 0")
      case a0: True
      then have "\<forall>b < fsize (sb s0). used s1 b" using s1(2) grown_fields(1) [OF g] by (simp add: mapped_def)
      moreover have "\<exists>X. grown (bitmap s0 \<union> X) ip s0 s1 \<and> card X \<le> Suc K" using B(1) cX by blast
      ultimately show ?thesis using True s1(1) a0 st1 by (subst writei_loop.simps) simp
    next
      case an: False
      have o1: "iok ip s1" using st1 by (simp add: stored_def)
      have r1: "room 0 s1" by (intro room_grown [OF B(1)]) (rule room_mono [OF r], use cX in simp)
      have ab: "a = fblk s1 ip (?k div BSIZE)" using s1(2) by (simp add: mapped_def)
      let ?g = "splice (?k mod BSIZE) (slice tot m bs)"
      obtain bp s2 s3 where s3: "f_bread (idev (itable s1 ip)) a s1 = Ok (bp, s2)" "bdata s2 bp = fview s1 a"
          "pt s2 = pt s1" "me s2 = me s1" "local s2 = local s1"
          "bindR (f_log_write bp (bset bp (?g (fview s1 a)) s2)) (f_brelse bp) = Ok s3" "fok Map.empty s3"
          "wrote {a} ((fview s1)(a := ?g (fview s1 a))) s1 s3"
        by (rule write_chunk [OF o1 r1 b ab an, of ?g]) (use m n in simp_all)
      note k1 = grown_fields [OF B(1)]
      have "readable src bs s2" by (rule readable_cong [OF rd]) (use s3(3-5) k1 in simp_all)
      then have cp: "copy_from (adv src tot) m s2 = Ok (0, slice tot m bs)" using m n by (simp add: readable_def)
      have st3: "stored ip off (take (tot + m) bs) s0 s3"
        by (rule stored_data [OF st1 B(1) s3(7) refl refl m(3) _ m(1) _ ab an s3(8)]) (use m n in simp_all)
      have lg: "logged {a} s1 s3" using s3(8) by (simp add: wrote_def)
      have g3: "grown (bitmap s0 \<union> ?X) ip s0 s3"
        using grown_trans [OF B(1) logged_grown [OF lg]] by (simp add: insert_absorb Un_commute insert_commute)
      have i3: "ind_of ip s3 = ind_of ip s1" using logged_fields(2) [OF lg] by simp
      have c3: "card ?X + (if tot + m < n then nblk (off + (tot + m)) (off + n) else 0) \<le> (if ind_of ip s3 = 0 then K else Suc K)"
        using B(3) i3 nblk_step [of ?k m "off + n"] N by (auto simp: m_def add.assoc)
      have IH: "okR (writei_loop ip (adv src (tot + m)) (off + (tot + m)) n (tot + m) s3) (\<lambda>(t, o', s'). t \<le> n \<and> o' = off + t \<and> stored ip off (take t bs) s0 s' \<and>
          (\<exists>X. grown (bitmap s0 \<union> X) ip s0 s' \<and> card X \<le> Suc K) \<and> (t < n \<longrightarrow> (\<forall>b < fsize (sb s0). used s' b)))"
        by (rule less.hyps [OF _ st3 g3 _ m(2) c3]) (use m(1) True B(2) i3 in auto)
      have "writei_loop ip (adv src tot) ?k n tot s = writei_loop ip (adv src (tot + m)) (off + (tot + m)) n (tot + m) s3"
        using s3(6) by (subst writei_loop.simps)
          (auto simp: True s1(1) an s3(1,2) cp Let_def adv_adv add.assoc bindR_eq_Ok simp flip: m_def)
      then show ?thesis using IH by simp
    qed
  qed
qed

section \<open>The inode\<close>

lemma upi_keep:
  assumes "addrs (f (itable s ip)) = addrs (itable s ip)" "idev (f (itable s ip)) = idev (itable s ip)" "inum (f (itable s ip)) = inum (itable s ip)"
  shows "fblk (upi ip f s) ip = fblk s ip" "fdata (upi ip f s) ip = fdata s ip" "iok ip (upi ip f s) = iok ip s"
proof -
  show b: "fblk (upi ip f s) ip = fblk s ip" using assms by (intro ext) (simp add: fblk_def Let_def cong: if_cong)
  then show "fdata (upi ip f s) ip = fdata s ip" by (intro ext) (simp add: fdata_def Let_def cong: if_cong)
  have "inode_ok (upi ip f s) ip = inode_ok s ip" using assms b by (simp add: inode_ok_def)
  then show "iok ip (upi ip f s) = iok ip s" by (simp add: iok_def)
qed

lemma inode_written:
  assumes o: "iok ip s" and f: "fok Map.empty s'" and n: "n \<in> iblocks s" and w: "wrote {n} ((fview s)(n := v)) s s'"
  shows "iok ip s'" and "j < MAXFILE \<Longrightarrow> fblk s' ip j = fblk s ip j" and "k < MAXFILE * BSIZE \<Longrightarrow> fdata s' ip k = fdata s ip k"
    and "m < fsize (sb s) \<Longrightarrow> used s' m = used s m"
proof -
  have lg: "logged {n} s s'" using w by (simp add: wrote_def)
  note k = logged_fields [OF lg]
  have V: "blk (ldev (lg s)) (bc (lg s')) = (fview s)(n := v)" using w k(7) by (simp add: wrote_def)
  have I: "inode_ok s ip" and L: "layout Map.empty s" using o by (auto simp: iok_def)
  have "fview s' m = fview s m" if "m \<in> bitmap s" for m using V k(7) L n that by (auto simp: layout_def)
  note U = iok_used_cong [OF k(1,6) this]
  show "m < fsize (sb s) \<Longrightarrow> used s' m = used s m" using U by blast
  have nd: "\<not> dblock s n" using n by (simp add: dblock_def)
  then have ni: "ind_of ip s \<noteq> n" if "ind_of ip s \<noteq> 0" using I that by (auto simp: inode_ok_def)
  show B: "j < MAXFILE \<Longrightarrow> fblk s' ip j = fblk s ip j" for j using V k ni by (simp add: fblk_def Let_def)
  have "inode_ok s' ip" using I B U(2) k unfolding inode_ok_def by simp
  then show "iok ip s'" using f U(3) L by (simp add: iok_def)
  assume "k < MAXFILE * BSIZE"
  then have j: "k div BSIZE < MAXFILE" by (simp add: less_mult_imp_div_less)
  then have "fblk s ip (k div BSIZE) \<noteq> n" if "fblk s ip (k div BSIZE) \<noteq> 0" using I nd that by (auto simp: inode_ok_def)
  then show "fdata s' ip k = fdata s ip k" using B [OF j] V k(7) by (simp add: fdata_def Let_def)
qed

text \<open>The inode on disk.\<close>

definition on_disk :: "nat \<Rightarrow> fsys \<Rightarrow> bool" where
  "on_disk ip s \<longleftrightarrow> same_dinode (get_dinode (dinode_off (inum (itable s ip))) (fview s (IBLOCK (inum (itable s ip)) (sb s))) (itable s ip)) (itable s ip)"

lemma iupdate_iok:
  assumes o: "iok ip s" and r: "room k s"
  shows "okR (iupdate ip s) (\<lambda>s'. iok ip s' \<and> (\<forall>j < MAXFILE. fblk s' ip j = fblk s ip j) \<and> (\<forall>k < MAXFILE * BSIZE. fdata s' ip k = fdata s ip k) \<and>
    (\<forall>m < fsize (sb s). used s' m = used s m) \<and> on_disk ip s' \<and> logged {IBLOCK (inum (itable s ip)) (sb s)} s s' \<and>
    (\<forall>n. n \<noteq> IBLOCK (inum (itable s ip)) (sb s) \<longrightarrow> fview s' n = fview s n))"
proof -
  let ?n = "IBLOCK (inum (itable s ip)) (sb s)" and ?d = "dinode_off (inum (itable s ip))"
  have nb: "?n \<in> iblocks s" using o by (simp add: iok_def inode_ok_def iblocks_def)
  then have "?n \<notin> log_area (lstart (lg s))" using iok_room(3) [OF o] by (auto simp: layout_def)
  then obtain s' where s': "iupdate ip s = Ok s'" "fok Map.empty s'" "wrote {?n} ((fview s)(?n := put_dinode ?d (itable s ip) (fview s ?n))) s s'"
    using iupdate_ok [OF iok_room(2) [OF o] _ _ _ r iok_room(1) [OF o]] iok_room(4) [OF o] by (auto simp: okR_Ex)
  note W = inode_written [OF o s'(2) nb s'(3)]
  have lg: "logged {?n} s s'" using s'(3) by (simp add: wrote_def)
  note k = logged_fields [OF lg]
  have "fview s' ?n = put_dinode ?d (itable s ip) (fview s ?n)" using s'(3) by (simp add: wrote_def)
  moreover have "?d + 64 \<le> length (fview s ?n)" using fok_len [OF iok_room(2) [OF o], of ?n] dinode_off_bound by metis
  ultimately have "on_disk ip s'"
    using get_dinode_put_dinode [of "itable s ip" ?d "fview s ?n" "itable s ip"] iok_room(4) [OF o] k by (simp add: on_disk_def)
  moreover have "fview s' n = fview s n" if "n \<noteq> ?n" for n using s'(3) that by (simp add: wrote_def)
  ultimately show ?thesis using s'(1) W lg by simp
qed

section \<open>Writing\<close>

text \<open>The result of writing the first \<open>t\<close> of the bytes.\<close>

definition wrote_file :: "nat \<Rightarrow> nat \<Rightarrow> u8 list \<Rightarrow> fsys \<Rightarrow> fsys \<Rightarrow> bool" where
  "wrote_file ip off bs s s' \<longleftrightarrow> iok ip s' \<and> dense ip s' \<and> on_disk ip s' \<and>
     unat (isize (itable s' ip)) = max (unat (isize (itable s ip))) (off + length bs) \<and>
     (\<forall>k < MAXFILE * BSIZE. fdata s' ip k = (if off \<le> k \<and> k < off + length bs then bs ! (k - off) else fdata s ip k)) \<and>
     itable s' = (itable s)(ip := (itable s ip)\<lparr>isize := isize (itable s' ip), addrs := addrs (itable s' ip)\<rparr>) \<and>
     pt s' = pt s \<and> me s' = me s \<and> local s' = local s \<and> sb s' = sb s \<and> ldev (lg s') = ldev (lg s) \<and>
     (\<forall>n. dblock s n \<and> n \<notin> fblk s ip ` {..<MAXFILE} \<and> n \<noteq> ind_of ip s \<longrightarrow> fview s' n = fview s n)"

lemma grown_size:
  assumes g: "grown W ip s s1" and s': "logged Y (upi ip (\<lambda>x. x\<lparr>isize := z\<rparr>) s1) s'"
  shows "itable s' = (itable s)(ip := (itable s ip)\<lparr>isize := z, addrs := addrs (itable s' ip)\<rparr>)"
proof -
  define A where "A = addrs (itable s1 ip)"
  have "itable s1 = (itable s)(ip := (itable s ip)\<lparr>addrs := A\<rparr>)" using grown_fields(11) [OF g] by (simp add: A_def)
  moreover have "itable s' = (itable s1)(ip := (itable s1 ip)\<lparr>isize := z\<rparr>)" using logged_fields(2) [OF s'] by simp
  ultimately show ?thesis by (cases "itable s ip") simp
qed

lemma grown_inode:
  assumes "grown W ip s s1"
  shows "isize (itable s1 ip) = isize (itable s ip)" "inum (itable s1 ip) = inum (itable s ip)"
proof -
  have "itable s1 ip = (itable s ip)\<lparr>addrs := addrs (itable s1 ip)\<rparr>" using grown_fields(11) [OF assms] by (metis fun_upd_same)
  then show "isize (itable s1 ip) = isize (itable s ip)" "inum (itable s1 ip) = inum (itable s ip)"
    by (cases "itable s ip"; cases "itable s1 ip"; simp)+
qed

text \<open>After the loop: the size is updated and the inode is written.\<close>

lemma writei_finish:
  assumes o: "iok ip s" and d: "dense ip s" and off: "off \<le> unat (isize (itable s ip))" "off + length bs \<le> MAXFILE * BSIZE"
    and s1: "stored ip off bs s s1" "grown (bitmap s \<union> X) ip s s1" "room 1 s1"
    and e2: "s2 = (if off + length bs > unat (isize (itable s1 ip)) then upi ip (\<lambda>x. x\<lparr>isize := of_nat (off + length bs)\<rparr>) s1 else s1)"
  shows "\<exists>s3. iupdate ip s2 = Ok s3 \<and> wrote_file ip off bs s s3 \<and> (\<forall>b < fsize (sb s). used s3 b = used s1 b) \<and>
    (\<exists>n. logset s3 \<subseteq> logset s \<union> bitmap s \<union> insert n X)"
proof -
  note k1 = grown_fields [OF s1(2)] and z1 = grown_inode [OF s1(2)]
  let ?z = "isize (itable s ip)"
  define z where "z = (if off + length bs > unat ?z then of_nat (off + length bs) else ?z)"
  have "unat (of_nat (off + length bs) :: u32) = off + length bs" using off(2) by (simp add: unat_of_nat del: of_nat_add)
  then have zu: "unat z = max (unat ?z) (off + length bs)" by (auto simp: z_def max_def simp del: of_nat_add)
  have "upi ip (\<lambda>x. x\<lparr>isize := isize (itable s1 ip)\<rparr>) s1 = s1" by (simp add: upi_def)
  then have s2_def: "s2 = upi ip (\<lambda>x. x\<lparr>isize := z\<rparr>) s1" using z1(1) by (simp add: e2 z_def)
  have o1: "iok ip s1" using s1(1) by (simp add: stored_def)
  have K: "fblk s2 ip = fblk s1 ip" "fdata s2 ip = fdata s1 ip" "iok ip s2 = iok ip s1"
    unfolding s2_def by (rule upi_keep; simp)+
  let ?n = "IBLOCK (inum (itable s2 ip)) (sb s2)"
  have r2: "room 1 s2" using s1(3) by (simp add: s2_def)
  from iupdate_iok [OF _ r2, of ip] obtain s3 where s3: "iupdate ip s2 = Ok s3" "iok ip s3" "\<forall>j < MAXFILE. fblk s3 ip j = fblk s2 ip j"
      "\<forall>k < MAXFILE * BSIZE. fdata s3 ip k = fdata s2 ip k" "\<forall>m < fsize (sb s2). used s3 m = used s2 m" "on_disk ip s3"
      "logged {?n} s2 s3" "\<forall>n. n \<noteq> ?n \<longrightarrow> fview s3 n = fview s2 n"
    using K(3) o1 by (auto simp: okR_Ex)
  have I3: "itable s3 = (itable s)(ip := (itable s ip)\<lparr>isize := z, addrs := addrs (itable s3 ip)\<rparr>)"
    by (rule grown_size [OF s1(2) s3(7) [unfolded s2_def]])
  have z3: "isize (itable s3 ip) = z" by (subst I3) simp
  have D: "k < MAXFILE * BSIZE \<and> fblk s3 ip (k div BSIZE) \<noteq> 0" if k: "k < unat z" for k
  proof -
    have kb: "k < MAXFILE * BSIZE" using k zu d off(2) by (cases "k < unat ?z") (auto simp: dense_def)
    then have j: "k div BSIZE < MAXFILE" by (simp add: less_mult_imp_div_less)
    have "fblk s1 ip (k div BSIZE) \<noteq> 0"
    proof (cases "k < unat ?z")
      case True
      then have "fblk s ip (k div BSIZE) \<noteq> 0" using d by (simp add: dense_def)
      then show ?thesis using s1(1) j unfolding stored_def by metis
    next
      case False
      then show ?thesis using k zu off(1) s1(1) by (simp add: stored_def)
    qed
    then show ?thesis using kb s3(3) K(1) j by simp
  qed
  have fr: "fview s3 n = fview s n" if n: "dblock s n" "n \<notin> fblk s ip ` {..<MAXFILE}" "n \<noteq> ind_of ip s" for n
  proof -
    have "n = 0 \<or> n \<noteq> ind_of ip s1" using n s1(1) unfolding stored_def by (metis dblock_def)
    then have "fview s1 n = fview s n" using n s1(1) unfolding stored_def by blast
    moreover have "n \<noteq> ?n"
      using n(1) o k1(1) z1(2) by (auto simp: dblock_def iblocks_def s2_def iok_def inode_ok_def)
    ultimately show ?thesis using s3(8) by (simp add: s2_def)
  qed
  have "\<forall>k < MAXFILE * BSIZE. fdata s3 ip k = (if off \<le> k \<and> k < off + length bs then bs ! (k - off) else fdata s ip k)"
    using s3(4) K(2) s1(1) unfolding stored_def by metis
  moreover have "pt s3 = pt s" "me s3 = me s" "local s3 = local s" "sb s3 = sb s" "ldev (lg s3) = ldev (lg s)"
    using logged_fields [OF s3(7)] k1 by (simp_all add: s2_def)
  ultimately have "wrote_file ip off bs s s3"
    unfolding wrote_file_def dense_def z3 zu using s3(2,6) D [unfolded zu] I3 fr by blast
  moreover have "logset s3 \<subseteq> logset s \<union> bitmap s \<union> insert ?n X" using s3(7) k1(12) by (auto simp: logged_def s2_def)
  ultimately show ?thesis using s3(1,5) k1(1) by (auto simp: s2_def)
qed

lemma writei_ok:
  assumes o: "iok ip s" and d: "dense ip s" and rd: "readable src bs s" and n: "unat n = length bs"
    and off: "off \<le> isize (itable s ip)" "unat off + length bs \<le> MAXFILE * BSIZE"
    and r: "room (nblk (unat off) (unat off + length bs) + 3) s"
  shows "okR (writei ip src off n s) (\<lambda>(r, s'). \<exists>t \<le> length bs. r = int t \<and> wrote_file ip (unat off) (take t bs) s s' \<and>
    (t < length bs \<longrightarrow> (\<forall>b < fsize (sb s). used s' b)) \<and>
    (\<exists>X. logset s' \<subseteq> logset s \<union> bitmap s \<union> X \<and> card X \<le> nblk (unat off) (unat off + length bs) + 3))"
proof -
  let ?o = "unat off" and ?N = "nblk (unat off) (unat off + length bs)"
  have nw: "unat (off + n) = ?o + length bs" using n off(2) by (simp add: unat_word_ariths)
  have g: "\<not> off > isize (itable s ip)" "\<not> off + n < off" "\<not> unat (off + n) > MAXFILE * BSIZE"
    using off nw by (auto simp: word_less_nat_alt word_le_nat_alt)
  have "okR (writei_loop ip (adv src 0) (?o + 0) (length bs) 0 s) (\<lambda>(t, o', s'). t \<le> length bs \<and> o' = ?o + t \<and> stored ip ?o (take t bs) s s' \<and>
      (\<exists>X. grown (bitmap s \<union> X) ip s s' \<and> card X \<le> Suc (Suc ?N)) \<and> (t < length bs \<longrightarrow> (\<forall>b < fsize (sb s). used s' b)))"
    by (rule writei_loop_ok [OF rd refl off(2), where X = "{ind_of ip s}"])
      (use o off(2) r in \<open>auto simp: stored_0 logged_grown room_def\<close>)
  then obtain t s1 X where s1: "writei_loop ip src ?o (length bs) 0 s = Ok (t, ?o + t, s1)" "t \<le> length bs" "stored ip ?o (take t bs) s s1"
      "grown (bitmap s \<union> X) ip s s1" "card X \<le> Suc (Suc ?N)" "t < length bs \<longrightarrow> (\<forall>b < fsize (sb s). used s1 b)"
    by (auto simp: okR_Ex)
  have r1: "room 1 s1" by (rule room_grown [OF s1(4)]) (rule room_mono [OF r], use s1(5) in simp)
  have l: "length (take t bs) = t" using s1(2) by simp
  have "?o \<le> unat (isize (itable s ip))" "?o + t \<le> MAXFILE * BSIZE" using off s1(2) by (auto simp: word_le_nat_alt)
  from writei_finish [OF o d _ _ s1(3,4) r1 refl, unfolded l, OF this] obtain s3 m where s3: "iupdate ip (if ?o + t > unat (isize (itable s1 ip)) then upi ip (\<lambda>x. x\<lparr>isize := of_nat (?o + t)\<rparr>) s1 else s1) = Ok s3"
      "wrote_file ip ?o (take t bs) s s3" "\<forall>b < fsize (sb s). used s3 b = used s1 b" "logset s3 \<subseteq> logset s \<union> bitmap s \<union> insert m X"
    by blast
  have "card (insert m X) \<le> ?N + 3" using card_insert_le_m1 [of "?N + 3" X] s1(5) by simp
  then have "\<exists>X. logset s3 \<subseteq> logset s \<union> bitmap s \<union> X \<and> card X \<le> ?N + 3" using s3(4) by blast
  moreover have "t < length bs \<longrightarrow> (\<forall>b < fsize (sb s). used s3 b)" using s1(6) s3(3) by simp
  moreover have "writei ip src off n s = Ok (int t, s3)" using g n s1(1) s3(1) by (simp add: writei_def Let_def)
  ultimately show ?thesis using s3(2) s1(2) by auto
qed

end
