(* ===== verification/Xv6_Content.thy ===== *)
theory Xv6_Content
  imports Xv6_Writei
begin

text \<open>
  The properties of the block allocator and of the contents of files, over the lemmas of \<open>Xv6_Block\<close>, \<open>Xv6_Inode\<close>,
  \<open>Xv6_Readi\<close> and \<open>Xv6_Writei\<close>, and a small file system to apply them to.
\<close>

section \<open>An example file system\<close>

text \<open>
  The layout that \<^verbatim>\<open>mkfs\<close> makes of 2000 blocks: the log from 2, the inodes from 32, the bitmap in 45.  The blocks up to 63 are
  in use; block 50 is the only one of the file with inode 1, of 100 bytes.
\<close>

definition disk1 :: "u32 \<Rightarrow> u8 list" where
  "disk1 n = (if n = 45 then replicate 8 255 @ replicate 1016 0 else if n = 50 then replicate BSIZE 7 else replicate BSIZE 0)"

definition sb1 :: superblock where
  "sb1 = \<lparr>magic = FSMAGIC, fsize = 2000, nblocks = 1954, ninodes = 200, nlog = 30, logstart = 2, inodestart = 32, bmapstart = 45\<rparr>"

definition inode1 :: inode where
  "inode1 = \<lparr>idev = 1, inum = 1, iref = 1, ilk = \<lparr>slocked = True, spid = 4\<rparr>, ivalid = True, itype = T_FILE, major = 0, minor = 0,
     nlink = 1, isize = 100, addrs = 50 # replicate 12 0\<rparr>"

definition fs1 :: fsys where
  "fs1 = \<lparr>lg = \<lparr>lstart = 2, lsize = 30, outstanding = 1, committing = False, ldev = 1, lh_n = 0, lh_block = (\<lambda>_. 0),
       bc = binit (bio0\<lparr>disk := disk1\<rparr>)\<rparr>,
     sb = sb1, itable = (\<lambda>_. inode1), pt = \<lparr>km = kmem_user, procs = [proc0\<lparr>pagetable := 0x80005000\<rparr>], nextpid = 1, initproc = None\<rparr>,
     me = 0, local = [1, 2, 3, 4]\<rparr>"

lemma fs1_log: "linv Map.empty (lg fs1)" and fs1_view: "fview fs1 = disk1"
proof -
  have "zeroed (bio0\<lparr>disk := disk1\<rparr>)" by (simp add: zeroed_def bio0_def initsleeplock_def)
  from binit_spec [OF this, of 1] have b: "binv 1 {} (binit (bio0\<lparr>disk := disk1\<rparr>))" "held (binit (bio0\<lparr>disk := disk1\<rparr>)) = {}"
      "blk 1 (binit (bio0\<lparr>disk := disk1\<rparr>)) = disk1" "disk (binit (bio0\<lparr>disk := disk1\<rparr>)) = disk1"
    by simp_all
  show "fview fs1 = disk1" using b(3) by (simp add: fs1_def)
  have "cst 1 {} Map.empty (binit (bio0\<lparr>disk := disk1\<rparr>))" using b(1,2) by (auto simp: cst_def intro!: exI [of _ "{}"])
  moreover have "get32 0 (replicate BSIZE 0) = (0 :: u32)" using get32_zeros [of 0 BSIZE] by simp
  ultimately show "linv Map.empty (lg fs1)"
    by (simp add: linv_def fs1_def homes_ok_def b(4) disk1_def head_n_def)
qed

lemma fs1_fok: "fok Map.empty fs1"
  using fs1_log by (simp add: fok_def fs1_view disk1_def) (simp add: fs1_def)

lemma small_word: "n < 2 ^ 32 \<Longrightarrow> unat (of_nat n :: u32) = n"
  by (simp add: unat_of_nat)

lemma log_area_2: "n \<in> log_area 2 \<longleftrightarrow> 2 \<le> unat n \<and> unat n < 32"
proof -
  have "unat (2 + of_nat i :: u32) = 2 + i" if "i \<le> 29" for i
    using that small_word [of "2 + i"] by simp
  then have "n \<in> log_area 2 \<longleftrightarrow> (\<exists>i \<le> 29. unat n = 2 + i)"
    by (auto simp: log_area_def image_iff word_unat_eq_iff)
  then show ?thesis by (auto intro!: exI [of _ "unat n - 2"])
qed

lemma fs1_bitmap: "bitmap fs1 = {45}"
proof -
  have "BBLOCK m sb1 = 45" if "m < 2000" for m
  proof -
    have "unat m < 2000" using that by (simp add: word_less_nat_alt)
    then have "m div 8192 = 0" by (simp add: word_unat_eq_iff unat_div)
    then show ?thesis by (simp add: BBLOCK_def sb1_def)
  qed
  moreover have "(0 :: u32) < 2000" by simp
  ultimately show ?thesis unfolding bitmap_def by (auto simp: fs1_def sb1_def [THEN arg_cong, of fsize] intro!: image_eqI [of _ _ 0])
qed

lemma fs1_iblocks: "n \<in> iblocks fs1 \<Longrightarrow> 32 \<le> unat n \<and> unat n < 45"
proof -
  assume "n \<in> iblocks fs1"
  then obtain i where i: "i < 200" "n = i div 16 + 32" by (auto simp: iblocks_def fs1_def sb1_def IBLOCK_def)
  then have "unat i < 200" by (simp add: word_less_nat_alt)
  then have "unat (i div 16) < 13" by (simp add: unat_div less_mult_imp_div_less)
  then show ?thesis using i(2) by (simp add: unat_word_ariths)
qed

lemma fs1_used: "unat n < 2000 \<Longrightarrow> used fs1 n \<longleftrightarrow> unat n < 64"
proof -
  assume n: "unat n < 2000"
  have b: "BBLOCK n (sb fs1) = 45" using n fs1_bitmap by (auto simp: bitmap_def fs1_def sb1_def word_less_nat_alt)
  have "unat n mod 8192 = unat n" "unat n div 8 < 1024" using n by auto
  moreover have "disk1 45 ! (unat n div 8) = (if unat n < 64 then 255 else 0)"
    using n by (auto simp: disk1_def nth_append)
  moreover have "bit (255 :: u8) (unat n mod 8)"
  proof -
    have "(255 :: u8) = - 1" by simp
    then show ?thesis by (simp only: bit_minus_1_iff) simp
  qed
  ultimately show ?thesis by (simp add: used_def is_free_bit b fs1_view)
qed

lemma fs1_layout: "layout Map.empty fs1"
proof -
  have c: "fsize (sb fs1) = 2000" "lstart (lg fs1) = 2" by (simp_all add: fs1_def sb1_def)
  have "used fs1 0" using fs1_used [of 0] by simp
  moreover have "45 \<notin> log_area 2" by (simp add: log_area_2)
  moreover have "iblocks fs1 \<inter> (log_area 2 \<union> {45}) = {}" using fs1_iblocks log_area_2 by force
  moreover have "n \<notin> log_area 2 \<union> {45} \<union> iblocks fs1" if "n < 2000" "\<not> used fs1 n" for n
  proof -
    have "64 \<le> unat n" using that fs1_used [of n] by (simp add: word_less_nat_alt)
    then show ?thesis using fs1_iblocks [of n] by (auto simp: log_area_2)
  qed
  ultimately show ?thesis unfolding layout_def c fs1_bitmap by simp
qed

lemma fs1_fblk: "bn < MAXFILE \<Longrightarrow> fblk fs1 0 bn = (if bn = 0 then 50 else 0)"
proof -
  assume "bn < MAXFILE"
  moreover have "addrs (itable fs1 0) = 50 # replicate 12 0" by (simp add: fs1_def inode1_def)
  ultimately show ?thesis by (simp add: fblk_def Let_def nth_Cons')
qed

lemma fs1_iok: "iok 0 fs1"
proof -
  have "dblock fs1 50" using fs1_used [of 50] fs1_iblocks [of 50] fs1_bitmap by (auto simp: dblock_def log_area_2) (simp_all add: fs1_def sb1_def log_area_2)
  then have "inode_ok fs1 0" using fs1_fblk by (auto simp: inode_ok_def) (simp_all add: fs1_def inode1_def sb1_def)
  then show ?thesis using fs1_fok fs1_layout by (simp add: iok_def)
qed

lemma fs1_dense: "dense 0 fs1"
  using fs1_fblk by (auto simp: dense_def fs1_def inode1_def)

lemma fs1_room: "k < 28 \<Longrightarrow> room k fs1"
  by (simp add: room_def fs1_bitmap logset_def) (simp add: fs1_def)

lemma fs1_fdata: "k < BSIZE \<Longrightarrow> fdata fs1 0 k = 7"
  using fs1_fblk [of 0] by (simp add: fdata_def fs1_view disk1_def)

section \<open>Properties\<close>

text \<open>
  C18: Inside a transaction \<^verbatim>\<open>balloc\<close> returns the first block whose bit in the bitmap is clear, zeroed and now marked as in
  use, and changes no other block but those of the bitmap; it returns 0, and changes nothing, exactly when every block is in use.
\<close>

theorem balloc_correct:
  assumes "fok Map.empty s" and "layout Map.empty s" and "room 0 s"
  shows "okR (balloc (ldev (lg s)) s) (\<lambda>(a, s'). fok Map.empty s' \<and> layout Map.empty s' \<and>
    (if \<forall>n < fsize (sb s). used s n then a = 0 \<and> fview s' = fview s
     else a \<noteq> 0 \<and> a < fsize (sb s) \<and> \<not> used s a \<and> (\<forall>n < a. used s n) \<and> fview s' a = replicate BSIZE 0 \<and>
       (\<forall>n < fsize (sb s). used s' n \<longleftrightarrow> n = a \<or> used s n) \<and> (\<forall>n. n \<noteq> a \<and> n \<notin> bitmap s \<longrightarrow> fview s' n = fview s n)))"
proof -
  let ?P = "\<lambda>(a, s'). fok Map.empty s' \<and> balloced 0 s a s'"
  have "okR (balloc (ldev (lg s)) s) ?P" by (rule balloc_ok) (use assms in auto)
  then obtain a s' where e: "balloc (ldev (lg s)) s = Ok (a, s')" and f: "fok Map.empty s'" and B: "balloced 0 s a s'" by (auto simp: okR_Ex)
  have c: "layout Map.empty s' \<and> (if \<forall>n < fsize (sb s). used s n then a = 0 \<and> viewed s s' else taken s a s' \<and> (\<forall>n < a. used s n))"
    by (rule balloced_cases [OF assms(1,2) B])
  have "fok Map.empty s' \<and> layout Map.empty s' \<and> (if \<forall>n < fsize (sb s). used s n then a = 0 \<and> fview s' = fview s
     else a \<noteq> 0 \<and> a < fsize (sb s) \<and> \<not> used s a \<and> (\<forall>n < a. used s n) \<and> fview s' a = replicate BSIZE 0 \<and>
       (\<forall>n < fsize (sb s). used s' n \<longleftrightarrow> n = a \<or> used s n) \<and> (\<forall>n. n \<noteq> a \<and> n \<notin> bitmap s \<longrightarrow> fview s' n = fview s n))"
  proof (cases "\<forall>n < fsize (sb s). used s n")
    case True
    show ?thesis using c f unfolding if_P [OF True] viewed_def by blast
  next
    case False
    show ?thesis using c f unfolding if_not_P [OF False] taken_def by blast
  qed
  then show ?thesis unfolding e okR.simps prod.case .
qed

theorem balloc_correct_witness: "okR (balloc 1 fs1) (\<lambda>(a, s'). a = 64 \<and> fview s' 64 = replicate BSIZE 0 \<and> used s' 64)"
proof -
  have c: "ldev (lg fs1) = 1" "fsize (sb fs1) = 2000" by (simp_all add: fs1_def sb1_def)
  have "\<not> used fs1 64" using fs1_used [of 64] by simp
  then have n: "\<not> (\<forall>n < 2000. used fs1 n)" by (intro notI, drule_tac x = 64 in spec) simp
  have a: "a = 64" if "a < 2000" "\<not> used fs1 a" "\<forall>n < a. used fs1 n" for a
  proof -
    have "64 \<le> unat a" using that fs1_used [of a] by (simp add: word_less_nat_alt)
    moreover have "\<not> 64 < a" using that(3) \<open>\<not> used fs1 64\<close> by blast
    ultimately show ?thesis by (simp add: word_unat_eq_iff word_less_nat_alt)
  qed
  have r: "room 0 fs1" by (rule fs1_room) simp
  show ?thesis
    by (rule okR_mono [OF balloc_correct [OF fs1_fok fs1_layout r, unfolded c if_not_P [OF n]]]) (use a in auto)
qed

text \<open>
  C6: \<^verbatim>\<open>writei\<close> writes a prefix of the bytes of the source: the bytes of the file in the range become those of the
  source, all others stay, the size is the maximum of the old one and the end of the range, the inode on disk is the one in
  memory, and no data block of another file changes.  It writes all of them unless no free block is left, and
  logs, besides the bitmap, at most three blocks more than the range touches.
\<close>

theorem writei_correct:
  assumes "iok ip s" and "dense ip s" and "readable src bs s" and "unat n = length bs" and "off \<le> isize (itable s ip)"
    and "unat off + length bs \<le> MAXFILE * BSIZE" and "room (nblk (unat off) (unat off + length bs) + 3) s"
  shows "okR (writei ip src off n s) (\<lambda>(r, s'). \<exists>t \<le> length bs. r = int t \<and> wrote_file ip (unat off) (take t bs) s s' \<and>
    (t < length bs \<longrightarrow> (\<forall>b < fsize (sb s). used s' b)) \<and>
    (\<exists>X. logset s' \<subseteq> logset s \<union> bitmap s \<union> X \<and> card X \<le> nblk (unat off) (unat off + length bs) + 3))"
  by (rule writei_ok) (use assms in auto)

lemma fs1_readable: "readable (Local 0) [1, 2, 3] fs1"
proof -
  have "slice i m [1, 2, 3, 4] = slice i m [1, 2, 3 :: u8]" if "i + m \<le> 3" for i m
  proof -
    have "m \<le> length [1, 2, 3 :: u8] - i" using that by simp
    then have "take m (drop i ([1, 2, 3] @ [4])) = take m (drop i [1, 2, 3 :: u8])"
      unfolding drop_append take_append by simp
    then show ?thesis by (simp add: slice_def)
  qed
  then show ?thesis by (simp add: readable_def copy_from_def adv_def fs1_def)
qed

lemma fs1_write: "(100 :: u32) \<le> isize (itable fs1 0)" "nblk (unat (100 :: u32)) (unat (100 :: u32) + length [1, 2, 3 :: u8]) + 3 = 4"
  by (simp_all add: fs1_def inode1_def nblk_def)

theorem writei_correct_witness:
  "okR (writei 0 (Local 0) 100 3 fs1) (\<lambda>(r, s'). \<exists>t \<le> 3. r = int t \<and> wrote_file 0 100 (take t [1, 2, 3]) fs1 s')"
  by (rule okR_mono [OF writei_correct [OF fs1_iok fs1_dense fs1_readable, of 3 100]]) (use fs1_write fs1_room in auto)

text \<open>
  C17: \<^verbatim>\<open>readi\<close> to a writable user range puts the bytes of the file from the offset on there, as many as asked for but not past
  the end of the file, returns their number, and changes neither any other byte of memory nor any block.
\<close>

theorem readi_correct:
  assumes "iok ip s" and "dense ip s" and "unat off + unat n < 2 ^ 32" and "pt_inv (km (pt s)) (utable s) xs" and "user_ok (km (pt s)) (utable s) xs"
    and "r = min (unat n) (unat (isize (itable s ip)) - unat off)" and "\<forall>i < r. waddr (umem s) (utable s) (x + of_nat i) \<noteq> None"
  shows "okR (readi ip (User x) off n s) (\<lambda>(y, s'). y = int r \<and> (\<forall>i < r. ubyte (umem s') (utable s) (x + of_nat i) = fdata s ip (unat off + i)) \<and>
    (\<forall>a. (\<forall>i < r. waddr (umem s) (utable s) (x + of_nat i) \<noteq> Some a) \<longrightarrow> umem s' a = umem s a) \<and>
    itable s' = itable s \<and> fview s' = fview s)"
proof -
  have r: "r = read_len (unat (isize (itable s ip))) off n" using assms(6) by (simp add: read_len_def)
  show ?thesis
  proof (rule okR_mono [OF readi_user [OF assms(1-5) r assms(7)]], clarify)
    fix y s'
    assume g: "user_got s xs x (\<lambda>i. fdata s ip (unat off + i)) r s'" and rs: "reads s s'"
    have v: "vpte (umem s') (utable s) v = vpte (umem s) (utable s) v" for v using g by (simp add: user_got_def)
    have "ubyte (umem s') (utable s) w = umem s' (the (waddr (umem s) (utable s) w))" if "waddr (umem s) (utable s) w \<noteq> None" for w
      using that v waddr_uaddr [of "umem s" "utable s" w] by (auto simp: ubyte_def uaddr_def)
    then show "int r = int r \<and> (\<forall>i < r. ubyte (umem s') (utable s) (x + of_nat i) = fdata s ip (unat off + i)) \<and>
      (\<forall>a. (\<forall>i < r. waddr (umem s) (utable s) (x + of_nat i) \<noteq> Some a) \<longrightarrow> umem s' a = umem s a) \<and> itable s' = itable s \<and> fview s' = fview s"
      using g assms(7) reads_fields [OF rs] by (simp add: user_got_def)
  qed
qed

lemma fs1_user: "km (pt fs1) = kmem_user" "utable fs1 = 0x80005000" "umem fs1 = mem kmem_user" "isize (itable fs1 0) = 100"
  by (simp_all add: fs1_def inode1_def)

theorem readi_correct_witness:
  "okR (readi 0 (User (of_nat 16)) 90 20 fs1) (\<lambda>(y, s'). y = 10 \<and> (\<forall>i < 10. ubyte (umem s') 0x80005000 (of_nat 16 + of_nat i) = 7))"
proof -
  have w: "waddr (umem fs1) (utable fs1) (of_nat 16 + of_nat i) \<noteq> None" if "i < 10" for i
    using that first_page [of "16 + i"] by (simp add: fs1_user kmem_user_addr)
  have k: "pt_inv (km (pt fs1)) (utable fs1) []" "user_ok (km (pt fs1)) (utable fs1) []"
    by (simp_all only: fs1_user kmem_user_inv kmem_user_ok)
  have r: "(10 :: nat) = min (unat (20 :: u32)) (unat (isize (itable fs1 0)) - unat (90 :: u32))" by (simp add: fs1_user)
  show ?thesis
    by (rule okR_mono [OF readi_correct [OF fs1_iok fs1_dense _ k r, of "of_nat 16"]])
      (use w fs1_fdata in \<open>auto simp: fs1_user\<close>)
qed

lemma slice_splice_prefix:
  assumes "i + length new \<le> length bs" and "t \<le> length new"
  shows "slice i t (splice i new bs) = take t new"
  using assms by (simp add: slice_def splice_def)

text \<open>
  C7: A read after a write gives the bytes back: \<^verbatim>\<open>readi\<close> from the offset of a \<^verbatim>\<open>writei\<close> that wrote \<open>r\<close> bytes reads at
  least \<open>r\<close> bytes, the first \<open>r\<close> of which are the first \<open>r\<close> bytes of the source.
\<close>

theorem writei_readi:
  assumes "iok ip s" and "dense ip s" and "readable src bs s" and "unat n = length bs" and "off \<le> isize (itable s ip)"
    and "unat off + length bs \<le> MAXFILE * BSIZE" and "room (nblk (unat off) (unat off + length bs) + 3) s"
    and "i + length bs \<le> length (local s)"
  shows "okR (writei ip src off n s) (\<lambda>(r, s'). 0 \<le> r \<and> r \<le> int (length bs) \<and>
    okR (readi ip (Local i) off n s') (\<lambda>(x, s''). r \<le> x \<and> slice i (nat r) (local s'') = take (nat r) bs))"
proof (rule okR_mono [OF writei_ok [OF assms(1-7)]], clarify)
  fix t s'
  assume t: "t \<le> length bs" and W: "wrote_file ip (unat off) (take t bs) s s'"
  let ?r = "read_len (unat (isize (itable s' ip))) off n"
  have z: "unat (isize (itable s' ip)) = max (unat (isize (itable s ip))) (unat off + t)" "local s' = local s"
    using W t by (simp_all add: wrote_file_def min_def)
  then have r: "t \<le> ?r" "?r \<le> length bs" using t assms(4) by (auto simp: read_len_def)
  have "fdata s' ip (unat off + k) = bs ! k" if "k < t" for k
    using W that t assms(6) by (simp add: wrote_file_def)
  then have D: "take t (map (fdata s' ip) [unat off..<unat off + ?r]) = take t bs"
    using r t by (intro nth_equalityI) auto
  have "slice i t (splice i (map (fdata s' ip) [unat off..<unat off + ?r]) (local s)) = take t bs"
    using r t assms(8) by (simp add: slice_splice_prefix D)
  moreover have "okR (readi ip (Local i) off n s') (\<lambda>(x, s''). x = int ?r \<and>
      local s'' = splice i (map (fdata s' ip) [unat off..<unat off + ?r]) (local s') \<and> pt s'' = pt s' \<and> reads s' s'' \<and> fok Map.empty s'')"
    by (rule readi_local [OF _ _ _ _ refl]) (use W assms(4,6,8) z in \<open>auto simp: wrote_file_def\<close>)
  ultimately show "0 \<le> int t \<and> int t \<le> int (length bs) \<and>
      okR (readi ip (Local i) off n s') (\<lambda>(x, s''). int t \<le> x \<and> slice i (nat (int t)) (local s'') = take (nat (int t)) bs)"
    using t r z(2) by (auto simp: okR_Ex)
qed

theorem writei_readi_witness: "okR (writei 0 (Local 0) 100 3 fs1) (\<lambda>(r, s'). 0 \<le> r \<and> r \<le> 3 \<and>
    okR (readi 0 (Local 1) 100 3 s') (\<lambda>(x, s''). r \<le> x \<and> slice 1 (nat r) (local s'') = take (nat r) [1, 2, 3]))"
proof -
  have l: "1 + length [1, 2, 3 :: u8] \<le> length (local fs1)" by (simp add: fs1_def)
  show ?thesis
    by (rule okR_mono [OF writei_readi [OF fs1_iok fs1_dense fs1_readable, of 3 100 1]]) (use fs1_write fs1_room l in auto)
qed



end
