(* ===== verification/Xv6_Ring.thy ===== *)
theory Xv6_Ring
  imports Xv6_File Xv6_Content
begin

text \<open>
  Queues in circular buffers: the transmit buffer of \<^verbatim>\<open>kernel/uart.c\<close>, the data of a pipe of \<^verbatim>\<open>kernel/pipe.c\<close> and the line
  buffer of \<^verbatim>\<open>kernel/console.c\<close> all keep a buffer whose length divides the range of two counters that wrap around.
  \<open>ring_list\<close> is the list of the elements between the counters.  The locale \<open>fifo\<close> is what such a queue promises; it is
  interpreted on pipes and on the transmit buffer.  The theorems say what \<^verbatim>\<open>pipewrite\<close>, \<^verbatim>\<open>piperead\<close>, the
  serial port and the line editing of the console do with their queues.
\<close>

lemma okR_pairE: "okR m (\<lambda>(a, b). P a b) \<Longrightarrow> (\<And>a b. m = Ok (a, b) \<Longrightarrow> P a b \<Longrightarrow> thesis) \<Longrightarrow> thesis"
  by (cases m) auto

section \<open>The list between two counters\<close>

definition ring_list :: "nat \<Rightarrow> (nat \<Rightarrow> 'a) \<Rightarrow> 'b::len word \<Rightarrow> 'b word \<Rightarrow> 'a list" where
  "ring_list n buf r w = map (\<lambda>i. buf (unat (r + of_nat i) mod n)) [0..<unat (w - r)]"

lemma length_ring [simp]: "length (ring_list n buf r w) = unat (w - r)"
  by (simp add: ring_list_def)

lemma ring_list_empty [simp]: "ring_list n buf r r = []"
  by (simp add: ring_list_def)

lemma ring_nil_iff: "ring_list n buf r w = [] \<longleftrightarrow> w = r"
  by (auto simp: ring_list_def unat_eq_0)

lemma unat_diff_Suc:
  assumes "(w :: 'b::len word) \<noteq> r"
  shows "unat (w - r) = Suc (unat (w - (r + 1)))" and "unat (w - r) = Suc (unat (w - 1 - r))"
proof -
  have "w - r \<noteq> 0" using assms by simp
  then have "unat (w - r) = Suc (unat (w - r - 1))" by (simp add: unat_minus_one unat_gt_0)
  then show "unat (w - r) = Suc (unat (w - (r + 1)))" "unat (w - r) = Suc (unat (w - 1 - r))" by (simp_all add: algebra_simps)
qed

lemma ring_get: "w \<noteq> r \<Longrightarrow> ring_list n buf r w = buf (unat r mod n) # ring_list n buf (r + 1) w"
  by (simp add: ring_list_def unat_diff_Suc(1) upt_conv_Cons map_Suc_upt [symmetric] o_def add.assoc del: upt_Suc)

lemma ring_unput: "w \<noteq> r \<Longrightarrow> ring_list n buf r (w - 1) = butlast (ring_list n buf r w)"
  by (simp add: ring_list_def unat_diff_Suc(2))

lemma unat_plus_mod:
  assumes "n dvd 2 ^ LENGTH('b)"
  shows "unat (r + of_nat i :: 'b::len word) mod n = (unat r + i) mod n"
  by (simp add: unat_word_ariths unat_of_nat mod_add_right_eq mod_mod_cancel [OF assms])

lemma ring_slots:
  assumes "n dvd 2 ^ LENGTH('b)" and "unat (w - r :: 'b::len word) < n" and "i < unat (w - r)"
  shows "unat (r + of_nat i) mod n \<noteq> unat w mod n"
proof -
  define d where "d = unat (w - r)"
  have "w = r + of_nat d" by (simp add: d_def)
  then have "unat w mod n = (unat r + d) mod n" using unat_plus_mod [OF assms(1)] by metis
  moreover have "(unat r + i) mod n \<noteq> (unat r + d) mod n"
  proof
    assume "(unat r + i) mod n = (unat r + d) mod n"
    then have "n dvd (unat r + d) - (unat r + i)" by (metis mod_eq_dvd_iff_nat add_le_cancel_left assms(3) d_def less_imp_le)
    then have "n dvd d - i" by simp
    then show False using assms(2,3) unfolding d_def [symmetric] by (simp add: nat_dvd_not_less)
  qed
  ultimately show ?thesis using unat_plus_mod [OF assms(1)] by metis
qed

lemma unat_diff_inc:
  assumes "Suc (unat (w - r)) < 2 ^ LENGTH('b)"
  shows "unat (w + 1 - r :: 'b::len word) = Suc (unat (w - r))"
proof -
  have "unat ((w - r) + 1) = Suc (unat (w - r))" using assms by (simp add: unat_word_ariths del: diff_add_eq)
  then show ?thesis by (simp add: algebra_simps)
qed

lemma ring_put:
  assumes "n dvd 2 ^ LENGTH('b)" and "n < 2 ^ LENGTH('b)" and "unat (w - r :: 'b::len word) < n"
  shows "ring_list n (buf(unat w mod n := c)) r (w + 1) = ring_list n buf r w @ [c]"
proof -
  have "unat (w + 1 - r) = Suc (unat (w - r))" by (rule unat_diff_inc) (use assms(2,3) in simp)
  moreover have "map (\<lambda>i. (buf(unat w mod n := c)) (unat (r + of_nat i) mod n)) [0..<unat (w - r)] = ring_list n buf r w"
    unfolding ring_list_def by (rule map_cong) (use ring_slots [OF assms(1,3)] in auto)
  ultimately show ?thesis by (simp add: ring_list_def)
qed

lemma ring_list_append:
  assumes "unat (w - r) \<le> unat (e - r)"
  shows "ring_list n buf r e = ring_list n buf r w @ ring_list n buf (w :: 'b::len word) e"
proof -
  define a b where "a = unat (w - r)" and "b = unat (e - w)"
  have "w - r \<le> e - r" using assms by (simp add: word_le_nat_alt)
  then have "unat ((e - r) - (w - r)) = unat (e - r) - unat (w - r)" by (rule unat_sub)
  then have e: "unat (e - r) = a + b" using assms by (simp add: a_def b_def)
  have w: "r + of_nat a = w" by (simp add: a_def)
  have "map (\<lambda>i. buf (unat (r + of_nat i) mod n)) [a..<a + b] = map (\<lambda>i. buf (unat (w + of_nat i) mod n)) [0..<b]"
    by (rule nth_equalityI) (auto simp: w [symmetric] add.assoc)
  moreover have "[0..<a + b] = [0..<a] @ [a..<a + b]" by (rule upt_add_eq_append) simp
  ultimately show ?thesis unfolding ring_list_def e by (simp add: a_def [symmetric] b_def [symmetric])
qed

lemma ring_list_cong: "(\<And>i. i < unat (w - r) \<Longrightarrow> buf (unat (r + of_nat i) mod n) = buf' (unat (r + of_nat i) mod n)) \<Longrightarrow> ring_list n buf r w = ring_list n buf' r w"
  by (simp add: ring_list_def)

section \<open>What a bounded queue promises\<close>

locale fifo =
  fixes queue :: "'s \<Rightarrow> 'a list" and put :: "'a \<Rightarrow> 's \<Rightarrow> 's" and get :: "'s \<Rightarrow> 'a \<times> 's"
    and full :: "'s \<Rightarrow> bool" and empty :: "'s \<Rightarrow> bool" and inv :: "'s \<Rightarrow> bool" and cap :: nat
  assumes bounded: "inv s \<Longrightarrow> length (queue s) \<le> cap"
    and full_iff: "inv s \<Longrightarrow> full s \<longleftrightarrow> length (queue s) = cap"
    and empty_iff: "inv s \<Longrightarrow> empty s \<longleftrightarrow> queue s = []"
    and put_back: "inv s \<Longrightarrow> \<not> full s \<Longrightarrow> inv (put c s) \<and> queue (put c s) = queue s @ [c]"
    and get_front: "inv s \<Longrightarrow> \<not> empty s \<Longrightarrow> inv (snd (get s)) \<and> queue s = fst (get s) # queue (snd (get s))"
begin

lemma put_all: "inv s \<Longrightarrow> length (queue s) + length cs \<le> cap \<Longrightarrow> inv (fold put cs s) \<and> queue (fold put cs s) = queue s @ cs"
proof (induction cs arbitrary: s)
  case (Cons c cs)
  then have "\<not> full s" using full_iff by simp
  then show ?case using Cons put_back [of s c] by simp
qed simp

lemma get_put: "inv s \<Longrightarrow> \<not> full s \<Longrightarrow> \<not> empty s \<Longrightarrow> fst (get (put c s)) = fst (get s)"
  using put_back [of s c] get_front [of s] get_front [of "put c s"] empty_iff [of "put c s"] by auto

end

section \<open>Pipes\<close>

definition pqueue :: "pipe \<Rightarrow> u8 list" where
  "pqueue p = ring_list PIPESIZE (pdata p) (nread p) (nwrite p)"

definition pipe_inv :: "pipe \<Rightarrow> bool" where
  "pipe_inv p \<longleftrightarrow> unat (nwrite p - nread p) \<le> PIPESIZE"

interpretation pq: fifo pqueue pipe_put pipe_get pipe_full pipe_empty pipe_inv PIPESIZE
proof
  fix p :: pipe and c :: u8
  assume i: "pipe_inv p"
  show "length (pqueue p) \<le> PIPESIZE" using i by (simp add: pqueue_def pipe_inv_def)
  have "nwrite p = nread p + 512 \<longleftrightarrow> nwrite p - nread p = 512" by (auto simp: algebra_simps)
  then show f: "pipe_full p \<longleftrightarrow> length (pqueue p) = PIPESIZE" by (simp add: pipe_full_def pqueue_def word_unat_eq_iff)
  show "pipe_empty p \<longleftrightarrow> pqueue p = []" by (auto simp: pipe_empty_def pqueue_def ring_nil_iff)
  show "pipe_inv (pipe_put c p) \<and> pqueue (pipe_put c p) = pqueue p @ [c]" if "\<not> pipe_full p"
  proof -
    have l: "unat (nwrite p - nread p) < PIPESIZE" using i f that by (simp add: pipe_inv_def pqueue_def)
    have "(PIPESIZE :: nat) dvd 2 ^ LENGTH(32)" by simp
    from ring_put [OF this _ l] unat_diff_inc [of "nwrite p" "nread p"] l show ?thesis
      by (simp add: pipe_inv_def pqueue_def pipe_put_def)
  qed
  show "pipe_inv (snd (pipe_get p)) \<and> pqueue p = fst (pipe_get p) # pqueue (snd (pipe_get p))" if "\<not> pipe_empty p"
  proof -
    have "nwrite p \<noteq> nread p" using that by (auto simp: pipe_empty_def)
    from ring_get [OF this] unat_diff_Suc(1) [OF this] i show ?thesis
      by (simp add: pipe_inv_def pqueue_def pipe_get_def)
  qed
qed

text \<open>The bytes of the range of a \<^verbatim>\<open>pipewrite\<close>.\<close>

definition ubytes :: "kern \<Rightarrow> u64 \<Rightarrow> nat \<Rightarrow> nat \<Rightarrow> u8 list" where
  "ubytes k addr i n = map (\<lambda>j. ubyte (mem (mem_of k)) (pagetable (myproc k)) (addr + of_nat j)) [i..<i + n]"

lemma updpipe_fields [simp]:
  "myproc (updpipe a g k) = myproc k" "mem_of (updpipe a g k) = mem_of k" "fs (updpipe a g k) = fs k"
  "pipes (updpipe a g k) = (pipes k)(a := g (pipes k a))"
  by (simp_all add: updpipe_def myproc_def mem_of_def)

lemma updpipe_updpipe: "updpipe a g (updpipe a h k) = updpipe a (g \<circ> h) k"
  by (simp add: updpipe_def)

lemma updpipe_id: "updpipe a id k = k"
  by (simp add: updpipe_def)

lemma k_wakeup_fields [simp]: "pipes (k_wakeup ch k) = pipes k" "me (fs (k_wakeup ch k)) = me (fs k)"
  by (simp_all add: k_wakeup_def on_procs_def)

lemma copyin_byte:
  assumes "pt_inv (mem_of k) (pagetable (myproc k)) xs" and "uaddr (mem (mem_of k)) (pagetable (myproc k)) va \<noteq> None"
  shows "k_copyin va 1 k = Ok (0, [ubyte (mem (mem_of k)) (pagetable (myproc k)) va])"
  using copyin_spec [OF assms(1), of va 1] assms(2) by (auto simp: k_copyin_def okR_Ex ubyte_def)

lemma pipewrite_run_spec:
  assumes "pt_inv (mem_of k) (pagetable (myproc k)) xs"
    and "\<forall>j < n. uaddr (mem (mem_of k)) (pagetable (myproc k)) (addr + of_nat (i + j)) \<noteq> None"
    and "pipe_inv (pipes k pi)" and "readopen (pipes k pi)" and "\<not> killed_flag (myproc k)"
    and "m = min n (PIPESIZE - length (pqueue (pipes k pi)))"
  shows "pipewrite_run pi addr i n k = Ok (if m = n then Inl (int (i + n)) else Inr (i + m),
    k_wakeup (Chan_pipe_nread (unat pi)) (updpipe pi (fold pipe_put (ubytes k addr i m)) k))"
  using assms
proof (induction n arbitrary: i k m)
  case 0
  then show ?case by (simp add: ubytes_def updpipe_id [unfolded id_def] id_def)
next
  case (Suc n)
  note l = pq.bounded [OF Suc.prems(3)] and f = pq.full_iff [OF Suc.prems(3)]
  show ?case
  proof (cases "pipe_full (pipes k pi)")
    case True
    then have "m = 0" using Suc.prems(6) f by simp
    then show ?thesis using True Suc.prems(4,5) by (simp add: ubytes_def updpipe_id [unfolded id_def] id_def)
  next
    case False
    let ?c = "ubyte (mem (mem_of k)) (pagetable (myproc k)) (addr + of_nat i)"
    let ?k = "updpipe pi (pipe_put ?c) k"
    have "uaddr (mem (mem_of k)) (pagetable (myproc k)) (addr + of_nat i) \<noteq> None" using Suc.prems(2) by force
    from copyin_byte [OF Suc.prems(1) this]
    have e: "pipewrite_run pi addr i (Suc n) k = pipewrite_run pi addr (Suc i) n ?k"
      using False Suc.prems(4,5) by simp
    note p = pq.put_back [OF Suc.prems(3) False, of ?c]
    have m: "m = Suc (min n (PIPESIZE - length (pqueue (pipes ?k pi))))" "m - 1 = min n (PIPESIZE - length (pqueue (pipes ?k pi)))"
      using Suc.prems(6) p False f l by auto
    have r: "readopen (pipes ?k pi)" using Suc.prems(4) by (simp add: pipe_put_def)
    have u: "\<forall>j < n. uaddr (mem (mem_of ?k)) (pagetable (myproc ?k)) (addr + of_nat (Suc i + j)) \<noteq> None"
    proof (intro allI impI)
      fix j
      assume "j < n"
      then have "Suc j < Suc n" by simp
      then have "uaddr (mem (mem_of k)) (pagetable (myproc k)) (addr + of_nat (i + Suc j)) \<noteq> None" using Suc.prems(2) by blast
      then show "uaddr (mem (mem_of ?k)) (pagetable (myproc ?k)) (addr + of_nat (Suc i + j)) \<noteq> None" by simp
    qed
    have b: "ubytes k addr i m = ?c # ubytes ?k addr (Suc i) (m - 1)"
      using m(1) by (simp add: ubytes_def upt_conv_Cons del: upt_Suc)
    have "pipewrite_run pi addr (Suc i) n ?k = Ok (if m - 1 = n then Inl (int (Suc i + n)) else Inr (Suc i + (m - 1)),
        k_wakeup (Chan_pipe_nread (unat pi)) (updpipe pi (fold pipe_put (ubytes ?k addr (Suc i) (m - 1))) ?k))"
      by (rule Suc.IH) (use Suc.prems(1,5) p r u m(2) in auto)
    then show ?thesis unfolding e b updpipe_updpipe using m(1) by (simp add: o_def)
  qed
qed

lemma k_copyout_copy_to: "k_copyout va bs k = bindR (copy_to (User va) bs (fs k)) (\<lambda>(r, s). Ok (r, set_fs k s))"
  by (cases "copyout (mem_of k) (pagetable (myproc k)) va bs")
    (auto simp: k_copyout_def copy_to_def either_copyout_def mem_of_def myproc_def set_km_def set_fs_def)

lemma pipes_same: "k = k\<lparr>fs := (fs k)\<lparr>pt := pt (fs k)\<rparr>, pipes := (pipes k)(pi := pipes k pi)\<rparr>"
  by (simp only: fun_upd_triv) simp

lemma piperead_copy_spec:
  assumes "user_ok (km (pt s0)) (utable s0) xs" and "user_got s0 xs addr (\<lambda>j. q ! j) i (fs k)"
    and "pipe_inv (pipes k pi)" and "pqueue (pipes k pi) = drop i q" and "m = min n (length q - i)" and "i + m < 2 ^ 64"
    and "\<forall>j < i + m. waddr (umem s0) (utable s0) (addr + of_nat j) \<noteq> None"
  shows "\<exists>k'. piperead_copy pi addr i n k = Ok (int (i + m), k') \<and> user_got s0 xs addr (\<lambda>j. q ! j) (i + m) (fs k') \<and>
    pipe_inv (pipes k' pi) \<and> pqueue (pipes k' pi) = drop (i + m) q \<and>
    k' = k\<lparr>fs := (fs k)\<lparr>pt := pt (fs k')\<rparr>, pipes := (pipes k)(pi := pipes k' pi)\<rparr>"
  using assms
proof (induction n arbitrary: i k m)
  case 0
  then show ?case by (intro exI [of _ k] conjI pipes_same) simp_all
next
  case (Suc n)
  note em = pq.empty_iff [OF Suc.prems(3)]
  show ?case
  proof (cases "pipe_empty (pipes k pi)")
    case True
    then have "m = 0" using Suc.prems(4,5) em by simp
    then show ?thesis using True Suc.prems(2-4) by (intro exI [of _ k] conjI pipes_same) simp_all
  next
    case False
    then have i: "i < length q" using Suc.prems(4) em by simp
    have m: "m = Suc (min n (length q - Suc i))" using i Suc.prems(5) by simp
    obtain c p where cp: "pipe_get (pipes k pi) = (c, p)" by (cases "pipe_get (pipes k pi)")
    then have g: "pipe_inv p" "c # pqueue p = drop i q" using pq.get_front [OF Suc.prems(3) False] Suc.prems(4) by simp_all
    then have gq: "pipe_get (pipes k pi) = (q ! i, p)" "pqueue p = drop (Suc i) q"
      using i cp by (simp_all add: Cons_nth_drop_Suc [symmetric])
    have "okR (copy_to (adv (User addr) i) (map (\<lambda>j. q ! j) [i..<i + 1]) (fs k))
        (\<lambda>(r, s''). r \<noteq> -1 \<and> user_got s0 xs addr (\<lambda>j. q ! j) (i + 1) s'' \<and> s'' = (fs k)\<lparr>pt := pt s'', local := local s''\<rparr>)"
      by (rule user_got_step [OF Suc.prems(2) _ _ Suc.prems(7,1)]) (use Suc.prems(6) m in auto)
    then have "okR (copy_to (User (addr + of_nat i)) [q ! i] (fs k))
        (\<lambda>(r, s''). r \<noteq> -1 \<and> user_got s0 xs addr (\<lambda>j. q ! j) (Suc i) s'' \<and> s'' = (fs k)\<lparr>pt := pt s'', local := local s''\<rparr>)"
      by (simp add: adv_def cong: conj_cong)
    then obtain r s1 where s1: "copy_to (User (addr + of_nat i)) [q ! i] (fs k) = Ok (r, s1)" "r \<noteq> -1"
      "user_got s0 xs addr (\<lambda>j. q ! j) (Suc i) s1" "s1 = (fs k)\<lparr>pt := pt s1, local := local s1\<rparr>"
      by (elim okR_pairE conjE) (rule that)
    let ?k = "set_fs (updpipe pi (\<lambda>_. p) k) s1"
    have c: "piperead_copy pi addr i (Suc n) k = piperead_copy pi addr (Suc i) n ?k"
      using False s1(1,2) by (simp add: gq(1) k_copyout_copy_to)
    have K: "fs ?k = s1" "pipes ?k = (pipes k)(pi := p)" by (simp_all add: set_fs_def)
    have l: "local s1 = local (fs k)" using s1(3) Suc.prems(2) by (simp add: user_got_def)
    have s1': "s1 = (fs k)\<lparr>pt := pt s1\<rparr>" by (rule trans [OF s1(4) [unfolded l]]) simp
    have e: "Suc i + (m - 1) = i + m" using m by simp
    have "\<exists>k'. piperead_copy pi addr (Suc i) n ?k = Ok (int (Suc i + (m - 1)), k') \<and> user_got s0 xs addr (\<lambda>j. q ! j) (Suc i + (m - 1)) (fs k') \<and>
        pipe_inv (pipes k' pi) \<and> pqueue (pipes k' pi) = drop (Suc i + (m - 1)) q \<and>
        k' = ?k\<lparr>fs := (fs ?k)\<lparr>pt := pt (fs k')\<rparr>, pipes := (pipes ?k)(pi := pipes k' pi)\<rparr>"
      by (rule Suc.IH [OF Suc.prems(1)]) (use K s1(3) g gq(2) m Suc.prems(6,7) in auto)
    then obtain k' where k': "piperead_copy pi addr i (Suc n) k = Ok (int (i + m), k')" "user_got s0 xs addr (\<lambda>j. q ! j) (i + m) (fs k')"
        "pipe_inv (pipes k' pi)" "pqueue (pipes k' pi) = drop (i + m) q"
        "k' = ?k\<lparr>fs := (fs ?k)\<lparr>pt := pt (fs k')\<rparr>, pipes := (pipes ?k)(pi := pipes k' pi)\<rparr>"
      unfolding c [symmetric] e by blast
    have "(fs ?k)\<lparr>pt := X\<rparr> = (fs k)\<lparr>pt := X\<rparr>" for X unfolding K by (subst s1') simp
    then have "?k\<lparr>fs := (fs ?k)\<lparr>pt := X\<rparr>, pipes := (pipes ?k)(pi := Y)\<rparr> = k\<lparr>fs := (fs k)\<lparr>pt := X\<rparr>, pipes := (pipes k)(pi := Y)\<rparr>" for X Y
      by (simp add: set_fs_def updpipe_def)
    with k'(5) have "k' = k\<lparr>fs := (fs k)\<lparr>pt := pt (fs k')\<rparr>, pipes := (pipes k)(pi := pipes k' pi)\<rparr>" by (rule trans)
    then show ?thesis using k'(1-4) by blast
  qed
qed

text \<open>The ways \<^verbatim>\<open>piperead\<close> stops: it waits for a writer, or takes what is there.\<close>

lemma piperead_run_spec:
  assumes "pt_inv (mem_of k) (pagetable (myproc k)) xs" and "user_ok (mem_of k) (pagetable (myproc k)) xs"
    and "pipe_inv (pipes k pi)" and "m = min n (length (pqueue (pipes k pi)))"
    and "\<forall>j < m. waddr (mem (mem_of k)) (pagetable (myproc k)) (addr + of_nat j) \<noteq> None"
    and "\<not> (pqueue (pipes k pi) = [] \<and> writeopen (pipes k pi))"
  shows "\<exists>k'. piperead_run pi addr n k = Ok (Inl (int m), k_wakeup (Chan_pipe_nwrite (unat pi)) k') \<and>
    user_got (fs k) xs addr (\<lambda>j. pqueue (pipes k pi) ! j) m (fs k') \<and> pipe_inv (pipes k' pi) \<and>
    pqueue (pipes k' pi) = drop m (pqueue (pipes k pi)) \<and>
    k' = k\<lparr>fs := (fs k)\<lparr>pt := pt (fs k')\<rparr>, pipes := (pipes k)(pi := pipes k' pi)\<rparr>"
proof -
  have "m \<le> PIPESIZE" using assms(4) pq.bounded [OF assms(3)] by simp
  then have "0 + m < 2 ^ 64" by simp
  moreover have "user_got (fs k) xs addr (\<lambda>j. pqueue (pipes k pi) ! j) 0 (fs k)"
    by (rule user_got_0) (use assms(1,2) in \<open>simp_all add: mem_of_def myproc_def\<close>)
  ultimately have "\<exists>k'. piperead_copy pi addr 0 n k = Ok (int (0 + m), k') \<and> user_got (fs k) xs addr (\<lambda>j. pqueue (pipes k pi) ! j) (0 + m) (fs k') \<and>
    pipe_inv (pipes k' pi) \<and> pqueue (pipes k' pi) = drop (0 + m) (pqueue (pipes k pi)) \<and>
    k' = k\<lparr>fs := (fs k)\<lparr>pt := pt (fs k')\<rparr>, pipes := (pipes k)(pi := pipes k' pi)\<rparr>"
    by (intro piperead_copy_spec) (use assms in \<open>simp_all add: mem_of_def myproc_def\<close>)
  moreover have "\<not> (pipe_empty (pipes k pi) \<and> writeopen (pipes k pi))" using assms(6) pq.empty_iff [OF assms(3)] by simp
  ultimately show ?thesis by (auto simp: piperead_run_def)
qed

lemma k_wakeup_mem [simp]: "mem_of (k_wakeup ch k) = mem_of k"
  by (simp add: k_wakeup_def on_procs_def mem_of_def)

lemma k_wakeup_none:
  assumes "j \<noteq> me (fs k)" and "j < length (procs (pt (fs k)))"
  shows "\<not> (state (procs (pt (fs (k_wakeup ch k))) ! j) = SLEEPING \<and> chan (procs (pt (fs (k_wakeup ch k))) ! j) = Some ch)"
  using assms by (auto simp: k_wakeup_def on_procs_def wakeup_def nth_enumerate_eq)

definition asleep :: "chan \<Rightarrow> kern \<Rightarrow> bool" where
  "asleep ch k \<longleftrightarrow> (\<exists>j < length (procs (pt (fs k))). j \<noteq> me (fs k) \<and> state (procs (pt (fs k)) ! j) = SLEEPING \<and> chan (procs (pt (fs k)) ! j) = Some ch)"

lemma not_asleep: "\<not> asleep ch (k_wakeup ch k)"
  using k_wakeup_none [of _ k ch] by (auto simp: asleep_def) (auto simp: k_wakeup_def on_procs_def length_wakeup)

subsection \<open>Properties\<close>

text \<open>A kernel whose pipes hold two bytes, with counters that are about to wrap around.\<close>

definition uart1 :: uart where
  "uart1 = \<lparr>tx_buf = (\<lambda>_. 0), tx_w = 0, tx_r = 0, idle = (\<lambda>k. k mod 2 = 1), polls = 0, sent = [], rx = [], ureg = (\<lambda>_. 0), panicked = False, uwoken = []\<rparr>"

definition console1 :: console where
  "console1 = \<lparr>ua = uart1, cbuf = (\<lambda>_. 7), cr = - 1, cw = 0, ce = 2, cwoken = []\<rparr>"

definition kern1 :: kern where
  "kern1 = \<lparr>fs = fs1, con = console1, ftable = (\<lambda>_. \<lparr>ftyp = FD_NONE, fref = 0, readable = False, writable = False, fpipe = 0, fip = None, foff = 0, fmajor = 0\<rparr>),
     pipes = (\<lambda>_. \<lparr>pdata = of_nat, nread = - 1, nwrite = 1, readopen = True, writeopen = True\<rparr>), devsw = (\<lambda>_. None), ticks = 0\<rparr>"

lemma kern1_user: "mem_of kern1 = kmem_user" "pagetable (myproc kern1) = 0x80005000" "\<not> killed_flag (myproc kern1)"
  by (simp_all add: kern1_def fs1_def mem_of_def myproc_def proc0_def)

lemma kern1_pipe: "pipe_inv (pipes kern1 a)" "readopen (pipes kern1 a)" "pqueue (pipes kern1 a) = [255, 0]"
  by (simp_all add: kern1_def pipe_inv_def pqueue_def ring_get unsigned_minus_1_eq_mask mask_eq_exp_minus_1)

lemma kern1_addr: "j < 100 \<Longrightarrow> uaddr (mem (mem_of kern1)) (pagetable (myproc kern1)) (of_nat 16 + of_nat j) \<noteq> None"
  "j < 100 \<Longrightarrow> waddr (mem (mem_of kern1)) (pagetable (myproc kern1)) (of_nat 16 + of_nat j) \<noteq> None"
  using first_page [of "16 + j"] by (simp_all add: kern1_user kmem_user_addr)

text \<open>
  C20: What \<^verbatim>\<open>pipewrite\<close> does under one hold of the lock, from byte \<open>i\<close> with \<open>n\<close> bytes left: if the read end is closed
  or the process is killed it fails and changes nothing; otherwise it appends to the queue the next bytes of the
  user range, as many as fit into the 512 bytes, returns if these are all and otherwise waits at the first that did not fit,
  and no reader is left asleep.
\<close>

theorem pipewrite_correct:
  assumes "pt_inv (mem_of k) (pagetable (myproc k)) xs"
    and "\<forall>j < n. uaddr (mem (mem_of k)) (pagetable (myproc k)) (addr + of_nat (i + j)) \<noteq> None"
    and "pipe_inv (pipes k pi)"
  shows "okR (pipewrite_run pi addr i n k) (\<lambda>(r, k').
    if 0 < n \<and> (\<not> readopen (pipes k pi) \<or> killed_flag (myproc k)) then r = Inl (- 1) \<and> k' = k
    else
      let q = pqueue (pipes k pi); m = min n (PIPESIZE - length q) in
      r = (if m = n then Inl (int (i + n)) else Inr (i + m)) \<and> pipe_inv (pipes k' pi) \<and>
      pqueue (pipes k' pi) = q @ ubytes k addr i m \<and> (\<forall>a. a \<noteq> pi \<longrightarrow> pipes k' a = pipes k a) \<and>
      mem_of k' = mem_of k \<and> \<not> asleep (Chan_pipe_nread (unat pi)) k')"
proof (cases "0 < n \<and> (\<not> readopen (pipes k pi) \<or> killed_flag (myproc k))")
  case True
  then show ?thesis by (cases n) auto
next
  case False
  let ?q = "pqueue (pipes k pi)" and ?m = "min n (PIPESIZE - length (pqueue (pipes k pi)))"
  have l: "length (ubytes k addr i ?m) = ?m" by (simp add: ubytes_def)
  have p: "pipe_inv (fold pipe_put (ubytes k addr i ?m) (pipes k pi)) \<and> pqueue (fold pipe_put (ubytes k addr i ?m) (pipes k pi)) = ?q @ ubytes k addr i ?m"
    by (rule pq.put_all [OF assms(3)]) (use l pq.bounded [OF assms(3)] in linarith)
  have "pipewrite_run pi addr i n k = Ok (if ?m = n then Inl (int (i + n)) else Inr (i + ?m),
      k_wakeup (Chan_pipe_nread (unat pi)) (updpipe pi (fold pipe_put (ubytes k addr i ?m)) k))"
  proof (cases n)
    case 0
    then show ?thesis by (simp add: ubytes_def updpipe_id [unfolded id_def] id_def)
  next
    case (Suc n')
    then show ?thesis using False by (intro pipewrite_run_spec [OF assms]) auto
  qed
  then show ?thesis unfolding if_not_P [OF False] using p not_asleep by (simp add: Let_def)
qed

theorem pipewrite_correct_witness:
  "okR (pipewrite_run 0x80003000 (of_nat 16) 0 3 kern1) (\<lambda>(r, k'). r = Inl 3 \<and> length (pqueue (pipes k' 0x80003000)) = 5)"
proof -
  have u: "\<forall>j < 3. uaddr (mem (mem_of kern1)) (pagetable (myproc kern1)) (of_nat 16 + of_nat (0 + j)) \<noteq> None" using kern1_addr(1) by simp
  have k: "pt_inv (mem_of kern1) (pagetable (myproc kern1)) []" by (simp only: kern1_user kmem_user_inv)
  show ?thesis
    by (rule okR_mono [OF pipewrite_correct [OF k u kern1_pipe(1), of "0x80003000"]])
      (auto simp: kern1_user kern1_pipe Let_def ubytes_def split: if_splits)
qed

text \<open>
  C21: What \<^verbatim>\<open>piperead\<close> does under one hold of the lock: it waits, or fails if the process is killed, exactly when the queue
  is empty and the write end is open; otherwise it moves the first bytes of the queue, at most \<open>n\<close>, to the
  user range in order, returns their number, and leaves no writer asleep.  No other byte of memory changes.
\<close>

theorem piperead_correct:
  assumes "pt_inv (mem_of k) (pagetable (myproc k)) xs" and "user_ok (mem_of k) (pagetable (myproc k)) xs"
    and "pipe_inv (pipes k pi)" and "m = min n (length (pqueue (pipes k pi)))"
    and "\<forall>j < m. waddr (mem (mem_of k)) (pagetable (myproc k)) (addr + of_nat j) \<noteq> None"
  shows "okR (piperead_run pi addr n k) (\<lambda>(r, k').
    if pqueue (pipes k pi) = [] \<and> writeopen (pipes k pi) then k' = k \<and> r = (if killed_flag (myproc k) then Inl (- 1) else Inr 0)
    else r = Inl (int m) \<and> pipe_inv (pipes k' pi) \<and> pqueue (pipes k' pi) = drop m (pqueue (pipes k pi)) \<and>
      (\<forall>j < m. ubyte (mem (mem_of k')) (pagetable (myproc k)) (addr + of_nat j) = pqueue (pipes k pi) ! j) \<and>
      (\<forall>a. (\<forall>j < m. waddr (mem (mem_of k)) (pagetable (myproc k)) (addr + of_nat j) \<noteq> Some a) \<longrightarrow> mem (mem_of k') a = mem (mem_of k) a) \<and>
      (\<forall>a. a \<noteq> pi \<longrightarrow> pipes k' a = pipes k a) \<and> \<not> asleep (Chan_pipe_nwrite (unat pi)) k')"
proof (cases "pqueue (pipes k pi) = [] \<and> writeopen (pipes k pi)")
  case True
  then show ?thesis using pq.empty_iff [OF assms(3)] by (auto simp: piperead_run_def)
next
  case False
  from piperead_run_spec [OF assms False] obtain k' where
    k': "piperead_run pi addr n k = Ok (Inl (int m), k_wakeup (Chan_pipe_nwrite (unat pi)) k')"
      "user_got (fs k) xs addr (\<lambda>j. pqueue (pipes k pi) ! j) m (fs k')" "pipe_inv (pipes k' pi)"
      "pqueue (pipes k' pi) = drop m (pqueue (pipes k pi))"
      "k' = k\<lparr>fs := (fs k)\<lparr>pt := pt (fs k')\<rparr>, pipes := (pipes k)(pi := pipes k' pi)\<rparr>" by blast
  have o: "pipes k' = (pipes k)(pi := pipes k' pi)" by (subst k'(5)) simp
  let ?T = "pagetable (myproc k)"
  have v: "vpte (mem (mem_of k')) ?T v = vpte (mem (mem_of k)) ?T v" for v using k'(2) by (simp add: user_got_def mem_of_def myproc_def)
  have "ubyte (mem (mem_of k')) ?T w = mem (mem_of k') (the (waddr (mem (mem_of k)) ?T w))" if "waddr (mem (mem_of k)) ?T w \<noteq> None" for w
    using that v waddr_uaddr [of "mem (mem_of k)" ?T w] by (auto simp: ubyte_def uaddr_def)
  then have "\<forall>j < m. ubyte (mem (mem_of k')) ?T (addr + of_nat j) = pqueue (pipes k pi) ! j"
    using k'(2) assms(5) by (simp add: user_got_def mem_of_def myproc_def)
  moreover have "\<forall>a. (\<forall>j < m. waddr (mem (mem_of k)) ?T (addr + of_nat j) \<noteq> Some a) \<longrightarrow> mem (mem_of k') a = mem (mem_of k) a"
    using k'(2) by (simp add: user_got_def mem_of_def myproc_def)
  moreover have "\<forall>a. a \<noteq> pi \<longrightarrow> pipes k' a = pipes k a" using o by (metis fun_upd_other)
  ultimately show ?thesis unfolding if_not_P [OF False] k'(1) using k'(3,4) not_asleep by simp
qed

theorem piperead_correct_witness:
  "okR (piperead_run 0x80003000 (of_nat 16) 5 kern1) (\<lambda>(r, k'). r = Inl 2 \<and> pqueue (pipes k' 0x80003000) = [] \<and>
     ubyte (mem (mem_of k')) 0x80005000 (of_nat 16 + of_nat 0) = 255)"
proof -
  have w: "\<forall>j < 2. waddr (mem (mem_of kern1)) (pagetable (myproc kern1)) (of_nat 16 + of_nat j) \<noteq> None" using kern1_addr(2) by simp
  have k: "pt_inv (mem_of kern1) (pagetable (myproc kern1)) []" "user_ok (mem_of kern1) (pagetable (myproc kern1)) []"
    by (simp_all only: kern1_user kmem_user_inv kmem_user_ok)
  have m: "2 = min 5 (length (pqueue (pipes kern1 0x80003000)))" by (simp add: kern1_pipe)
  show ?thesis
    by (rule okR_mono [OF piperead_correct [OF k kern1_pipe(1) m w]]) (auto simp: kern1_user kern1_pipe numeral_2_eq_2 all_less_two split: if_splits)
qed

section \<open>The serial port\<close>

definition tx_queue :: "uart \<Rightarrow> u8 list" where
  "tx_queue u = ring_list UART_TX_BUF_SIZE (tx_buf u) (tx_r u) (tx_w u)"

definition tx_put :: "u8 \<Rightarrow> uart \<Rightarrow> uart" where
  "tx_put c u = u\<lparr>tx_buf := (tx_buf u)(unat (tx_w u) mod UART_TX_BUF_SIZE := c), tx_w := tx_w u + 1\<rparr>"

definition tx_get :: "uart \<Rightarrow> u8 \<times> uart" where
  "tx_get u = (tx_buf u (unat (tx_r u) mod UART_TX_BUF_SIZE), u\<lparr>tx_r := tx_r u + 1\<rparr>)"

definition tx_inv :: "uart \<Rightarrow> bool" where
  "tx_inv u \<longleftrightarrow> unat (tx_w u - tx_r u) \<le> UART_TX_BUF_SIZE"

interpretation tq: fifo tx_queue tx_put tx_get "\<lambda>u. tx_w u = tx_r u + of_nat UART_TX_BUF_SIZE" "\<lambda>u. tx_w u = tx_r u" tx_inv UART_TX_BUF_SIZE
proof
  fix u :: uart and c :: u8
  assume i: "tx_inv u"
  show "length (tx_queue u) \<le> UART_TX_BUF_SIZE" using i by (simp add: tx_queue_def tx_inv_def)
  have "tx_w u = tx_r u + 32 \<longleftrightarrow> tx_w u - tx_r u = 32" by (auto simp: algebra_simps)
  then show f: "tx_w u = tx_r u + of_nat UART_TX_BUF_SIZE \<longleftrightarrow> length (tx_queue u) = UART_TX_BUF_SIZE" by (simp add: tx_queue_def word_unat_eq_iff)
  show "tx_w u = tx_r u \<longleftrightarrow> tx_queue u = []" by (auto simp: tx_queue_def ring_nil_iff)
  show "tx_inv (tx_put c u) \<and> tx_queue (tx_put c u) = tx_queue u @ [c]" if "\<not> tx_w u = tx_r u + of_nat UART_TX_BUF_SIZE"
  proof -
    have l: "unat (tx_w u - tx_r u) < UART_TX_BUF_SIZE" using i f that by (simp add: tx_inv_def tx_queue_def)
    have "(UART_TX_BUF_SIZE :: nat) dvd 2 ^ LENGTH(64)" by simp
    from ring_put [OF this _ l] unat_diff_inc [of "tx_w u" "tx_r u"] l show ?thesis by (simp add: tx_inv_def tx_queue_def tx_put_def)
  qed
  show "tx_inv (snd (tx_get u)) \<and> tx_queue u = fst (tx_get u) # tx_queue (snd (tx_get u))" if "\<not> tx_w u = tx_r u"
    using ring_get [OF that] unat_diff_Suc(1) [OF that] i by (simp add: tx_inv_def tx_queue_def tx_get_def)
qed

lemma tx_fields [simp]:
  "tx_queue (u\<lparr>polls := n\<rparr>) = tx_queue u" "tx_queue (u\<lparr>sent := x\<rparr>) = tx_queue u" "tx_queue (u\<lparr>uwoken := w\<rparr>) = tx_queue u"
  "tx_inv (u\<lparr>polls := n\<rparr>) = tx_inv u" "tx_inv (u\<lparr>sent := x\<rparr>) = tx_inv u" "tx_inv (u\<lparr>uwoken := w\<rparr>) = tx_inv u"
  by (simp_all add: tx_queue_def tx_inv_def)

lemma uartstart_spec:
  assumes "tx_inv u"
  shows "tx_inv (uartstart u) \<and> sent (uartstart u) @ tx_queue (uartstart u) = sent u @ tx_queue u \<and>
    (tx_queue (uartstart u) = [] \<or> \<not> idle u (polls (uartstart u) - 1))"
  using assms
proof (induction u rule: uartstart.induct)
  case (1 u)
  note e = tq.empty_iff [OF "1.prems"]
  consider (empty) "tx_w u = tx_r u" | (busy) "tx_w u \<noteq> tx_r u" "\<not> idle u (polls u)" | (send) "tx_w u \<noteq> tx_r u" "idle u (polls u)" by blast
  then show ?case
  proof cases
    case empty
    then show ?thesis using "1.prems" e by (simp add: uartstart.simps [of u])
  next
    case busy
    then show ?thesis using "1.prems" by (simp add: uartstart.simps [of u])
  next
    case send
    let ?c = "tx_buf u (unat (tx_r u) mod UART_TX_BUF_SIZE)"
    let ?u = "u\<lparr>tx_r := tx_r u + 1, polls := polls u + 1, sent := sent u @ [?c], uwoken := uwoken u @ [Chan_uart_tx]\<rparr>"
    have g: "tx_inv ?u" "tx_queue u = ?c # tx_queue ?u"
      using tq.get_front [OF "1.prems" send(1)] by (simp_all add: tx_get_def tx_queue_def tx_inv_def)
    have "uartstart u = uartstart ?u" using send by (simp add: uartstart.simps [of u])
    then show ?thesis using "1.IH" [OF send(1) _ refl g(1)] send(2) g(2) by simp
  qed
qed

text \<open>
  C23: The serial port sends bytes in the order in which \<^verbatim>\<open>uartputc\<close> accepted them and loses none: the bytes sent so far
  followed by those that wait are extended by the new byte at the end, by \<^verbatim>\<open>uartputc\<close>, and unchanged by \<^verbatim>\<open>uartstart\<close>, which goes on
  until the buffer is empty or the transmitter busy.  \<^verbatim>\<open>uartputc\<close> sleeps exactly when 32 bytes wait.
\<close>

theorem uart_fifo:
  assumes "tx_inv u" and "\<not> panicked u"
  shows "(if length (tx_queue u) = UART_TX_BUF_SIZE then uartputc c u = Sleeps ''uart''
    else okR (uartputc c u) (\<lambda>u'. tx_inv u' \<and> sent u' @ tx_queue u' = sent u @ tx_queue u @ [c])) \<and>
    tx_inv (uartstart u) \<and> sent (uartstart u) @ tx_queue (uartstart u) = sent u @ tx_queue u \<and>
    (tx_queue (uartstart u) = [] \<or> \<not> idle u (polls (uartstart u) - 1))"
proof (cases "length (tx_queue u) = UART_TX_BUF_SIZE")
  case True
  then show ?thesis using assms(2) tq.full_iff [OF assms(1)] uartstart_spec [OF assms(1)] by (simp add: uartputc_def)
next
  case False
  then have f: "\<not> tx_w u = tx_r u + of_nat UART_TX_BUF_SIZE" using tq.full_iff [OF assms(1)] by simp
  note p = tq.put_back [OF assms(1) f, of c]
  have "uartputc c u = Ok (uartstart (tx_put c u))" using assms(2) f by (simp add: uartputc_def tx_put_def)
  moreover have "sent (tx_put c u) = sent u" by (simp add: tx_put_def)
  ultimately show ?thesis using False p uartstart_spec [of "tx_put c u"] uartstart_spec [OF assms(1)] by simp
qed

theorem uart_fifo_witness: "okR (uartputc 65 uart1) (\<lambda>u'. sent u' @ tx_queue u' = [65])"
proof -
  have "tx_inv uart1" "\<not> panicked uart1" "tx_queue uart1 = []" "sent uart1 = []" by (simp_all add: uart1_def tx_inv_def tx_queue_def)
  then show ?thesis using uart_fifo [of uart1 65] by (auto simp: okR_Ex)
qed

section \<open>The console\<close>

text \<open>
  The line editing of the console on lists: \<open>cooked\<close> are the bytes that a reader may take, \<open>line\<close> is the line that
  is still edited.
\<close>

definition edit_char :: "int \<Rightarrow> u8 list \<times> u8 list \<Rightarrow> u8 list \<times> u8 list" where
  "edit_char c = (\<lambda>(cooked, line).
     if c = 16 then (cooked, line)
     else if c = 21 then (cooked, [])
     else if c = 8 \<or> c = 0x7f then (cooked, butlast line)
     else if c \<noteq> 0 \<and> length cooked + length line < INPUT_BUF_SIZE then
       let c = (if c = 13 then 10 else c); line = line @ [word_of_int c] in
       if c = 10 \<or> c = 4 \<or> length cooked + length line = INPUT_BUF_SIZE then (cooked @ line, []) else (cooked, line)
     else (cooked, line))"

definition con_abs :: "console \<Rightarrow> u8 list \<times> u8 list" where
  "con_abs s = (ring_list INPUT_BUF_SIZE (cbuf s) (cr s) (cw s), ring_list INPUT_BUF_SIZE (cbuf s) (cw s) (ce s))"

definition con_inv :: "console \<Rightarrow> bool" where
  "con_inv s \<longleftrightarrow> unat (cw s - cr s) + unat (ce s - cw s) \<le> INPUT_BUF_SIZE \<and> newline \<notin> set (snd (con_abs s))"

text \<open>The transmitter becomes idle again and again.\<close>

definition tx_live :: "uart \<Rightarrow> bool" where
  "tx_live u \<longleftrightarrow> \<not> panicked u \<and> (\<forall>k. \<exists>j \<ge> k. idle u j)"

lemma wait_idle_returns: "k \<le> j \<Longrightarrow> f j \<Longrightarrow> \<exists>i. wait_idle f k = Some i"
proof (induction "j - k" arbitrary: k)
  case 0
  then show ?case by (simp add: wait_idle.simps [of f k])
next
  case (Suc n)
  then have "\<exists>i. wait_idle f (Suc k) = Some i" by simp
  then show ?case by (simp add: wait_idle.simps [of f k])
qed

lemma putc_returns: "tx_live (ua s) \<Longrightarrow> \<exists>u. putc c s = Ok (s\<lparr>ua := u\<rparr>) \<and> tx_live u"
proof -
  assume l: "tx_live (ua s)"
  then obtain j where "polls (ua s) \<le> j" "idle (ua s) j" by (auto simp: tx_live_def)
  from wait_idle_returns [of _ _ "idle (ua s)", OF this] l show ?thesis
    by (auto simp: putc_def uartputc_sync_def tx_live_def)
qed

lemma consputc_returns:
  assumes "tx_live (ua s)"
  shows "\<exists>u. consputc c s = Ok (s\<lparr>ua := u\<rparr>) \<and> tx_live u"
proof -
  obtain u1 where 1: "putc 8 s = Ok (s\<lparr>ua := u1\<rparr>)" "tx_live u1" using putc_returns [OF assms] by blast
  obtain u2 where 2: "putc 32 (s\<lparr>ua := u1\<rparr>) = Ok (s\<lparr>ua := u2\<rparr>)" "tx_live u2" using putc_returns [of "s\<lparr>ua := u1\<rparr>" 32] 1 by auto
  obtain u3 where 3: "putc 8 (s\<lparr>ua := u2\<rparr>) = Ok (s\<lparr>ua := u3\<rparr>)" "tx_live u3" using putc_returns [of "s\<lparr>ua := u2\<rparr>" 8] 2 by auto
  show ?thesis using 1 2 3 putc_returns [OF assms, of "word_of_int c"] by (auto simp: consputc_def)
qed

lemma ring_last:
  assumes "(w :: 'b::len word) \<noteq> r"
  shows "buf (unat (w - 1) mod n) = last (ring_list n buf r w)"
proof -
  have "r + of_nat (unat (w - 1 - r)) = w - 1" by simp
  then show ?thesis by (simp add: ring_list_def unat_diff_Suc(2) [OF assms])
qed

lemma kill_line_spec:
  assumes "con_inv s" and "tx_live (ua s)"
  shows "okR (kill_line s) (\<lambda>s'. con_inv s' \<and> con_abs s' = (fst (con_abs s), []) \<and> tx_live (ua s'))"
  using assms
proof (induction "unat (ce s - cw s)" arbitrary: s rule: less_induct)
  case less
  show ?case
  proof (cases "ce s = cw s")
    case True
    then show ?thesis using less.prems by (simp add: kill_line.simps [of s] con_abs_def)
  next
    case False
    let ?l = "ring_list INPUT_BUF_SIZE (cbuf s) (cw s) (ce s)"
    have "?l \<noteq> []" using False by (simp add: ring_nil_iff)
    then have "last ?l \<in> set ?l" by (rule last_in_set)
    then have "last ?l \<noteq> newline" using less.prems(1) by (auto simp: con_inv_def con_abs_def)
    then have nl: "cbuf s (unat (ce s - 1) mod INPUT_BUF_SIZE) \<noteq> newline" using ring_last [OF False] by metis
    obtain u where u: "consputc BACKSPACE (s\<lparr>ce := ce s - 1\<rparr>) = Ok (s\<lparr>ce := ce s - 1, ua := u\<rparr>)" "tx_live u"
      using consputc_returns [of "s\<lparr>ce := ce s - 1\<rparr>" BACKSPACE] less.prems(2) by auto
    let ?s = "s\<lparr>ce := ce s - 1, ua := u\<rparr>"
    have d: "unat (ce s - cw s) = Suc (unat (ce s - 1 - cw s))" by (rule unat_diff_Suc(2) [OF False])
    have "con_inv ?s" using less.prems(1) d ring_unput [OF False, of INPUT_BUF_SIZE "cbuf s"] in_set_butlastD [of newline ?l]
      by (auto simp: con_inv_def con_abs_def)
    then have "okR (kill_line ?s) (\<lambda>s'. con_inv s' \<and> con_abs s' = (fst (con_abs ?s), []) \<and> tx_live (ua s'))"
      by (intro less.hyps) (use d u(2) in auto)
    moreover have "kill_line s = kill_line ?s" using False nl u(1) by (simp add: kill_line.simps [of s])
    ultimately show ?thesis by (simp add: con_abs_def)
  qed
qed

lemma con_length:
  assumes "con_inv s"
  shows "unat (ce s - cr s) = unat (cw s - cr s) + unat (ce s - cw s)"
    and "length (fst (con_abs s)) + length (snd (con_abs s)) = unat (ce s - cr s)"
proof -
  have e: "ce s - cr s = (cw s - cr s) + (ce s - cw s)" by simp
  have "unat (cw s - cr s) + unat (ce s - cw s) < 2 ^ LENGTH(32)" using assms by (simp add: con_inv_def)
  then show "unat (ce s - cr s) = unat (cw s - cr s) + unat (ce s - cw s)" unfolding e unat_word_ariths(1) by (rule mod_less)
  then show "length (fst (con_abs s)) + length (snd (con_abs s)) = unat (ce s - cr s)" by (simp add: con_abs_def)
qed

text \<open>A byte goes to the end of the line that is edited; a finished line goes to the readers.\<close>

definition con_put :: "u8 \<Rightarrow> console \<Rightarrow> console" where
  "con_put c s = s\<lparr>cbuf := (cbuf s)(unat (ce s) mod INPUT_BUF_SIZE := c), ce := ce s + 1\<rparr>"

lemma con_put_spec:
  assumes i: "con_inv s" and l: "unat (ce s - cr s) < INPUT_BUF_SIZE"
  shows "con_abs (con_put c s) = (fst (con_abs s), snd (con_abs s) @ [c])" and "c \<noteq> newline \<Longrightarrow> con_inv (con_put c s)"
    and "ring_list INPUT_BUF_SIZE (cbuf (con_put c s)) (cr s) (ce s + 1) = fst (con_abs s) @ snd (con_abs s) @ [c]"
    and "unat (ce s + 1 - cr s) = Suc (unat (ce s - cr s))"
proof -
  note len = con_length [OF i]
  have d: "(INPUT_BUF_SIZE :: nat) dvd 2 ^ LENGTH(32)" by simp
  have w: "unat (ce s - cw s) < INPUT_BUF_SIZE" using len l by simp
  have "ring_list INPUT_BUF_SIZE ((cbuf s)(unat (ce s) mod INPUT_BUF_SIZE := c)) (cr s) (cw s) = ring_list INPUT_BUF_SIZE (cbuf s) (cr s) (cw s)"
    by (rule ring_list_cong) (use ring_slots [OF d l] len in auto)
  then show a: "con_abs (con_put c s) = (fst (con_abs s), snd (con_abs s) @ [c])"
    using ring_put [OF d _ w, of "cbuf s" c] by (simp add: con_abs_def con_put_def)
  show e: "unat (ce s + 1 - cr s) = Suc (unat (ce s - cr s))" by (rule unat_diff_inc) (use l in simp)
  have e': "unat (ce s + 1 - cw s) = Suc (unat (ce s - cw s))" by (rule unat_diff_inc) (use w in simp)
  show "con_inv (con_put c s)" if "c \<noteq> newline"
  proof -
    have "newline \<notin> set (snd (con_abs (con_put c s)))" using i that by (simp add: con_inv_def a)
    moreover have "unat (cw s - cr s) + unat (ce s + 1 - cw s) \<le> INPUT_BUF_SIZE" using len l e' by simp
    ultimately show ?thesis by (simp add: con_inv_def con_put_def)
  qed
  have "ring_list INPUT_BUF_SIZE (cbuf (con_put c s)) (cr s) (ce s + 1)
      = ring_list INPUT_BUF_SIZE (cbuf (con_put c s)) (cr s) (cw s) @ ring_list INPUT_BUF_SIZE (cbuf (con_put c s)) (cw s) (ce s + 1)"
    by (rule ring_list_append) (use e len in simp)
  then show "ring_list INPUT_BUF_SIZE (cbuf (con_put c s)) (cr s) (ce s + 1) = fst (con_abs s) @ snd (con_abs s) @ [c]"
    using a by (simp add: con_abs_def con_put_def)
qed

lemma con_backspace:
  assumes i: "con_inv s"
  shows "con_abs (if ce s \<noteq> cw s then s\<lparr>ce := ce s - 1\<rparr> else s) = (fst (con_abs s), butlast (snd (con_abs s)))"
    and "con_inv (if ce s \<noteq> cw s then s\<lparr>ce := ce s - 1\<rparr> else s)"
proof -
  let ?s = "if ce s \<noteq> cw s then s\<lparr>ce := ce s - 1\<rparr> else s"
  show a: "con_abs ?s = (fst (con_abs s), butlast (snd (con_abs s)))"
    using ring_unput [of "ce s" "cw s" INPUT_BUF_SIZE "cbuf s"] by (simp add: con_abs_def)
  have "newline \<notin> set (snd (con_abs ?s))" unfolding a using i in_set_butlastD [of newline "snd (con_abs s)"] by (auto simp: con_inv_def)
  moreover have "unat (cw ?s - cr ?s) + unat (ce ?s - cw ?s) \<le> INPUT_BUF_SIZE"
    using i unat_diff_Suc(2) [of "ce s" "cw s"] by (auto simp: con_inv_def)
  ultimately show "con_inv ?s" unfolding con_inv_def by (rule conjI [rotated])
qed

lemma con_ua [simp]: "con_abs (s\<lparr>ua := u\<rparr>) = con_abs s" "con_inv (s\<lparr>ua := u\<rparr>) = con_inv s" "con_abs (s\<lparr>cwoken := w\<rparr>) = con_abs s"
  "con_inv (s\<lparr>cwoken := w\<rparr>) = con_inv s"
  by (simp_all add: con_abs_def con_inv_def)

text \<open>
  C22: The interrupt handler of the console edits lines: for every character that comes in, \<^verbatim>\<open>consoleintr\<close> returns as
  long as the transmitter becomes idle again and again, and changes the bytes for the readers and the line that is
  edited as \<open>edit_char\<close> says; the line never holds a newline, and the two together never more than 128 bytes, also
  when the counters wrap around.
\<close>

theorem consoleintr_refines:
  assumes "con_inv s" and "tx_live (ua s)" and "0 \<le> c" and "c < 256"
  shows "okR (consoleintr c s) (\<lambda>s'. con_inv s' \<and> con_abs s' = edit_char c (con_abs s) \<and> tx_live (ua s'))"
proof -
  obtain q l where ql: "con_abs s = (q, l)" by (cases "con_abs s")
  have len: "length q + length l = unat (ce s - cr s)" using con_length(2) [OF assms(1)] ql by simp
  consider (list) "c = 16" | (kill) "c = 21" | (erase) "c = 8 \<or> c = 0x7f" | (none) "c \<notin> {16, 21, 8, 0x7f}" "\<not> (c \<noteq> 0 \<and> unat (ce s - cr s) < INPUT_BUF_SIZE)"
    | (put) "c \<notin> {16, 21, 8, 0x7f}" "c \<noteq> 0" "unat (ce s - cr s) < INPUT_BUF_SIZE" by blast
  then show ?thesis
  proof cases
    case list
    then show ?thesis using assms ql by (simp add: consoleintr_def edit_char_def)
  next
    case kill
    then show ?thesis using kill_line_spec [OF assms(1,2)] ql by (simp add: consoleintr_def edit_char_def)
  next
    case erase
    obtain u where "consputc BACKSPACE (s\<lparr>ce := ce s - 1\<rparr>) = Ok (s\<lparr>ce := ce s - 1, ua := u\<rparr>)" "tx_live u"
      using consputc_returns [of "s\<lparr>ce := ce s - 1\<rparr>" BACKSPACE] assms(2) by auto
    then show ?thesis using erase con_backspace [OF assms(1)] ql assms(1,2) by (auto simp: consoleintr_def edit_char_def split: if_splits)
  next
    case none
    then show ?thesis using assms ql len by (auto simp: consoleintr_def edit_char_def word_less_nat_alt)
  next
    case put
    define d where "d = (if c = 13 then 10 else c)"
    obtain u where u: "consputc d s = Ok (s\<lparr>ua := u\<rparr>)" "tx_live u" using consputc_returns [OF assms(2)] by blast
    have i: "con_inv (s\<lparr>ua := u\<rparr>)" using assms(1) by simp
    have lt: "unat (ce (s\<lparr>ua := u\<rparr>) - cr (s\<lparr>ua := u\<rparr>)) < INPUT_BUF_SIZE" using put(3) by simp
    note p = con_put_spec(1-3) [OF i lt, of "word_of_int d"] and p4 = con_put_spec(4) [OF i lt]
    let ?s = "con_put (word_of_int d) (s\<lparr>ua := u\<rparr>)"
    have "uint (word_of_int d :: u8) = d" using assms(3,4) by (simp add: d_def uint_word_of_int take_bit_eq_mod)
    then have dl: "d = 10 \<longleftrightarrow> (word_of_int d :: u8) = newline" by (auto dest: arg_cong [where f = uint])
    have fl: "ce s + 1 - cr s = of_nat INPUT_BUF_SIZE \<longleftrightarrow> Suc (length q + length l) = INPUT_BUF_SIZE"
      using p4 put(3) len by (simp add: word_unat_eq_iff)
    have r: "consoleintr c s = Ok (if d = 10 \<or> d = 4 \<or> Suc (length q + length l) = INPUT_BUF_SIZE
        then ?s\<lparr>cw := ce s + 1, cwoken := cwoken s @ [Chan_cons_r]\<rparr> else ?s)"
      using put u(1) fl by (simp add: consoleintr_def word_less_nat_alt Let_def d_def [symmetric] con_put_def)
    have e: "edit_char c (con_abs s) = (if d = 10 \<or> d = 4 \<or> Suc (length q + length l) = INPUT_BUF_SIZE
        then (q @ l @ [word_of_int d], []) else (q, l @ [word_of_int d]))"
      using put len by (simp add: edit_char_def ql Let_def d_def [symmetric])
    have "con_abs (?s\<lparr>cw := ce s + 1\<rparr>) = (q @ l @ [word_of_int d], [])" "con_inv (?s\<lparr>cw := ce s + 1\<rparr>)"
      using p(3) p4 put(3) ql by (simp_all add: con_abs_def con_inv_def con_put_def)
    moreover have "con_abs ?s = (q, l @ [word_of_int d])" using p(1) put(3) ql by simp
    moreover have "d \<noteq> 10 \<Longrightarrow> con_inv ?s" using p(2) put(3) dl by simp
    moreover have "ua ?s = u" by (simp add: con_put_def)
    ultimately show ?thesis unfolding r e using u(2) by simp
  qed
qed

theorem consoleintr_refines_witness:
  "okR (consoleintr 13 console1) (\<lambda>s'. con_abs s' = ([7, 7, 7, 10], []))"
proof -
  have a: "con_abs console1 = ([7], [7, 7])" by (simp add: console1_def con_abs_def ring_get)
  have "con_inv console1" using a by (simp add: con_inv_def) (simp add: console1_def)
  moreover have "\<exists>j \<ge> k. j mod 2 = Suc 0" for k by (rule exI [of _ "2 * k + 1"]) simp
  then have "tx_live (ua console1)" by (simp add: console1_def uart1_def tx_live_def)
  ultimately show ?thesis using consoleintr_refines [of console1 13] a by (auto simp: okR_Ex edit_char_def)
qed

end
