(* ===== verification/Xv6_Descr.thy ===== *)
theory Xv6_Descr
  imports Xv6_Keeps Xv6_Ring "HOL-Library.Multiset"
begin

text \<open>
  File descriptors and reference counts.  The invariant \<open>fd_inv\<close> says that every descriptor of every process refers
  to an entry of \<^verbatim>\<open>ftable\<close> and that the reference count of an entry is the number of descriptors that refer to it;
  processes that have ended have none.  In the middle of a system call there are references that no descriptor holds; they are
  the multiset of \<open>fd_ok\<close>.  The effects of \<^verbatim>\<open>filealloc\<close>, \<^verbatim>\<open>filedup\<close>, \<^verbatim>\<open>fileclose\<close>, \<^verbatim>\<open>fdalloc\<close>, \<^verbatim>\<open>fork\<close>, \<^verbatim>\<open>exit\<close> and
  \<^verbatim>\<open>wait\<close> are stated on the view \<open>dview\<close>; every other operation keeps it.
\<close>

section \<open>The invariant on views\<close>

type_synonym dv = "(nat option list \<times> bool) list \<times> nat \<times> (nat \<Rightarrow> int)"

definition refs :: "(nat option list \<times> bool) list \<Rightarrow> nat \<Rightarrow> nat" where
  "refs L f = sum_list (map (\<lambda>(os, d). count_list os (Some f)) L)"

definition fd_ok :: "nat multiset \<Rightarrow> dv \<Rightarrow> bool" where
  "fd_ok E = (\<lambda>(L, i, r). length L = NPROC \<and> i < NPROC \<and>
     (\<forall>(os, d) \<in> set L. length os = NOFILE \<and> (d \<longrightarrow> os = replicate NOFILE None)) \<and>
     (\<forall>f. r f = int (refs L f + count E f)) \<and> (\<forall>f. r f \<noteq> 0 \<longrightarrow> f < NFILE))"

definition inc :: "nat \<Rightarrow> dv \<Rightarrow> dv" where
  "inc f = (\<lambda>(L, i, r). (L, i, r(f := r f + 1)))"

definition dec :: "nat \<Rightarrow> dv \<Rightarrow> dv" where
  "dec f = (\<lambda>(L, i, r). (L, i, r(f := r f - 1)))"

definition putd :: "nat \<Rightarrow> nat \<Rightarrow> nat option \<Rightarrow> dv \<Rightarrow> dv" where
  "putd j fd v = (\<lambda>(L, i, r). (L[j := ((fst (L ! j))[fd := v], snd (L ! j))], i, r))"

definition mark :: "nat \<Rightarrow> bool \<Rightarrow> dv \<Rightarrow> dv" where
  "mark j d = (\<lambda>(L, i, r). (L[j := (fst (L ! j), d)], i, r))"

definition fds :: "dv \<Rightarrow> nat \<Rightarrow> nat option list" where
  "fds = (\<lambda>(L, i, r) j. fst (L ! j))"

definition gone :: "dv \<Rightarrow> nat \<Rightarrow> bool" where
  "gone = (\<lambda>(L, i, r) j. snd (L ! j))"

definition cur :: "dv \<Rightarrow> nat" where
  "cur = (\<lambda>(L, i, r). i)"

lemma count_list_update:
  "i < length xs \<Longrightarrow> count_list (xs[i := v]) y + (if xs ! i = y then 1 else 0) = count_list xs y + (if v = y then 1 else 0)"
proof (induction xs arbitrary: i)
  case (Cons x xs)
  show ?case
  proof (cases i)
    case (Suc j)
    then show ?thesis using Cons.IH [of j] Cons.prems by (auto split: if_splits)
  qed simp
qed simp

lemma sum_map_update:
  "i < length xs \<Longrightarrow> sum_list (map g (xs[i := v])) + g (xs ! i) = sum_list (map g xs) + (g v :: nat)"
proof (induction xs arbitrary: i)
  case (Cons x xs)
  show ?case
  proof (cases i)
    case (Suc j)
    then show ?thesis using Cons.IH [of j] Cons.prems by simp
  qed simp
qed simp

lemma refs_put:
  assumes "j < length L" and "fd < length (fst (L ! j))"
  shows "refs (L[j := ((fst (L ! j))[fd := v], d)]) f + (if fst (L ! j) ! fd = Some f then 1 else 0) = refs L f + (if v = Some f then 1 else 0)"
  using sum_map_update [OF assms(1), of "\<lambda>(os, d). count_list os (Some f)" "((fst (L ! j))[fd := v], d)"]
    count_list_update [OF assms(2), of v "Some f"] by (cases "L ! j") (simp add: refs_def)

lemma fd_ok_fds:
  assumes "fd_ok E d" and "j < NPROC"
  shows "length (fds d j) = NOFILE" and "gone d j \<Longrightarrow> fds d j = replicate NOFILE None"
proof -
  obtain L i r where d: "d = (L, i, r)" by (cases d)
  have "\<forall>(os, b) \<in> set L. length os = NOFILE \<and> (b \<longrightarrow> os = replicate NOFILE None)" using assms(1) by (simp add: d fd_ok_def)
  moreover have "L ! j \<in> set L" using assms by (simp add: d fd_ok_def)
  ultimately have "case L ! j of (os, b) \<Rightarrow> length os = NOFILE \<and> (b \<longrightarrow> os = replicate NOFILE None)" by (rule bspec)
  then show "length (fds d j) = NOFILE" "gone d j \<Longrightarrow> fds d j = replicate NOFILE None"
    by (auto simp: d fds_def gone_def split: prod.splits)
qed

lemma fd_ok_inc: "fd_ok E d \<Longrightarrow> f < NFILE \<Longrightarrow> fd_ok (add_mset f E) (inc f d)"
  by (auto simp: fd_ok_def inc_def)

lemma fd_ok_dec:
  assumes "fd_ok (add_mset f E) d"
  shows "fd_ok E (dec f d)"
proof -
  obtain L i r where d: "d = (L, i, r)" by (cases d)
  have r: "r g = int (refs L g + count (add_mset f E) g)" "r g \<noteq> 0 \<longrightarrow> g < NFILE" for g using assms by (simp_all add: d fd_ok_def)
  have "(r(f := r f - 1)) g = int (refs L g + count E g)" for g using r(1) [of g] by auto
  moreover have "(r(f := r f - 1)) g \<noteq> 0 \<longrightarrow> g < NFILE" for g using r [of g] by auto
  ultimately show ?thesis using assms by (simp add: d fd_ok_def dec_def)
qed

lemma fd_ok_put:
  assumes ok: "fd_ok E d" and j: "j < NPROC" "fd < NOFILE" and l: "v \<noteq> None \<Longrightarrow> \<not> gone d j" "v \<noteq> None \<Longrightarrow> v = Some f"
    and e: "E' = (case fds d j ! fd of None \<Rightarrow> E | Some g \<Rightarrow> add_mset g E)" "E' = (case v of None \<Rightarrow> E2 | Some g \<Rightarrow> add_mset g E2)"
  shows "fd_ok E2 (putd j fd v d)"
proof -
  obtain L i r where d: "d = (L, i, r)" by (cases d)
  have len: "length L = NPROC" "length (fst (L ! j)) = NOFILE" using ok fd_ok_fds(1) [OF ok j(1)] by (simp_all add: d fd_ok_def fds_def)
  let ?x = "((fst (L ! j))[fd := v], snd (L ! j))"
  have R: "r g = int (refs L g + count E g)" for g using ok unfolding d fd_ok_def prod.case by blast
  have "r g = int (refs (L[j := ?x]) g + count E2 g)" for g
  proof -
    have "count E' g = count E g + (if fst (L ! j) ! fd = Some g then 1 else 0)" unfolding e(1) by (simp add: d fds_def split: option.splits)
    moreover have "count E' g = count E2 g + (if v = Some g then 1 else 0)" unfolding e(2) by (simp split: option.splits)
    moreover have "refs (L[j := ?x]) g + (if fst (L ! j) ! fd = Some g then 1 else 0) = refs L g + (if v = Some g then 1 else 0)"
      by (rule refs_put) (use len j in simp_all)
    ultimately have "refs (L[j := ?x]) g + count E2 g = refs L g + count E g" by linarith
    then show ?thesis unfolding R by simp
  qed
  moreover have "length os = NOFILE \<and> (b \<longrightarrow> os = replicate NOFILE None)" if "(os, b) \<in> set (L[j := ?x])" for os b
  proof (cases "(os, b) = ?x")
    case True
    show ?thesis
    proof (cases v)
      case None
      have "(replicate NOFILE None)[fd := None] = replicate NOFILE None" by (rule list_update_same_conv [THEN iffD2]) (use j in simp_all)
      then show ?thesis using True None len fd_ok_fds(2) [OF ok j(1)] by (auto simp: d gone_def fds_def)
    next
      case (Some g)
      then show ?thesis using True len l(1) by (simp add: d gone_def)
    qed
  next
    case False
    then have "(os, b) \<in> set L" using that set_update_subset_insert [of L j ?x] by blast
    then show ?thesis using ok by (auto simp: d fd_ok_def)
  qed
  ultimately show ?thesis using ok by (auto simp: d fd_ok_def putd_def)
qed

lemma fd_ok_mark:
  assumes ok: "fd_ok E d" and j: "j < NPROC" and n: "b \<Longrightarrow> fds d j = replicate NOFILE None"
  shows "fd_ok E (mark j b d)"
proof -
  obtain L i r where d: "d = (L, i, r)" by (cases d)
  have len: "length L = NPROC" using ok by (simp add: d fd_ok_def)
  let ?x = "(fst (L ! j), b)"
  have "refs (L[j := ?x]) g = refs L g" for g
    using sum_map_update [of j L "\<lambda>(os, d). count_list os (Some g)" ?x] len j by (cases "L ! j") (simp add: refs_def)
  moreover have "length os = NOFILE \<and> (c \<longrightarrow> os = replicate NOFILE None)" if "(os, c) \<in> set (L[j := ?x])" for os c
  proof (cases "(os, c) = ?x")
    case True
    then show ?thesis using n fd_ok_fds(1) [OF ok j] by (simp add: d fds_def)
  next
    case False
    then have "(os, c) \<in> set L" using that set_update_subset_insert [of L j ?x] by blast
    then show ?thesis using ok by (auto simp: d fd_ok_def)
  qed
  ultimately show ?thesis using ok by (auto simp: d fd_ok_def mark_def)
qed

text \<open>How the changes of a view act on its parts.\<close>

lemma snd_nth_update: "snd (L[j := (x, snd (L ! j))] ! i) = snd (L ! i)"
  by (cases "j < length L"; cases "i = j") (simp_all add: list_update_beyond)

lemma fst_nth_update: "fst (L[j := (fst (L ! j), y)] ! i) = fst (L ! i)"
  by (cases "j < length L"; cases "i = j") (simp_all add: list_update_beyond)

lemma view_simps [simp]:
  "fds (inc f d) = fds d" "fds (dec f d) = fds d" "gone (inc f d) = gone d" "gone (dec f d) = gone d" "cur (inc f d) = cur d" "cur (dec f d) = cur d"
  "cur (putd j fd v d) = cur d" "cur (mark j b d) = cur d" "gone (putd j fd v d) = gone d" "fds (mark j b d) = fds d"
  "inc f (putd j fd v d) = putd j fd v (inc f d)" "dec f (putd j fd v d) = putd j fd v (dec f d)"
  by (auto simp: fds_def gone_def inc_def dec_def cur_def putd_def mark_def fun_eq_iff snd_nth_update fst_nth_update split: prod.splits)

lemma fds_putd: "fd_ok E d \<Longrightarrow> j < NPROC \<Longrightarrow> fds (putd j fd v d) i = (if i = j then (fds d j)[fd := v] else fds d i)"
  by (auto simp: fds_def putd_def fd_ok_def split: prod.splits)

lemma gone_mark: "fd_ok E d \<Longrightarrow> j < NPROC \<Longrightarrow> gone (mark j b d) i = (if i = j then b else gone d i)"
  by (auto simp: gone_def mark_def fd_ok_def split: prod.splits)

lemma mark_same: "mark j (gone d j) d = d"
  by (cases d) (simp add: mark_def gone_def)

section \<open>Descriptors of the kernel\<close>

lemma dview_parts:
  "cur (dview k) = me (fs k)" "me (fs k) < length (procs (pt (fs k))) \<Longrightarrow> fds (dview k) (me (fs k)) = ofile (myproc k)"
  by (simp_all add: cur_def dview_def fds_def pview_def myproc_def)

lemma fd_ok_len: "fd_ok E (dview k) \<Longrightarrow> length (procs (pt (fs k))) = NPROC \<and> me (fs k) < NPROC"
  by (simp add: fd_ok_def dview_def)

lemma dview_inc: "dview (updfile f (\<lambda>x. x\<lparr>fref := fref x + 1\<rparr>) k) = inc f (dview k)"
  by (auto simp: dview_def updfile_def inc_def)

lemma dview_putd: "j < length (procs (pt (fs k))) \<Longrightarrow> dview (on_procs (upd j (\<lambda>q. q\<lparr>ofile := (ofile q)[fd := v]\<rparr>)) k) = putd j fd v (dview k)"
  by (simp add: dview_def on_procs_def upd_def putd_def map_update pview_def dead_def)

lemma filealloc_view:
  assumes "filealloc k = (x, k')"
  shows "case x of None \<Rightarrow> k' = k | Some f \<Rightarrow> f < NFILE \<and> dview k' = inc f (dview k)"
proof (cases "find (\<lambda>f. fref (ftable k f) = 0) [0..<NFILE]")
  case None
  then show ?thesis using assms by (auto simp: filealloc_def)
next
  case (Some f)
  then have "f < NFILE" "fref (ftable k f) = 0" by (auto simp: find_Some_iff)
  moreover have "x = Some f" "k' = updfile f (\<lambda>x. x\<lparr>fref := 1\<rparr>) k" using assms by (simp_all add: filealloc_def Some)
  ultimately show ?thesis by (auto simp: dview_def updfile_def inc_def)
qed

lemma filedup_view [keeps]: "(\<And>k'. dview k' = inc f (dview k) \<Longrightarrow> Q k') \<Longrightarrow> partR (filedup f k) Q"
  by (simp add: filedup_def dview_inc)

lemma pipeclose_keeps [keeps]: "(\<And>k'. dview k' = dview k \<Longrightarrow> Q k') \<Longrightarrow> partR (pipeclose pi wr k) Q"
  by (auto simp: pipeclose_def Let_def intro!: keeps)

lemma fileclose_view [keeps]:
  assumes "\<And>k'. dview k' = dec f (dview k) \<Longrightarrow> Q k'"
  shows "partR (fileclose f k) Q"
proof (cases "fref (ftable k f) < 1")
  case True
  then show ?thesis by (simp add: fileclose_def)
next
  case ge: False
  let ?k1 = "updfile f (\<lambda>x. x\<lparr>fref := fref x - 1\<rparr>) k"
  have 1: "dview ?k1 = dec f (dview k)" by (auto simp: dview_def updfile_def dec_def)
  show ?thesis
  proof (cases "fref (ftable ?k1 f) > 0")
    case True
    then show ?thesis using ge assms [OF 1] by (simp add: fileclose_def Let_def)
  next
    case False
    let ?k2 = "updfile f (\<lambda>x. x\<lparr>fref := 0, ftyp := FD_NONE\<rparr>) ?k1"
    have "fref (ftable k f) = 1" using False ge by (simp add: updfile_def)
    then have 2: "dview ?k2 = dec f (dview k)" by (auto simp: dview_def updfile_def dec_def)
    have "partR (case ftyp (ftable ?k1 f) of
            FD_PIPE \<Rightarrow> pipeclose (fpipe (ftable ?k1 f)) (writable (ftable ?k1 f)) ?k2
          | FD_NONE \<Rightarrow> Ok ?k2
          | _ \<Rightarrow>
              bindR (k_begin_op ?k2) (\<lambda>k.
              bindR (case fip (ftable ?k1 f) of None \<Rightarrow> Panic ''kerneltrap'' | Some ip \<Rightarrow> onfs (iput ip) k) k_end_op)) Q"
      using assms 2 by (auto split: ftype.splits option.splits intro!: keeps)
    then show ?thesis using ge False by (simp add: fileclose_def Let_def)
  qed
qed

text \<open>A running process and a kernel with the references \<open>E\<close> on top of those of the descriptors.\<close>

definition okd :: "nat multiset \<Rightarrow> dv \<Rightarrow> bool" where
  "okd E d \<longleftrightarrow> fd_ok E d \<and> \<not> gone d (cur d)"

lemma okd_cur: "okd E d \<Longrightarrow> cur d < NPROC"
  by (auto simp: okd_def fd_ok_def cur_def)

lemma okd_inc: "okd E d \<Longrightarrow> f < NFILE \<Longrightarrow> okd (add_mset f E) (inc f d)"
  by (simp add: okd_def fd_ok_inc)

lemma okd_dec: "okd (add_mset f E) d \<Longrightarrow> okd E (dec f d)"
  by (simp add: okd_def fd_ok_dec)

lemma okd_put: "okd (add_mset f E) d \<Longrightarrow> fd < NOFILE \<Longrightarrow> fds d (cur d) ! fd = None \<Longrightarrow> okd E (putd (cur d) fd (Some f) d)"
  using fd_ok_put [of "add_mset f E" d "cur d" fd "Some f" f] okd_cur [of _ d] by (auto simp: okd_def)

lemma okd_take: "okd E d \<Longrightarrow> fd < NOFILE \<Longrightarrow> fds d (cur d) ! fd = Some f \<Longrightarrow> okd (add_mset f E) (putd (cur d) fd None d)"
  using fd_ok_put [of E d "cur d" fd None f "add_mset f E" "add_mset f E"] okd_cur [of _ d] by (auto simp: okd_def)

lemma okd_held:
  assumes "okd E d" and "fd < NOFILE" and "fds d (cur d) ! fd = Some f"
  shows "f < NFILE"
proof -
  obtain L i r where d: "putd (cur d) fd None d = (L, i, r)" by (cases "putd (cur d) fd None d")
  have "r f = int (refs L f + count (add_mset f E) f)" "r f \<noteq> 0 \<longrightarrow> f < NFILE"
    using okd_take [OF assms] unfolding okd_def d fd_ok_def prod.case by blast+
  then show ?thesis by simp
qed

lemma okd_ofile: "okd E (dview k) \<Longrightarrow> ofile (myproc k) = fds (dview k) (cur (dview k))"
  using dview_parts [of k] fd_ok_len [of E k] by (simp add: okd_def)

lemma set_ofile_view: "okd E (dview k) \<Longrightarrow> dview (set_ofile fd v k) = putd (cur (dview k)) fd v (dview k)"
  using fd_ok_len [of E k] by (simp add: set_ofile_def dview_putd dview_parts okd_def)

lemma fdalloc_view:
  assumes "fdalloc f k = (x, k')" and "okd E (dview k)"
  shows "case x of None \<Rightarrow> k' = k
    | Some fd \<Rightarrow> fd < NOFILE \<and> fds (dview k) (cur (dview k)) ! fd = None \<and> dview k' = putd (cur (dview k)) fd (Some f) (dview k)"
proof (cases "find (\<lambda>fd. ofile (myproc k) ! fd = None) [0..<NOFILE]")
  case None
  then show ?thesis using assms(1) by (auto simp: fdalloc_def)
next
  case (Some fd)
  then have "fd < NOFILE" "ofile (myproc k) ! fd = None" by (auto simp: find_Some_iff)
  moreover have "x = Some fd" "k' = set_ofile fd (Some f) k" using assms(1) by (simp_all add: fdalloc_def Some)
  ultimately show ?thesis using okd_ofile [OF assms(2)] set_ofile_view [OF assms(2)] by simp
qed

lemma argfd_view [keeps]:
  "Q None \<Longrightarrow> (\<And>fd f. fd < NOFILE \<Longrightarrow> ofile (myproc k) ! fd = Some f \<Longrightarrow> Q (Some (fd, f))) \<Longrightarrow> partR (argfd n k) Q"
  by (auto simp: argfd_def intro!: keeps split: option.splits)

section \<open>System calls\<close>

lemma sys_dup_okd: "okd {#} (dview k) \<Longrightarrow> partR (sys_dup k) (\<lambda>(r, k'). okd {#} (dview k'))"
proof -
  assume ok: "okd {#} (dview k)"
  have "okd {#} (putd (cur (dview k)) fd (Some f) (inc f (dview k)))"
    if "fd0 < NOFILE" "ofile (myproc k) ! fd0 = Some f" "fd < NOFILE" "fds (dview k) (cur (dview k)) ! fd = None" for fd0 fd f
    using okd_put [of f "{#}" "inc f (dview k)" fd] okd_inc [OF ok okd_held [OF ok, of fd0 f]] okd_ofile [OF ok] that by simp
  then show ?thesis
    using ok by (auto simp: sys_dup_def split: prod.splits option.splits intro!: keeps dest!: fdalloc_view [OF _ ok])
qed

lemma sys_close_okd: "okd {#} (dview k) \<Longrightarrow> partR (sys_close k) (\<lambda>(r, k'). okd {#} (dview k'))"
proof -
  assume ok: "okd {#} (dview k)"
  have "okd {#} (dec f (dview (set_ofile fd None k)))" if "fd < NOFILE" "ofile (myproc k) ! fd = Some f" for fd f
    using okd_dec [OF okd_take [OF ok that(1), of f]] that(2) okd_ofile [OF ok] set_ofile_view [OF ok] by simp
  then show ?thesis using ok by (auto simp: sys_close_def split: option.splits intro!: keeps)
qed

lemma fileclose_okd: "okd (add_mset f E) (dview k) \<Longrightarrow> (\<And>k'. okd E (dview k') \<Longrightarrow> Q k') \<Longrightarrow> partR (fileclose f k) Q"
  by (rule fileclose_view) (simp add: okd_dec)

lemma pipealloc_bad_okd:
  assumes "okd (E0 + E1) (dview k)" and "E0 = (case f0 of None \<Rightarrow> {#} | Some f \<Rightarrow> {#f#})" "E1 = (case f1 of None \<Rightarrow> {#} | Some f \<Rightarrow> {#f#})"
    and Q: "\<And>k'. okd {#} (dview k') \<Longrightarrow> Q (None, k')"
  shows "partR (pipealloc_bad pi f0 f1 k) Q"
proof -
  have 1: "partR (case f1 of None \<Rightarrow> Ok k | Some f \<Rightarrow> fileclose f k) (\<lambda>k. Q (None, k))" if "okd E1 (dview k)" for k
    using that assms(3) Q fileclose_okd [of _ "{#}" k "\<lambda>k. Q (None, k)"] by (cases f1) simp_all
  have 0: "partR (case f0 of None \<Rightarrow> Ok k | Some f \<Rightarrow> fileclose f k) (\<lambda>k. partR (case f1 of None \<Rightarrow> Ok k | Some f \<Rightarrow> fileclose f k) (\<lambda>k. Q (None, k)))"
    if "okd (E0 + E1) (dview k)" for k
    using that assms(2) 1 fileclose_okd [of _ E1 k] by (cases f0) simp_all
  show ?thesis using 0 assms(1) by (auto simp: pipealloc_bad_def intro!: free_keeps(1))
qed

lemma pipealloc_okd [keeps]:
  assumes ok: "okd {#} (dview k)"
    and Q: "\<And>k'. okd {#} (dview k') \<Longrightarrow> Q (None, k')" "\<And>f0 f1 k'. okd {#f0, f1#} (dview k') \<Longrightarrow> Q (Some (f0, f1), k')"
  shows "partR (pipealloc k) Q"
proof (cases "filealloc k")
  case (Pair x k1)
  note v1 = filealloc_view [OF Pair]
  show ?thesis
  proof (cases x)
    case None
    then show ?thesis using ok v1 Q by (simp add: pipealloc_def Pair) (rule pipealloc_bad_okd [OF _ refl refl], auto)
  next
    case (Some f0)
    then have k1: "okd {#f0#} (dview k1)" using v1 okd_inc [OF ok] by simp
    show ?thesis
    proof (cases "filealloc k1")
      case p2: (Pair y k2)
      note v2 = filealloc_view [OF p2]
      show ?thesis
      proof (cases y)
        case None
        then show ?thesis using k1 v2 Q Some by (simp add: pipealloc_def Pair p2) (rule pipealloc_bad_okd [OF _ refl refl], auto)
      next
        case s2: (Some f1)
        then have k2: "okd {#f0, f1#} (dview k2)" using v2 okd_inc [OF k1, of f1] by (simp add: add_mset_commute [of f0])
        obtain pi m where km: "kalloc (mem_of k2) = (pi, m)" by (cases "kalloc (mem_of k2)")
        have "partR (pipealloc_bad 0 (Some f0) (Some f1) (set_km m k2)) Q"
          by (rule pipealloc_bad_okd [OF _ refl refl]) (use k2 Q in \<open>auto simp: add_mset_commute\<close>)
        then show ?thesis using Some s2 k2 Q by (simp add: pipealloc_def Pair p2 km Let_def)
      qed
    qed
  qed
qed

lemma pipe_undo_okd [keeps]:
  assumes "okd {#f0, f1#} (dview k)" and "\<And>r k'. okd {#} (dview k') \<Longrightarrow> Q (r, k')"
  shows "partR (pipe_undo f0 f1 k) Q"
  unfolding pipe_undo_def partR_simps
  by (rule fileclose_okd [OF assms(1)], rule fileclose_okd, assumption) (auto intro!: keeps assms(2))

lemma okd_fds_putd: "okd E d \<Longrightarrow> fds (putd (cur d) fd v d) (cur d) = (fds d (cur d))[fd := v]"
  using fds_putd [of E d "cur d" fd v "cur d"] okd_cur [of E d] by (simp add: okd_def)

lemma okd_fdalloc:
  assumes "okd (add_mset f E) (dview k)" and "fdalloc f k = (Some fd, k')"
  shows "okd E (dview k')" and "fd < NOFILE" and "cur (dview k') = cur (dview k)" and "fds (dview k) (cur (dview k)) ! fd = None"
    and "fds (dview k') (cur (dview k)) = (fds (dview k) (cur (dview k)))[fd := Some f]"
proof -
  have v: "fd < NOFILE" "fds (dview k) (cur (dview k)) ! fd = None" "dview k' = putd (cur (dview k)) fd (Some f) (dview k)"
    using fdalloc_view [OF assms(2,1)] by simp_all
  then show "fd < NOFILE" "cur (dview k') = cur (dview k)" "fds (dview k) (cur (dview k)) ! fd = None" by simp_all
  show "okd E (dview k')" unfolding v(3) by (rule okd_put) (use assms(1) v in auto)
  show "fds (dview k') (cur (dview k)) = (fds (dview k) (cur (dview k)))[fd := Some f]"
    unfolding v(3) by (rule okd_fds_putd [OF assms(1)])
qed

lemma okd_set_none:
  assumes "okd E (dview k)" and "fd < NOFILE" and "fds (dview k) (cur (dview k)) ! fd = Some f"
  shows "okd (add_mset f E) (dview (set_ofile fd None k))" and "cur (dview (set_ofile fd None k)) = cur (dview k)"
    and "fds (dview (set_ofile fd None k)) (cur (dview k)) = (fds (dview k) (cur (dview k)))[fd := None]"
  using okd_take [OF assms] set_ofile_view [OF assms(1)] okd_fds_putd [OF assms(1)] by simp_all

lemma okd_nofile: "okd E d \<Longrightarrow> length (fds d (cur d)) = NOFILE"
  using fd_ok_fds(1) [of E d "cur d"] okd_cur [of E d] by (simp add: okd_def)

lemma sys_pipe_okd:
  assumes ok: "okd {#} (dview k)"
  shows "partR (sys_pipe k) (\<lambda>(r, k'). okd {#} (dview k'))"
proof -
  have copied: "partR (bindR (k_copyout a (le_bytes 4 (of_nat fd0 :: u32)) k) (\<lambda>(r0, k).
      bindR (if r0 < 0 then Ok (-1, k) else k_copyout (a + 4) (le_bytes 4 (of_nat fd1 :: u32)) k) (\<lambda>(r1, k).
      if r1 < 0 then pipe_undo rd wr (set_ofile fd1 None (set_ofile fd0 None k)) else ret 0 k))) (\<lambda>(r, k'). okd {#} (dview k'))"
    if "okd {#} (dview k)" "fd0 < NOFILE" "fd1 < NOFILE" "fd0 \<noteq> fd1" "fds (dview k) (cur (dview k)) ! fd0 = Some rd"
      "fds (dview k) (cur (dview k)) ! fd1 = Some wr" for a fd0 fd1 rd wr k
  proof -
    have u: "okd {#rd, wr#} (dview (set_ofile fd1 None (set_ofile fd0 None k')))" if e: "dview k' = dview k" for k'
    proof -
      have "okd {#rd#} (dview (set_ofile fd0 None k'))" "fds (dview (set_ofile fd0 None k')) (cur (dview (set_ofile fd0 None k'))) ! fd1 = Some wr"
        using okd_set_none [of "{#}" k' fd0 rd] e \<open>okd {#} (dview k)\<close> \<open>fd0 < NOFILE\<close> \<open>fd0 \<noteq> fd1\<close> \<open>fds (dview k) (cur (dview k)) ! fd0 = Some rd\<close>
          \<open>fds (dview k) (cur (dview k)) ! fd1 = Some wr\<close> by simp_all
      then show ?thesis using okd_set_none(1) [of "{#rd#}" _ fd1 wr] \<open>fd1 < NOFILE\<close> by (simp add: add_mset_commute)
    qed
    show ?thesis using that(1) u by (auto intro!: keeps)
  qed
  have alloc: "partR (case fdalloc rd k of
            (None, k) \<Rightarrow> pipe_undo rd wr k
          | (Some fd0, k) \<Rightarrow>
              (case fdalloc wr k of
                 (None, k) \<Rightarrow> pipe_undo rd wr (set_ofile fd0 None k)
               | (Some fd1, k) \<Rightarrow>
                   bindR (k_copyout a (le_bytes 4 (of_nat fd0 :: u32)) k) (\<lambda>(r0, k).
                   bindR (if r0 < 0 then Ok (-1, k) else k_copyout (a + 4) (le_bytes 4 (of_nat fd1 :: u32)) k) (\<lambda>(r1, k).
                   if r1 < 0 then pipe_undo rd wr (set_ofile fd1 None (set_ofile fd0 None k)) else ret 0 k))))
       (\<lambda>(r, k'). okd {#} (dview k'))" if k: "okd {#rd, wr#} (dview k)" for a rd wr k
  proof (cases "fdalloc rd k")
    case p: (Pair x k1)
    show ?thesis
    proof (cases x)
      case None
      then show ?thesis using fdalloc_view [OF p k] k by (auto simp: p intro!: pipe_undo_okd)
    next
      case (Some fd0)
      note a = okd_fdalloc [OF k p [unfolded Some]]
      have f0: "fds (dview k1) (cur (dview k1)) ! fd0 = Some rd" using a okd_nofile [OF k] by simp
      show ?thesis
      proof (cases "fdalloc wr k1")
        case q: (Pair y k2)
        show ?thesis
        proof (cases y)
          case None
          then show ?thesis using fdalloc_view [OF q a(1)] okd_set_none(1) [OF a(1,2) f0] by (auto simp: p q Some intro!: pipe_undo_okd)
        next
          case s1: (Some fd1)
          note b = okd_fdalloc [OF a(1) q [unfolded s1]]
          have n: "fd0 \<noteq> fd1" using b(4) f0 by auto
          have "fds (dview k2) (cur (dview k2)) ! fd0 = Some rd" "fds (dview k2) (cur (dview k2)) ! fd1 = Some wr"
            using b f0 n okd_nofile [OF a(1)] by simp_all
          from copied [OF b(1) a(2) b(2) n this] show ?thesis by (simp add: p q Some s1)
        qed
      qed
    qed
  qed
  show ?thesis unfolding sys_pipe_def partR_simps
    by (intro free_keeps(11) pipealloc_okd [OF ok]) (auto simp: alloc intro!: keeps simp del: partR_simps(5))
qed

lemma open_file_view [simp]: "dview (open_file f ip om k) = dview k"
  by (simp add: open_file_def Let_def)

lemma sys_open_okd:
  assumes ok: "okd {#} (dview k)"
  shows "partR (sys_open k) (\<lambda>(r, k'). okd {#} (dview k'))"
proof -
  have desc: "partR (case fdalloc f k of
                     (None, k) \<Rightarrow> bindR (fileclose f k) (\<lambda>k. bindR (onfs (iunlockput ip) k) (end_ret (-1)))
                   | (Some fd, k) \<Rightarrow>
                       let k = open_file f ip om k in
                       bindR (if om AND O_TRUNC \<noteq> 0 \<and> itype (itable (fs k) ip) = T_FILE then onfs (itrunc ip) k else Ok k) (\<lambda>k.
                       bindR (onfs (iunlock (Some ip)) k) (end_ret (int fd)))) (\<lambda>(r, k'). okd {#} (dview k'))"
    if k: "okd {#f#} (dview k)" for f ip om k
  proof (cases "fdalloc f k")
    case p: (Pair x k1)
    show ?thesis
    proof (cases x)
      case None
      then have "k1 = k" using fdalloc_view [OF p k] by simp
      moreover have "partR (fileclose f k) (\<lambda>k. partR (onfs (iunlockput ip) k) (\<lambda>k. partR (end_ret (-1) k) (\<lambda>(r, k'). okd {#} (dview k'))))"
        by (rule fileclose_okd [OF k]) (auto intro!: keeps)
      ultimately show ?thesis by (simp add: p None)
    next
      case (Some fd)
      then show ?thesis using okd_fdalloc(1) [OF k p [unfolded Some]] by (auto simp: p Let_def intro!: keeps)
    qed
  qed
  have alloc: "partR (case filealloc k of
                (None, k) \<Rightarrow> bindR (onfs (iunlockput ip) k) (end_ret (-1))
              | (Some f, k) \<Rightarrow>
                  (case fdalloc f k of
                     (None, k) \<Rightarrow> bindR (fileclose f k) (\<lambda>k. bindR (onfs (iunlockput ip) k) (end_ret (-1)))
                   | (Some fd, k) \<Rightarrow>
                       let k = open_file f ip om k in
                       bindR (if om AND O_TRUNC \<noteq> 0 \<and> itype (itable (fs k) ip) = T_FILE then onfs (itrunc ip) k else Ok k) (\<lambda>k.
                       bindR (onfs (iunlock (Some ip)) k) (end_ret (int fd))))) (\<lambda>(r, k'). okd {#} (dview k'))"
    if k: "okd {#} (dview k)" for ip om k
  proof (cases "filealloc k")
    case p: (Pair x k1)
    show ?thesis
    proof (cases x)
      case None
      then show ?thesis using filealloc_view [OF p] k by (auto simp: p intro!: keeps)
    next
      case (Some f)
      then have "okd {#f#} (dview k1)" using filealloc_view [OF p] okd_inc [OF k] by simp
      from desc [OF this] show ?thesis by (simp add: p Some)
    qed
  qed
  define T where "T ip om k = (case filealloc k of
                (None, k) \<Rightarrow> bindR (onfs (iunlockput ip) k) (end_ret (-1))
              | (Some f, k) \<Rightarrow>
                  (case fdalloc f k of
                     (None, k) \<Rightarrow> bindR (fileclose f k) (\<lambda>k. bindR (onfs (iunlockput ip) k) (end_ret (-1)))
                   | (Some fd, k) \<Rightarrow>
                       let k = open_file f ip om k in
                       bindR (if om AND O_TRUNC \<noteq> 0 \<and> itype (itable (fs k) ip) = T_FILE then onfs (itrunc ip) k else Ok k) (\<lambda>k.
                       bindR (onfs (iunlock (Some ip)) k) (end_ret (int fd)))))" for ip om k
  have T: "partR (T ip om k') (\<lambda>(r, k'). okd {#} (dview k'))" if "dview k' = dview k" for ip om k'
    unfolding T_def using alloc [of k' ip om] ok that by simp
  show ?thesis unfolding sys_open_def T_def [symmetric] using ok by (auto simp: Let_def split: option.splits intro!: keeps T)
qed

lemma sys_read_keeps [keeps]: "(\<And>r k'. dview k' = dview k \<Longrightarrow> Q (r, k')) \<Longrightarrow> partR (sys_read k) Q"
  by (auto simp: sys_read_def intro!: keeps)

lemma sys_write_keeps [keeps]: "(\<And>r k'. dview k' = dview k \<Longrightarrow> Q (r, k')) \<Longrightarrow> partR (sys_write k) Q"
  by (auto simp: sys_write_def intro!: keeps)

lemma sys_fstat_keeps [keeps]: "(\<And>r k'. dview k' = dview k \<Longrightarrow> Q (r, k')) \<Longrightarrow> partR (sys_fstat k) Q"
  by (auto simp: sys_fstat_def intro!: keeps)

lemma link_bad_keeps [keeps]: "(\<And>r k'. dview k' = dview k \<Longrightarrow> Q (r, k')) \<Longrightarrow> partR (link_bad ip k) Q"
  by (auto simp: link_bad_def intro!: keeps)

lemma sys_link_keeps [keeps]: "(\<And>r k'. dview k' = dview k \<Longrightarrow> Q (r, k')) \<Longrightarrow> partR (sys_link k) Q"
  by (auto simp: sys_link_def split: option.splits intro!: keeps)

lemma unlink_bad_keeps [keeps]: "(\<And>r k'. dview k' = dview k \<Longrightarrow> Q (r, k')) \<Longrightarrow> partR (unlink_bad dp k) Q"
  by (auto simp: unlink_bad_def intro!: keeps)

lemma sys_unlink_keeps [keeps]: "(\<And>r k'. dview k' = dview k \<Longrightarrow> Q (r, k')) \<Longrightarrow> partR (sys_unlink k) Q"
  by (auto simp: sys_unlink_def split: option.splits intro!: keeps)

lemma sys_mkdir_keeps [keeps]: "(\<And>r k'. dview k' = dview k \<Longrightarrow> Q (r, k')) \<Longrightarrow> partR (sys_mkdir k) Q"
  by (auto simp: sys_mkdir_def split: option.splits intro!: keeps)

lemma sys_mknod_keeps [keeps]: "(\<And>r k'. dview k' = dview k \<Longrightarrow> Q (r, k')) \<Longrightarrow> partR (sys_mknod k) Q"
  by (auto simp: sys_mknod_def split: option.splits intro!: keeps)

lemma dview_upd: "(\<And>p. pview (g p) = pview p) \<Longrightarrow> dview (on_procs (upd i g) k) = dview k"
  by (rule dview_on_procs) (rule pview_upd)

lemma sys_chdir_keeps [keeps]: "(\<And>r k'. dview k' = dview k \<Longrightarrow> Q (r, k')) \<Longrightarrow> partR (sys_chdir k) Q"
  by (auto simp: sys_chdir_def dview_upd pview_def dead_def split: option.splits intro!: keeps)

lemma loadseg_from_keeps [keeps]: "(\<And>r k'. dview k' = dview k \<Longrightarrow> Q (r, k')) \<Longrightarrow> partR (loadseg_from pgt va ip off n i k) Q"
proof (induction "n - i" arbitrary: i k Q rule: less_induct)
  case less
  show ?case by (subst loadseg_from.simps) (auto simp: Let_def intro!: keeps less)
qed

lemma loadseg_keeps [keeps]: "(\<And>r k'. dview k' = dview k \<Longrightarrow> Q (r, k')) \<Longrightarrow> partR (loadseg pgt va ip off n k) Q"
  by (auto simp: loadseg_def intro!: keeps)

lemma load_headers_keeps [keeps]: "(\<And>r k'. dview k' = dview k \<Longrightarrow> Q (r, k')) \<Longrightarrow> partR (load_headers n pgt ip off z k) Q"
  by (induction n arbitrary: off z k Q) (auto simp: Let_def intro!: keeps)

lemma exec_bad_keeps [keeps]: "(\<And>r k'. dview k' = dview k \<Longrightarrow> Q (r, k')) \<Longrightarrow> partR (exec_bad pgt z ipo k) Q"
  by (auto simp: exec_bad_def split: option.splits intro!: keeps)

lemma push_args_keeps [keeps]: "(\<And>r k'. dview k' = dview k \<Longrightarrow> Q (r, k')) \<Longrightarrow> partR (push_args pgt b as stk us k) Q"
  by (induction as arbitrary: stk us k Q) (auto simp: Let_def intro!: keeps)

lemma exec_commit_keeps [keeps]: "(\<And>r k'. dview k' = dview k \<Longrightarrow> Q (r, k')) \<Longrightarrow> partR (exec_commit pgt z e stk pth n k) Q"
  by (auto simp: exec_commit_def Let_def dview_upd pview_def dead_def intro!: keeps)

lemma exec_stack_keeps [keeps]: "(\<And>r k'. dview k' = dview k \<Longrightarrow> Q (r, k')) \<Longrightarrow> partR (exec_stack pgt z e pth argv k) Q"
  by (auto simp: exec_stack_def Let_def split: option.splits intro!: keeps)

lemma exec_keeps [keeps]: "(\<And>r k'. dview k' = dview k \<Longrightarrow> Q (r, k')) \<Longrightarrow> partR (exec tramp pth argv k) Q"
  by (auto simp: exec_def Let_def split: option.splits sum.splits intro!: keeps)

lemma exec_args_keeps [keeps]: "(\<And>b ps as k'. dview k' = dview k \<Longrightarrow> Q (b, ps, as, k')) \<Longrightarrow> partR (exec_args n u i pages argv k) Q"
  by (induction n arbitrary: i pages argv k Q) (auto simp: Let_def split: prod.splits intro!: keeps)

lemma free_args_keeps [keeps]: "(\<And>k'. dview k' = dview k \<Longrightarrow> Q k') \<Longrightarrow> partR (free_args pages k) Q"
  unfolding free_args_def by (rule forR_keeps [where c = dview]) (auto intro!: keeps)

lemma sys_exec_keeps [keeps]: "(\<And>r k'. dview k' = dview k \<Longrightarrow> Q (r, k')) \<Longrightarrow> partR (sys_exec tramp k) Q"
  by (auto simp: sys_exec_def intro!: keeps)

lemma sys_sbrk_keeps [keeps]: "(\<And>r k'. dview k' = dview k \<Longrightarrow> Q (r, k')) \<Longrightarrow> partR (sys_sbrk k) Q"
  by (auto simp: sys_sbrk_def growproc_def Let_def dview_set_pt pview_upd pview_def dead_def intro!: keeps)

lemma sys_kill_keeps [keeps]: "(\<And>r k'. dview k' = dview k \<Longrightarrow> Q (r, k')) \<Longrightarrow> partR (sys_kill k) Q"
proof -
  assume Q: "\<And>r k'. dview k' = dview k \<Longrightarrow> Q (r, k')"
  have "dview (on_procs (\<lambda>_. ps) k) = dview k" if "kill pd (procs (pt (fs k))) = (r, ps)" for pd r ps
    by (rule dview_on_procs) (use pview_kill [of pd "procs (pt (fs k))"] that in simp)
  then show ?thesis using Q by (auto simp: sys_kill_def split: prod.splits intro!: keeps)
qed

lemma sys_simple_keep [keeps]:
  "(\<And>r k'. dview k' = dview k \<Longrightarrow> Q (r, k')) \<Longrightarrow> partR (sys_getpid k) Q" "(\<And>r k'. dview k' = dview k \<Longrightarrow> Q (r, k')) \<Longrightarrow> partR (sys_uptime k) Q"
  "(\<And>r k'. dview k' = dview k \<Longrightarrow> Q (r, k')) \<Longrightarrow> partR (sys_sleep k) Q" "(\<And>r k'. dview k' = dview k \<Longrightarrow> Q (r, k')) \<Longrightarrow> partR (sys_trace k) Q"
  "(\<And>r k'. dview k' = dview k \<Longrightarrow> Q (r, k')) \<Longrightarrow> partR (sys_sysinfo k) Q"
  by (auto simp: sys_getpid_def sys_uptime_def sys_sleep_def sys_trace_def sys_sysinfo_def Let_def dview_upd pview_def dead_def
      split: option.splits intro!: keeps)

subsection \<open>Creation and end of processes\<close>

lemma pview_upd_mark:
  "i < length ps \<Longrightarrow> ofile (g (ps ! i)) = ofile (ps ! i) \<Longrightarrow> dead (g (ps ! i)) = b \<Longrightarrow> map pview (upd i g ps) = (map pview ps)[i := (ofile (ps ! i), b)]"
  by (simp add: upd_def map_update pview_def)

lemma dview_mark:
  "j < length (procs (pt (fs k))) \<Longrightarrow> (\<And>p. ofile (g p) = ofile p \<and> dead (g p) = b) \<Longrightarrow> dview (on_procs (upd j g) k) = mark j b (dview k)"
  by (simp add: dview_def on_procs_def pview_upd_mark mark_def pview_def)

lemma freeproc_pview: "i < length (procs p) \<Longrightarrow> (\<And>p'. map pview (procs p') = (map pview (procs p))[i := (ofile (procs p ! i), True)] \<Longrightarrow> Q p') \<Longrightarrow> partR (freeproc p i) Q"
  by (auto simp: freeproc_def Let_def map_update pview_def dead_def intro!: keeps)

lemma freeproc_view:
  assumes "i < length (procs (pt (fs k)))" and "\<And>p'. dview (set_pt p' k) = mark i True (dview k) \<Longrightarrow> Q p'"
  shows "partR (freeproc (pt (fs k)) i) Q"
  by (rule freeproc_pview [OF assms(1)]) (use assms in \<open>simp add: dview_def set_pt_def mark_def pview_def\<close>)

lemma allocproc_pview:
  assumes N: "\<And>p'. map pview (procs p') = map pview (procs p) \<Longrightarrow> Q (None, p')"
    and S: "\<And>i p'. i < length (procs p) \<Longrightarrow> dead (procs p ! i) \<Longrightarrow> map pview (procs p') = (map pview (procs p))[i := (ofile (procs p ! i), False)] \<Longrightarrow> Q (Some i, p')"
  shows "partR (allocproc tramp fr p) Q"
proof (cases "find_unused (procs p) 0")
  case None
  then show ?thesis using N by (simp add: allocproc_def)
next
  case (Some i)
  then have i: "i < length (procs p)" "state (procs p ! i) = UNUSED" using find_unused_Some [OF Some] by simp_all
  then have d: "dead (procs p ! i)" by (simp add: dead_def)
  have same: "(map pview (procs p))[i := (ofile (procs p ! i), True)] = map pview (procs p)"
    by (rule list_update_same_conv [THEN iffD2]) (use i d in \<open>simp_all add: pview_def\<close>)
  let ?L = "(map pview (procs p))[i := (ofile (procs p ! i), False)]"
  obtain tf m where km: "kalloc (km p) = (tf, m)" by (cases "kalloc (km p)")
  have f: "partR (freeproc q i) (\<lambda>p'. Q (None, p'))" if "map pview (procs q) = ?L" for q
  proof (rule freeproc_pview)
    have l: "length (procs q) = length (procs p)" using arg_cong [OF that, of length] by simp
    then show "i < length (procs q)" using i by simp
    have "pview (procs q ! i) = ?L ! i" using that l i by (metis nth_map)
    then have "ofile (procs q ! i) = ofile (procs p ! i)" using i by (simp add: pview_def)
    then show "Q (None, p')" if "map pview (procs p') = (map pview (procs q))[i := (ofile (procs q ! i), True)]" for p'
      using N that \<open>map pview (procs q) = ?L\<close> same by simp
  qed
  have u: "map pview (upd i (\<lambda>p. p\<lparr>pid := x, state := USED, trapframe := y\<rparr>) (procs p)) = ?L" for x y
    by (rule pview_upd_mark) (use i in \<open>simp_all add: dead_def\<close>)
  have v: "map pview (upd i (\<lambda>p. p\<lparr>pagetable := x\<rparr>) ps) = map pview ps" "map pview (upd i (\<lambda>p. p\<lparr>pcontext := c p\<rparr>) ps) = map pview ps" for x c ps
    by (rule pview_upd; simp add: pview_def dead_def)+
  show ?thesis using f S [OF i(1) d] by (auto simp: allocproc_def Some allocpid_def km Let_def u v intro!: keeps)
qed

lemma allocproc_view:
  assumes N: "\<And>p'. dview (set_pt p' k) = dview k \<Longrightarrow> Q (None, p')"
    and S: "\<And>i p'. i < length (procs (pt (fs k))) \<Longrightarrow> gone (dview k) i \<Longrightarrow> dview (set_pt p' k) = mark i False (dview k) \<Longrightarrow> Q (Some i, p')"
  shows "partR (allocproc tramp fr (pt (fs k))) Q"
proof (rule allocproc_pview)
  show "Q (None, p')" if "map pview (procs p') = map pview (procs (pt (fs k)))" for p' by (rule N) (rule dview_set_pt [OF that])
  show "Q (Some i, p')" if "i < length (procs (pt (fs k)))" "dead (procs (pt (fs k)) ! i)"
    "map pview (procs p') = (map pview (procs (pt (fs k))))[i := (ofile (procs (pt (fs k)) ! i), False)]" for i p'
    by (rule S) (use that in \<open>simp_all add: dview_def set_pt_def mark_def gone_def pview_def\<close>)
qed

lemma partR_upto:
  assumes "P 0 s" and "\<And>i s. i < n \<Longrightarrow> P i s \<Longrightarrow> partR (f i s) (P (Suc i))" and "\<And>s. P n s \<Longrightarrow> Q s"
  shows "partR (forR [0..<n] f s) Q"
proof -
  have "partR (forR [i..<n] f s) Q" if "P i s" "i \<le> n" for i s
    using that
  proof (induction "n - i" arbitrary: i s)
    case 0
    then show ?case using assms(3) by simp
  next
    case (Suc m)
    then have "[i..<n] = i # [Suc i..<n]" by (simp add: upt_conv_Cons)
    moreover have i: "i < n" "m = n - Suc i" using Suc.hyps(2) by simp_all
    have "partR (f i s) (\<lambda>s. partR (forR [Suc i..<n] f s) Q)"
      using assms(2) [OF i(1) Suc.prems(1)] Suc.hyps(1) [OF i(2)] i(1) by (auto simp: partR_def)
    ultimately show ?case by simp
  qed
  then show ?thesis using assms(1) by blast
qed

lemma fork_file_step:
  assumes ok: "okd {#} (dview k)" and np: "np < NPROC" "np \<noteq> cur (dview k)" "\<not> gone (dview k) np" and i: "i < NOFILE" "\<forall>j. i \<le> j \<and> j < NOFILE \<longrightarrow> fds (dview k) np ! j = None"
    and Q: "\<And>k'. okd {#} (dview k') \<Longrightarrow> cur (dview k') = cur (dview k) \<Longrightarrow> \<not> gone (dview k') np \<Longrightarrow>
      \<forall>j. Suc i \<le> j \<and> j < NOFILE \<longrightarrow> fds (dview k') np ! j = None \<Longrightarrow> Q k'"
  shows "partR (fork_file np i k) Q"
proof (cases "ofile (myproc k) ! i")
  case None
  then show ?thesis using Q [OF ok refl np(3)] i by (simp add: fork_file_def)
next
  case (Some f)
  have f: "f < NFILE" by (rule okd_held [OF ok i(1)]) (use Some okd_ofile [OF ok] in simp)
  let ?d = "putd np i (Some f) (inc f (dview k))"
  have c: "fd_ok {#f#} (inc f (dview k))" using fd_ok_inc [of "{#}" "dview k" f] ok f by (simp add: okd_def)
  have "fd_ok {#} ?d" by (rule fd_ok_put [OF c np(1) i(1)]) (use np i in auto)
  then have d: "okd {#} ?d" using ok by (simp add: okd_def)
  have "fds ?d np ! j = None" if "Suc i \<le> j" "j < NOFILE" for j
    using fds_putd [OF c np(1)] that i(2) by simp
  then have n: "\<forall>j. Suc i \<le> j \<and> j < NOFILE \<longrightarrow> fds ?d np ! j = None" by blast
  have "Q (on_procs (upd np (\<lambda>q. q\<lparr>ofile := (ofile q)[i := Some f]\<rparr>)) k')" if e: "dview k' = inc f (dview k)" for k'
  proof -
    have "np < length (procs (pt (fs k')))" using fd_ok_len [of "{#f#}" k'] c e np(1) by simp
    then have "dview (on_procs (upd np (\<lambda>q. q\<lparr>ofile := (ofile q)[i := Some f]\<rparr>)) k') = ?d" using dview_putd e by simp
    then show ?thesis using Q d n np by simp
  qed
  then show ?thesis by (simp add: fork_file_def Some) (rule filedup_view, blast)
qed

lemma fork_copy_okd:
  assumes ok: "okd {#} (dview k)" and np: "np < NPROC" "np \<noteq> cur (dview k)" "\<not> gone (dview k) np" "fds (dview k) np = replicate NOFILE None"
  shows "partR (fork_copy np k) (\<lambda>(r, k'). okd {#} (dview k'))"
proof -
  define P where "P i k' \<longleftrightarrow> okd {#} (dview k') \<and> cur (dview k') = cur (dview k) \<and> \<not> gone (dview k') np \<and> (\<forall>j. i \<le> j \<and> j < NOFILE \<longrightarrow> fds (dview k') np ! j = None)" for i k'
  have 0: "P 0 k'" if "dview k' = dview k" for k' using that ok np by (simp add: P_def)
  have step: "partR (fork_file np i k') (P (Suc i))" if "i < NOFILE" "P i k'" for i k'
    by (rule fork_file_step) (use that np in \<open>auto simp: P_def\<close>)
  have loop: "partR (forR [0..<NOFILE] (fork_file np) k') Q" if "dview k' = dview k" "\<And>k'. P NOFILE k' \<Longrightarrow> Q k'" for k' Q
    by (rule partR_upto [where P = P]) (use 0 step that in auto)
  have fin: "okd {#} (dview (on_procs (upd np (\<lambda>q. q\<lparr>state := RUNNABLE\<rparr>)) k'))" if "okd {#} (dview k')" "\<not> gone (dview k') np" for k'
  proof -
    have "np < length (procs (pt (fs k')))" using fd_ok_len [of "{#}" k'] that np(1) by (simp add: okd_def)
    then have "dview (on_procs (upd np (\<lambda>q. q\<lparr>state := RUNNABLE\<rparr>)) k') = mark np False (dview k')" by (rule dview_mark) (simp add: dead_def)
    then show ?thesis using that mark_same [of np "dview k'"] by simp
  qed
  have v: "pview (q\<lparr>sz := a, trace_mask := b\<rparr>) = pview q" "pview (q\<lparr>cwd := c, pname := n\<rparr>) = pview q" "pview (q\<lparr>parent := e\<rparr>) = pview q" for q a b c n e
    by (simp_all add: pview_def dead_def)
  show ?thesis
    by (auto simp: fork_copy_def Let_def dview_upd v P_def split: option.splits intro!: loop fin)
qed

lemma fork_okd:
  assumes ok: "okd {#} (dview k)"
  shows "partR (fork tramp fr k) (\<lambda>(r, k'). okd {#} (dview k'))"
proof -
  have new: "partR (bindR (uvmcopy (mem_of k') t t' z) (\<lambda>(r, m). let k = set_km m k' in
         if r < 0 then bindR (freeproc (pt (fs k)) np) (\<lambda>p. Ok (-1, set_pt p k)) else fork_copy np k)) (\<lambda>(r, k'). okd {#} (dview k'))"
    if np: "np < length (procs (pt (fs k)))" "gone (dview k) np" and e: "dview k' = mark np False (dview k)" for np k' t t' z
  proof -
    have l: "np < NPROC" using np fd_ok_len [of "{#}" k] ok by (simp add: okd_def)
    have f: "fd_ok {#} (dview k)" using ok by (simp add: okd_def)
    have c: "np \<noteq> cur (dview k)" using np(2) ok by (auto simp: okd_def)
    have g: "\<not> gone (mark np False (dview k)) np" "\<not> gone (mark np False (dview k)) (cur (dview k))" using gone_mark [OF f l] ok c by (auto simp: okd_def)
    have "okd {#} (dview k')" using fd_ok_mark [OF f l, of False] g(2) e by (simp add: okd_def)
    moreover have "fds (dview k') np = replicate NOFILE None" using fd_ok_fds(2) [OF f l np(2)] e by simp
    ultimately have copy: "partR (fork_copy np (set_km m k')) (\<lambda>(r, k'). okd {#} (dview k'))" for m
      by (intro fork_copy_okd) (use l c g e in auto)
    have undo: "partR (freeproc (pt (fs (set_km m k'))) np) (\<lambda>p. okd {#} (dview (set_pt p (set_km m k'))))" for m
    proof (rule freeproc_view)
      show "np < length (procs (pt (fs (set_km m k'))))" using fd_ok_len [of "{#}" k'] \<open>okd {#} (dview k')\<close> l by (simp add: okd_def set_km_def)
      have "mark np True (mark np False (dview k)) = dview k" using mark_same [of np "dview k"] np(2) by (auto simp: mark_def fst_nth_update split: prod.splits)
      then show "okd {#} (dview (set_pt p' (set_km m k')))" if "dview (set_pt p' (set_km m k')) = mark np True (dview (set_km m k'))" for p'
        using that ok e by simp
    qed
    show ?thesis using copy undo by (auto simp: Let_def intro!: keeps)
  qed
  define N where "N np k' t t' z = bindR (uvmcopy (mem_of k') t t' z) (\<lambda>(r, m). let k = set_km m k' in
         if r < 0 then bindR (freeproc (pt (fs k)) np) (\<lambda>p. Ok (-1, set_pt p k)) else fork_copy np k)" for np k' t t' z
  have e: "fork tramp fr k = bindR (allocproc tramp fr (pt (fs k))) (\<lambda>(npo, p). case npo of None \<Rightarrow> Ok (-1, set_pt p k)
      | Some np \<Rightarrow> N np (set_pt p k) (pagetable (myproc (set_pt p k))) (pagetable (procs (pt (fs (set_pt p k))) ! np)) (sz (myproc (set_pt p k))))"
    unfolding fork_def N_def Let_def by (rule refl)
  show ?thesis unfolding e partR_simps(5)
    by (rule allocproc_view) (use ok new [folded N_def] in simp_all)
qed

lemma sys_fork_okd: "okd {#} (dview k) \<Longrightarrow> partR (sys_fork tramp fr k) (\<lambda>(r, k'). okd {#} (dview k'))"
  using fork_okd [of k tramp fr] by (auto simp: sys_fork_def ret_def partR_def bindR_eq_Ok)

lemma exit_file_step:
  assumes ok: "okd {#} (dview k)" and i: "i < NOFILE" "\<forall>j < i. fds (dview k) (cur (dview k)) ! j = None"
    and Q: "\<And>k'. okd {#} (dview k') \<Longrightarrow> \<forall>j < Suc i. fds (dview k') (cur (dview k')) ! j = None \<Longrightarrow> Q k'"
  shows "partR (exit_file i k) Q"
proof (cases "ofile (myproc k) ! i")
  case None
  then have "\<forall>j < Suc i. fds (dview k) (cur (dview k)) ! j = None" using i(2) okd_ofile [OF ok] by (auto simp: less_Suc_eq)
  then show ?thesis using Q [OF ok] None by (simp add: exit_file_def)
next
  case (Some f)
  let ?c = "cur (dview k)"
  have h: "fds (dview k) ?c ! i = Some f" using Some okd_ofile [OF ok] by simp
  let ?d = "dec f (putd ?c i None (dview k))"
  have d: "okd {#} ?d" by (rule okd_dec) (rule okd_take [OF ok i(1) h])
  have n: "\<forall>j < Suc i. fds ?d ?c ! j = None"
    using okd_fds_putd [OF ok, of i None] i okd_nofile [OF ok] by (auto simp: less_Suc_eq nth_list_update simp del: view_simps(12))
  have "Q (on_procs (upd (me (fs k')) (\<lambda>q. q\<lparr>ofile := (ofile q)[i := None]\<rparr>)) k')" if e: "dview k' = dec f (dview k)" for k'
  proof -
    have m: "me (fs k') = ?c" using e dview_parts(1) [of k'] by simp
    have "length (procs (pt (fs k'))) = length (procs (pt (fs k)))" using e by (auto simp: dview_def dec_def dest: map_eq_imp_length_eq)
    then have "?c < length (procs (pt (fs k')))" using fd_ok_len [of "{#}" k] ok okd_cur [OF ok] by (simp add: okd_def)
    then have "dview (on_procs (upd (me (fs k')) (\<lambda>q. q\<lparr>ofile := (ofile q)[i := None]\<rparr>)) k') = ?d" using dview_putd [of ?c k' i None] e m by simp
    then show ?thesis using Q d n by simp
  qed
  then show ?thesis by (simp add: exit_file_def Some) (rule fileclose_view, blast)
qed

lemma dview_reparent [simp]: "dview (reparent p k) = dview k"
proof -
  have v: "pview (q\<lparr>parent := e\<rparr>) = pview q" for q e by (simp add: pview_def dead_def)
  have "dview (fold (\<lambda>i k. if parent (procs (pt (fs k)) ! i) = Some p
        then wake_proc (initproc (pt (fs k))) (on_procs (upd i (\<lambda>q. q\<lparr>parent := initproc (pt (fs k))\<rparr>)) k) else k) is k) = dview k" for "is" k
    by (induction "is" arbitrary: k) (simp_all add: dview_upd v)
  then show ?thesis by (simp add: reparent_def)
qed

lemma sys_exit_ok:
  assumes ok: "okd {#} (dview k)"
  shows "partR (sys_exit k) (\<lambda>(r, k'). r = None \<and> fd_ok {#} (dview k'))"
proof -
  define P where "P i k' \<longleftrightarrow> okd {#} (dview k') \<and> (\<forall>j < i. fds (dview k') (cur (dview k')) ! j = None)" for i k'
  have step: "partR (exit_file i k') (P (Suc i))" if "i < NOFILE" "P i k'" for i k'
    by (rule exit_file_step) (use that in \<open>auto simp: P_def\<close>)
  have loop: "partR (forR [0..<NOFILE] exit_file k) Q" if "\<And>k'. P NOFILE k' \<Longrightarrow> Q k'" for Q
    by (rule partR_upto [where P = P]) (use ok step that in \<open>auto simp: P_def\<close>)
  have fin: "fd_ok {#} (dview (on_procs (upd (me (fs k2)) (\<lambda>q. q\<lparr>xstate := x, state := ZOMBIE\<rparr>)) k2))" if "P NOFILE k1" "dview k2 = dview k1" for k1 k2 x
  proof -
    have o: "okd {#} (dview k2)" "\<forall>j < NOFILE. fds (dview k2) (cur (dview k2)) ! j = None" using that by (simp_all add: P_def)
    have "fds (dview k2) (cur (dview k2)) = replicate NOFILE None" by (rule nth_equalityI) (use o okd_nofile [OF o(1)] in auto)
    then have "fd_ok {#} (mark (cur (dview k2)) True (dview k2))" using fd_ok_mark [of "{#}" "dview k2" "cur (dview k2)" True] o(1) okd_cur [OF o(1)] by (simp add: okd_def)
    moreover have "dview (on_procs (upd (me (fs k2)) (\<lambda>q. q\<lparr>xstate := x, state := ZOMBIE\<rparr>)) k2) = mark (cur (dview k2)) True (dview k2)"
      unfolding dview_parts(1) by (rule dview_mark) (use fd_ok_len [of "{#}" k2] o(1) in \<open>simp_all add: okd_def dead_def\<close>)
    ultimately show ?thesis by simp
  qed
  have v: "dview (on_procs (upd i (\<lambda>q. q\<lparr>cwd := None\<rparr>)) k) = dview k" for i k by (rule dview_upd) (simp add: pview_def dead_def)
  show ?thesis by (auto simp: sys_exit_def exit_def Let_def v split: option.splits intro!: keeps loop fin)
qed

lemma wait_scan_keeps:
  assumes "fd_ok {#} (dview k)" and "\<forall>i \<in> set is. i < NPROC" and "\<And>r k'. dview k' = dview k \<Longrightarrow> Q (r, k')"
  shows "partR (wait_scan addr is h k) Q"
  using assms
proof (induction "is" arbitrary: h)
  case Nil
  then show ?case by simp
next
  case (Cons i "is")
  note l = fd_ok_len [OF Cons.prems(1)]
  have i: "i < length (procs (pt (fs k)))" using Cons.prems(2) l by simp
  have free: "partR (freeproc (pt (fs k')) i) (\<lambda>p. Q (r, set_pt p k'))" if "dview k' = dview k" "state (procs (pt (fs k)) ! i) = ZOMBIE" for r k'
  proof (rule freeproc_view)
    have "length (procs (pt (fs k'))) = length (procs (pt (fs k)))" using that(1) by (auto simp: dview_def dest: map_eq_imp_length_eq)
    then show "i < length (procs (pt (fs k')))" using i by simp
    have "gone (dview k) i" using that(2) i by (simp add: gone_def dview_def pview_def dead_def)
    then show "Q (r, set_pt p' k')" if "dview (set_pt p' k') = mark i True (dview k')" for p'
      using Cons.prems(3) that mark_same [of i "dview k"] \<open>dview k' = dview k\<close> by simp
  qed
  show ?case using Cons.IH Cons.prems by (auto simp: Let_def intro!: keeps free)
qed

lemma sys_wait_okd:
  assumes ok: "okd {#} (dview k)"
  shows "partR (sys_wait k) (\<lambda>(r, k'). okd {#} (dview k'))"
proof -
  have w: "partR (wait_scan a [0..<NPROC] False k) Q" if "\<And>r k'. dview k' = dview k \<Longrightarrow> Q (r, k')" for a Q
    by (rule wait_scan_keeps) (use ok that in \<open>auto simp: okd_def\<close>)
  show ?thesis using ok by (auto simp: sys_wait_def wait_def wait_run_def split: sum.splits intro!: keeps w)
qed

section \<open>The dispatcher\<close>

lemma trace_call_keeps [keeps]: "(\<And>k'. dview k' = dview k \<Longrightarrow> Q k') \<Longrightarrow> partR (trace_call n args k) Q"
proof -
  assume Q: "\<And>k'. dview k' = dview k \<Longrightarrow> Q k'"
  have p: "partR (forR is (print_arg args m) k') R" if "\<And>k''. dview k'' = dview k' \<Longrightarrow> R k''" for "is" m k' R
    by (rule forR_keeps [where c = dview]) (use that in \<open>auto simp: print_arg_def intro!: keeps\<close>)
  show ?thesis using Q by (auto simp: trace_call_def intro!: keeps p)
qed

lemma syscalls_okd:
  assumes "syscalls tramp fr n = Some f" and ok: "okd {#} (dview k)"
  shows "partR (f k) (\<lambda>(r, k'). fd_ok {#} (dview k') \<and> (r \<noteq> None \<longrightarrow> okd {#} (dview k')))"
proof -
  have "(n, f) \<in> set (enumerate 1 [sys_fork tramp fr, sys_exit, sys_wait, sys_pipe, sys_read, sys_kill, sys_exec tramp, sys_fstat, sys_chdir, sys_dup,
        sys_getpid, sys_sbrk, sys_sleep, sys_uptime, sys_open, sys_write, sys_mknod, sys_unlink, sys_link, sys_mkdir, sys_close, sys_trace, sys_sysinfo])"
    using assms(1) unfolding syscalls_def by (rule map_of_SomeD)
  then have f: "f \<in> {sys_fork tramp fr, sys_wait, sys_pipe, sys_dup, sys_open, sys_close} \<or> f = sys_exit \<or>
      f \<in> {sys_read, sys_kill, sys_exec tramp, sys_fstat, sys_chdir, sys_getpid, sys_sbrk, sys_sleep, sys_uptime, sys_write, sys_mknod, sys_unlink, sys_link,
        sys_mkdir, sys_trace, sys_sysinfo}" by auto
  then show ?thesis
  proof (elim disjE)
    assume "f \<in> {sys_fork tramp fr, sys_wait, sys_pipe, sys_dup, sys_open, sys_close}"
    then have "partR (f k) (\<lambda>(r, k'). okd {#} (dview k'))"
      using sys_fork_okd [OF ok] sys_wait_okd [OF ok] sys_pipe_okd [OF ok] sys_dup_okd [OF ok] sys_open_okd [OF ok] sys_close_okd [OF ok] by auto
    then show ?thesis by (auto simp: partR_def okd_def)
  next
    assume "f = sys_exit"
    then show ?thesis using sys_exit_ok [OF ok] by (auto simp: partR_def)
  next
    assume "f \<in> {sys_read, sys_kill, sys_exec tramp, sys_fstat, sys_chdir, sys_getpid, sys_sbrk, sys_sleep, sys_uptime, sys_write, sys_mknod, sys_unlink, sys_link,
        sys_mkdir, sys_trace, sys_sysinfo}"
    then have "partR (f k) (\<lambda>(r, k'). dview k' = dview k)" by (auto intro!: keeps)
    then show ?thesis using ok by (auto simp: partR_def okd_def)
  qed
qed

definition fd_inv :: "kern \<Rightarrow> bool" where
  "fd_inv k \<longleftrightarrow> length (procs (pt (fs k))) = NPROC \<and> me (fs k) < NPROC \<and>
     (\<forall>p \<in> set (procs (pt (fs k))). length (ofile p) = NOFILE \<and> (dead p \<longrightarrow> ofile p = replicate NOFILE None)) \<and>
     (\<forall>f. fref (ftable k f) = int (sum_list (map (\<lambda>p. count_list (ofile p) (Some f)) (procs (pt (fs k)))))) \<and>
     (\<forall>f. fref (ftable k f) \<noteq> 0 \<longrightarrow> f < NFILE)"

lemma fd_inv_view: "fd_inv k \<longleftrightarrow> fd_ok {#} (dview k)"
proof -
  have "refs (map pview ps) f = sum_list (map (\<lambda>p. count_list (ofile p) (Some f)) ps)" for ps f
    by (simp add: refs_def o_def pview_def)
  then show ?thesis by (simp add: fd_inv_def fd_ok_def dview_def pview_def)
qed

lemma okd_inv: "okd {#} (dview k) \<longleftrightarrow> fd_inv k \<and> \<not> dead (myproc k)"
  by (auto simp: okd_def fd_inv_view gone_def cur_def dview_def pview_def myproc_def fd_ok_def)

text \<open>
  C8: Descriptors are always well-typed: whichever system call a process makes, if it returns, every descriptor of every
  process refers to an entry of the file table, the reference count of each entry is the number of descriptors that
  refer to it, and a process that has exited has none; the calling process is still there unless the call is \<^verbatim>\<open>exit\<close>.
\<close>

theorem syscall_descriptors:
  assumes "fd_inv k" and "\<not> dead (myproc k)" and "syscall tramp forkret k = Ok (here, k')"
  shows "fd_inv k' \<and> (here \<longrightarrow> \<not> dead (myproc k'))"
proof -
  have ok: "okd {#} (dview k)" using assms(1,2) by (simp add: okd_inv)
  have "partR (syscall tramp forkret k) (\<lambda>(b, k'). fd_ok {#} (dview k') \<and> (b \<longrightarrow> okd {#} (dview k')))"
  proof -
    let ?n = "sint (ucast (tf_get tf_a7 k) :: u32)"
    show ?thesis
    proof (cases "if ?n > 0 \<and> ?n < 24 then syscalls tramp forkret (nat ?n) else None")
      case None
      then show ?thesis using ok by (auto simp: syscall_def Let_def okd_def intro!: keeps)
    next
      case (Some f)
      then have "partR (f k) (\<lambda>(r, k'). fd_ok {#} (dview k') \<and> (r \<noteq> None \<longrightarrow> okd {#} (dview k')))"
        by (intro syscalls_okd [of tramp forkret "nat ?n"] ok) (simp split: if_splits)
      moreover define T where "T r k1 = (case r of None \<Rightarrow> Ok (False, k1) | Some v \<Rightarrow>
          let k1 = tf_put tf_a0 v k1 in
          bindR (if bit (trace_mask (myproc k1)) (nat ?n) then trace_call (nat ?n) (map (\<lambda>i. tf_get (tf_a0 + of_nat (8 * i)) k) [0..<6]) k1 else Ok k1) (\<lambda>k. Ok (True, k)))"
        for r k1
      have "partR (T r k1) (\<lambda>(b, k'). fd_ok {#} (dview k') \<and> (b \<longrightarrow> okd {#} (dview k')))"
        if "fd_ok {#} (dview k1)" "r \<noteq> None \<longrightarrow> okd {#} (dview k1)" for r k1
        using that by (auto simp: T_def Let_def split: option.splits intro!: keeps)
      moreover have "syscall tramp forkret k = bindR (f k) (\<lambda>(r, k). T r k)"
        unfolding syscall_def T_def Let_def Some option.case by (rule refl)
      ultimately show ?thesis by (auto simp: elim!: partR_mono)
    qed
  qed
  from partRD [OF this assms(3)] show ?thesis by (auto simp: okd_inv fd_inv_view [symmetric])
qed

text \<open>A kernel with one process, which holds descriptor 0 and is about to call \<^verbatim>\<open>dup(0)\<close>.\<close>

definition dup_caller :: proc where
  "dup_caller = proc0\<lparr>state := RUNNING, trapframe := 0x80001000, ofile := Some 3 # replicate 15 None\<rparr>"

definition dup_kern :: kern where
  "dup_kern = kern1\<lparr>fs := fs1\<lparr>pt := \<lparr>km = \<lparr>mem = (\<lambda>a. if a = 0x800010A8 then 10 else 0), freelist = 0, kend = 0x80030000\<rparr>, procs = dup_caller # replicate 63 proc0,
       nextpid = 2, initproc = None\<rparr>, me := 0\<rparr>, ftable := (ftable kern1)(3 := (ftable kern1 3)\<lparr>fref := 1\<rparr>)\<rparr>"

lemma dup_kern_fields:
  "myproc dup_kern = dup_caller" "ftable dup_kern 3 = (ftable kern1 3)\<lparr>fref := 1\<rparr>" "mem (mem_of dup_kern) = (\<lambda>a. if a = 0x800010A8 then 10 else 0)"
  "me (fs dup_kern) = 0" "procs (pt (fs dup_kern)) = dup_caller # replicate 63 proc0"
  by (simp_all add: dup_kern_def myproc_def mem_of_def)

lemma dup_kern_inv: "fd_inv dup_kern" "\<not> dead (myproc dup_kern)"
proof -
  have z: "sum_list (map (\<lambda>p. count_list (ofile p) (Some f)) (replicate n proc0)) = 0" for f n
    by (induction n) (simp_all add: proc0_def)
  show "fd_inv dup_kern" unfolding fd_inv_def dup_kern_fields
    by (auto simp: z dup_caller_def dead_def proc0_def) (auto simp: dup_kern_def kern1_def fs1_def split: if_splits)
  show "\<not> dead (myproc dup_kern)" by (simp add: dup_kern_fields dup_caller_def dead_def)
qed

lemma dup_kern_call: "\<exists>k'. syscall 0 0 dup_kern = Ok (True, k') \<and> fref (ftable k' 3) = 2"
proof -
  have t: "tf_get tf_a7 dup_kern = 10" "tf_get tf_a0 dup_kern = 0"
    by (simp_all add: tf_get_def dup_kern_fields dup_caller_def load64_def read_bytes_def upt_conv_Cons)
  have a: "argfd 0 dup_kern = Ok (Some (0, 3))" using t(2) by (simp add: argfd_def argint_def argraw_def dup_kern_fields dup_caller_def)
  have "find (\<lambda>fd. ofile dup_caller ! fd = None) [0..<NOFILE] = Some 1"
    by (simp add: upt_conv_Cons dup_caller_def)
  then have f: "fdalloc 3 dup_kern = (Some 1, set_ofile 1 (Some 3) dup_kern)" by (simp add: fdalloc_def dup_kern_fields)
  let ?k = "updfile 3 (\<lambda>x. x\<lparr>fref := fref x + 1\<rparr>) (set_ofile 1 (Some 3) dup_kern)"
  have ft: "ftable (set_ofile i v dup_kern) = ftable dup_kern" for i v by (simp add: set_ofile_def on_procs_def)
  have "sys_dup dup_kern = Ok (Some 1, ?k)" by (simp add: sys_dup_def a f filedup_def ft dup_kern_fields ret_def)
  moreover have "syscalls 0 0 10 = Some sys_dup" by (simp add: syscalls_def)
  moreover have "trace_mask (myproc (tf_put tf_a0 1 ?k)) = 0"
    by (simp add: tf_put_def on_mem_def set_km_def myproc_def updfile_def set_ofile_def on_procs_def upd_def dup_kern_fields) (simp add: dup_caller_def proc0_def)
  ultimately have "syscall 0 0 dup_kern = Ok (True, tf_put tf_a0 1 ?k)" by (simp add: syscall_def t(1) Let_def)
  moreover have "fref (ftable (tf_put tf_a0 1 ?k) 3) = 2" by (simp add: tf_put_def on_mem_def set_km_def updfile_def ft dup_kern_fields)
  ultimately show ?thesis by blast
qed

theorem syscall_descriptors_witness: "\<exists>k'. syscall 0 0 dup_kern = Ok (True, k') \<and> fref (ftable k' 3) = 2 \<and> fd_inv k'"
  using dup_kern_call syscall_descriptors [OF dup_kern_inv] by blast

end
