(* ===== verification/Spec2Isabelle.thy ===== *)
theory Spec2Isabelle
  imports Xv6_Trap Xv6_Descr
begin

text \<open>
  A verification library for the xv6-riscv kernel of this repository (\<^verbatim>\<open>src/kernel\<close>), a teaching operating system for a
  RISC-V multiprocessor with the system calls \<^verbatim>\<open>trace\<close> and \<^verbatim>\<open>sysinfo\<close> added.

  \<^bold>\<open>The program.\<close>  The kernel boots in \<^verbatim>\<open>main.c\<close>, hands out pages (\<^verbatim>\<open>kalloc.c\<close>), builds page tables (\<^verbatim>\<open>vm.c\<close>), runs processes
  (\<^verbatim>\<open>proc.c\<close>) under spin locks and sleep locks, serves traps (\<^verbatim>\<open>trap.c\<close>, \<^verbatim>\<open>plic.c\<close>) and system calls (\<^verbatim>\<open>syscall.c\<close>,
  \<^verbatim>\<open>sysproc.c\<close>, \<^verbatim>\<open>sysfile.c\<close>, \<^verbatim>\<open>exec.c\<close>), and keeps files: the disk driver (\<^verbatim>\<open>virtio_disk.c\<close>) below the buffer cache
  (\<^verbatim>\<open>bio.c\<close>), below the redo log (\<^verbatim>\<open>log.c\<close>), below inodes, directories and paths (\<^verbatim>\<open>fs.c\<close>), below open files and
  pipes (\<^verbatim>\<open>file.c\<close>, \<^verbatim>\<open>pipe.c\<close>).  The console (\<^verbatim>\<open>console.c\<close>, \<^verbatim>\<open>uart.c\<close>, \<^verbatim>\<open>printf.c\<close>) is a device file.

  \<^bold>\<open>Modelling.\<close>  C integers are words of their width; structures are records; a function of the kernel is a HOL function of the
  same name from the state of its component to an outcome: \<open>Ok\<close> with the result and the new state, \<open>Panic\<close>
  with the message of \<^verbatim>\<open>panic\<close>, \<open>Sleeps\<close> with a channel when the call cannot go on without another process,
  \<open>Diverges\<close> when it waits for ever.  Helper functions with the suffixes \<open>_from\<close>, \<open>_loop\<close> and \<open>_run\<close> are the
  loops.  Memory is a function from 64-bit addresses to bytes, so that page tables, the free list and user memory are
  laid out as in the code and may alias.  What happens under one hold of a lock is one operation; where the
  interleaving matters, operations are the steps of a relation (\<open>lstep\<close> for spin locks, \<open>sstep\<close> for
  the scheduler, \<open>sleeper\<close> and \<open>waker\<close> for sleep and wakeup, \<open>lop_step\<close> for calls that share the log).

  \<^bold>\<open>Theories.\<close>
    \<^item> \<^verbatim>\<open>Xv6_Prelude\<close>: machine integers, outcomes, byte memories, slices of blocks.  \<^verbatim>\<open>Xv6_Riscv\<close>: constants and address
      macros of \<^verbatim>\<open>riscv.h\<close> and \<^verbatim>\<open>memlayout.h\<close>.
    \<^item> \<^verbatim>\<open>Xv6_String\<close>: \<^verbatim>\<open>string.c\<close>.  Copies are right also for overlapping ranges, comparison and bounded copies of strings are
      what their contracts say.
    \<^item> \<^verbatim>\<open>Xv6_Kalloc\<close>: \<^verbatim>\<open>kalloc.c\<close>.  The free list is a duplicate-free list of pages in RAM; allocation and freeing keep it, and
      counting it ends.
    \<^item> \<^verbatim>\<open>Xv6_Vm\<close>, \<^verbatim>\<open>Xv6_Pagetable\<close>, \<^verbatim>\<open>Xv6_Uvm\<close>: \<^verbatim>\<open>vm.c\<close>.  The first has the definitions, the second the invariant \<open>pt_inv\<close>
      (a tree of pages apart from the free list) and the translation \<open>vpte\<close>, the third the effect of \<^verbatim>\<open>walk\<close>,
      \<^verbatim>\<open>mappages\<close>, \<^verbatim>\<open>copyin\<close>, \<^verbatim>\<open>copyout\<close> and \<^verbatim>\<open>copyinstr\<close>, in every case including failure.
    \<^item> \<^verbatim>\<open>Xv6_Spinlock\<close>: \<^verbatim>\<open>spinlock.c\<close>.  Mutual exclusion and interrupts off, for any number of CPUs.
    \<^item> \<^verbatim>\<open>Xv6_Proc\<close>, \<^verbatim>\<open>Xv6_Sched\<close>: the process table, \<^verbatim>\<open>sleep\<close>, \<^verbatim>\<open>wakeup\<close>, \<^verbatim>\<open>kill\<close> and the scheduler of \<^verbatim>\<open>proc.c\<close>.  Pids are
      unique, no wakeup is lost, no process runs on two CPUs.
    \<^item> \<^verbatim>\<open>Xv6_Bio\<close>, \<^verbatim>\<open>Xv6_Cache\<close>: \<^verbatim>\<open>bio.c\<close> and \<^verbatim>\<open>sleeplock.c\<close>.  The linked list is a list in order of last use; the locale
      \<open>block_cache\<close> is what the layers above rely on, interpreted on the operations of \<^verbatim>\<open>bio.c\<close>.
    \<^item> \<^verbatim>\<open>Xv6_Log\<close>: \<^verbatim>\<open>log.c\<close>.  A crash after any of the disk writes of a commit, or of a recovery, leaves all of a
      transaction or nothing; the space reserved by \<^verbatim>\<open>begin_op\<close> suffices when the log has \<^verbatim>\<open>LOGSIZE\<close> blocks
      besides its header.
    \<^item> \<^verbatim>\<open>Xv6_Fs\<close>: \<^verbatim>\<open>fs.c\<close>, with the definitions.  \<^verbatim>\<open>Xv6_Block\<close>: blocks as seen through cache and log (\<open>fview\<close>), the bitmap and
      \<^verbatim>\<open>balloc\<close>, inodes on disk.  \<^verbatim>\<open>Xv6_Inode\<close>: the block map of a file and \<^verbatim>\<open>bmap\<close>.  \<^verbatim>\<open>Xv6_Readi\<close>, \<^verbatim>\<open>Xv6_Writei\<close>: files as
      byte sequences (\<open>fdata\<close>).  \<^verbatim>\<open>Xv6_Content\<close>: an example file system and the theorems on \<^verbatim>\<open>balloc\<close>, \<^verbatim>\<open>readi\<close>, \<^verbatim>\<open>writei\<close> and
      the inode format.
    \<^item> \<^verbatim>\<open>Xv6_Console\<close>: \<^verbatim>\<open>uart.c\<close>, \<^verbatim>\<open>console.c\<close>, \<^verbatim>\<open>printf.c\<close>.  Numbers are printed right.
    \<^item> \<^verbatim>\<open>Xv6_File\<close>: \<^verbatim>\<open>file.c\<close>, \<^verbatim>\<open>pipe.c\<close>, and the state \<open>kern\<close> of the whole kernel.  \<^verbatim>\<open>Xv6_Ring\<close>: pipes, the serial port
      and the line editing of the console as queues; the locale \<open>fifo\<close> is interpreted on the first two.
    \<^item> \<^verbatim>\<open>Xv6_Process\<close>: \<^verbatim>\<open>fork\<close>, \<^verbatim>\<open>exit\<close>, \<^verbatim>\<open>wait\<close> of \<^verbatim>\<open>proc.c\<close>.  \<^verbatim>\<open>Xv6_Exec\<close>: \<^verbatim>\<open>exec.c\<close>.  \<^verbatim>\<open>Xv6_Syscall\<close>: \<^verbatim>\<open>syscall.c\<close>,
      \<^verbatim>\<open>sysproc.c\<close> and \<^verbatim>\<open>sysfile.c\<close>.  \<^verbatim>\<open>Xv6_Virtio\<close>: \<^verbatim>\<open>virtio_disk.c\<close>; a request is one block transfer.
      \<^verbatim>\<open>Xv6_Trap\<close>: \<^verbatim>\<open>trap.c\<close>, \<^verbatim>\<open>plic.c\<close>, \<^verbatim>\<open>main.c\<close>.
    \<^item> \<^verbatim>\<open>Xv6_Keeps\<close>: what each operation of the file system and of the kernel leaves alone, as rules for partial correctness.
      \<^verbatim>\<open>Xv6_Descr\<close>: every system call keeps descriptors well-typed and reference counts exact.

  \<^bold>\<open>Bounds and termination.\<close>  Loops over words end because the words have finitely many values and the guards are those of the
  code; loops over lists are structural.  \<^verbatim>\<open>uartputc_sync\<close> polls for ever if the transmitter never becomes idle: it is
  a partial function, and the theorem on the console assumes a transmitter that becomes idle again and again.  No
  other fuel is used: the receive loop of \<^verbatim>\<open>uartintr\<close> is bounded by the bytes that wait.

  \<^bold>\<open>Parameters.\<close>  The device behind the disk driver, what the interrupt controller reads and the answers of the
  transmitter are arguments of the definitions that use them.

  \<^bold>\<open>Not modelled.\<close>  Assembly (\<^verbatim>\<open>entry.S\<close>, \<^verbatim>\<open>trampoline.S\<close>, \<^verbatim>\<open>kernelvec.S\<close>, \<^verbatim>\<open>swtch.S\<close>, \<^verbatim>\<open>initcode.S\<close>) and \<^verbatim>\<open>start.c\<close>, which
  move registers; the weak memory order of the machine (the fences of \<^verbatim>\<open>acquire\<close> and \<^verbatim>\<open>release\<close> are taken to work);
  \<^verbatim>\<open>procdump\<close>, which only prints; the user programs of \<^verbatim>\<open>src/user\<close>, which run as compiled code above the system calls;
  \<^verbatim>\<open>mkfs\<close>, a program of the build host; scripts, patches and link files.
\<close>

end
